(* ===== verification/Prelude.thy ===== *)
theory Prelude
  imports Main "HOL-Library.Word" "HOL-Library.List_Lexorder" "HOL-Library.Char_ord"
begin

text \<open>
  What every component of the development shares: the collections its automation uses, the
  machine types the Rust sources name, \<open>Result\<close> as a sum with the early return of \<open>?\<close>, and the
  few string functions of the standard library the sources call. A Rust \<open>String\<close> is the list of
  its UTF-8 bytes (\<open>string\<close>), a \<open>Vec<u8>\<close> a list of 8-bit words; sequence numbers and
  sizes (\<open>u64\<close>, \<open>usize\<close>) are natural numbers, and where the code saturates or converts between
  widths the bound is written out.
\<close>

section \<open>Collections of the development\<close>

named_theorems invariants \<open>every operation keeps the invariant of its component\<close>
named_theorems op_simps \<open>equations that compute an operation\<close>

section \<open>Machine types\<close>

type_synonym u8 = "8 word"
type_synonym bytes = "8 word list"

definition u32_max :: nat where
  "u32_max = 2 ^ 32 - 1"

section \<open>Results with early return\<close>

text \<open>\<open>Result<T, E>\<close> is \<open>'e + 'a\<close>; \<open>and_then\<close> is what \<open>?\<close> does with a failure.\<close>

fun and_then :: "'e + 'a \<Rightarrow> ('a \<Rightarrow> 'e + 'b) \<Rightarrow> 'e + 'b" where
  "and_then (Inl e) f = Inl e"
| "and_then (Inr x) f = f x"

fun map_err :: "('e \<Rightarrow> 'f) \<Rightarrow> 'e + 'a \<Rightarrow> 'f + 'a" where
  "map_err g (Inl e) = Inl (g e)"
| "map_err g (Inr x) = Inr x"

definition ok_or :: "'e \<Rightarrow> 'a option \<Rightarrow> 'e + 'a" where
  "ok_or e m = (case m of None \<Rightarrow> Inl e | Some x \<Rightarrow> Inr x)"

definition refuse_if :: "bool \<Rightarrow> 'e \<Rightarrow> 'e + unit" where
  "refuse_if c e = (if c then Inl e else Inr ())"

text \<open>\<open>collect::<Result<Vec<_>, _>>()\<close>: the first failure stops the collection.\<close>

fun collect_results :: "('e + 'a) list \<Rightarrow> 'e + 'a list" where
  "collect_results [] = Inr []"
| "collect_results (r # rs) =
     and_then r (\<lambda>x. and_then (collect_results rs) (\<lambda>xs. Inr (x # xs)))"

lemma and_then_Inr [simp]: "and_then r f = Inr y \<longleftrightarrow> (\<exists>x. r = Inr x \<and> f x = Inr y)"
  by (cases r) auto

lemma and_then_Inl: "and_then r f = Inl e \<longleftrightarrow> r = Inl e \<or> (\<exists>x. r = Inr x \<and> f x = Inl e)"
  by (cases r) auto

lemma map_err_Inr [simp]: "map_err g r = Inr y \<longleftrightarrow> r = Inr y"
  by (cases r) auto

lemma ok_or_Inr [simp]: "ok_or e m = Inr x \<longleftrightarrow> m = Some x"
  by (auto simp: ok_or_def split: option.splits)

lemma ok_or_Inl [simp]: "ok_or e m = Inl e' \<longleftrightarrow> m = None \<and> e' = e"
  by (auto simp: ok_or_def split: option.splits)

lemma ok_or_simps [simp]: "ok_or e None = Inl e" "ok_or e (Some x) = Inr x"
  by (simp_all add: ok_or_def)

lemma refuse_if_Inr [simp]: "refuse_if c e = Inr u \<longleftrightarrow> \<not> c"
  by (auto simp: refuse_if_def)

lemma refuse_if_Inl [simp]: "refuse_if c e = Inl e' \<longleftrightarrow> c \<and> e' = e"
  by (auto simp: refuse_if_def)

lemma collect_results_Inr:
  "collect_results rs = Inr xs \<longleftrightarrow> rs = map Inr xs"
  by (induction rs arbitrary: xs) auto

section \<open>Strings\<close>

text \<open>\<open>str::split_once\<close>: the text before and after the first occurrence of the delimiter.\<close>

fun split_once :: "'a \<Rightarrow> 'a list \<Rightarrow> ('a list \<times> 'a list) option" where
  "split_once d [] = None"
| "split_once d (c # cs) =
     (if c = d then Some ([], cs)
      else map_option (\<lambda>(a, b). (c # a, b)) (split_once d cs))"

lemma split_once_None: "split_once d cs = None \<longleftrightarrow> d \<notin> set cs"
  by (induction cs) auto

lemma split_once_append: "d \<notin> set a \<Longrightarrow> split_once d (a @ d # b) = Some (a, b)"
  by (induction a) auto

lemma split_once_SomeD: "split_once d cs = Some (a, b) \<Longrightarrow> cs = a @ d # b \<and> d \<notin> set a"
  by (induction cs arbitrary: a) (auto split: if_splits)

lemma split_once_Some: "split_once d cs = Some (a, b) \<longleftrightarrow> cs = a @ d # b \<and> d \<notin> set a"
  using split_once_SomeD split_once_append by metis

text \<open>Decimal digits, as \<open>Display\<close> prints a number in an error message.\<close>

fun show_nat :: "nat \<Rightarrow> string" where
  "show_nat n = (if n < 10 then [''0123456789'' ! n]
                 else show_nat (n div 10) @ [''0123456789'' ! (n mod 10)])"

declare show_nat.simps [simp del]

definition is_prefix :: "'a list \<Rightarrow> 'a list \<Rightarrow> bool" where
  "is_prefix p s = (take (length p) s = p)"

definition strip_prefix :: "'a list \<Rightarrow> 'a list \<Rightarrow> 'a list option" where
  "strip_prefix p s = (if is_prefix p s then Some (drop (length p) s) else None)"

lemma is_prefix_iff: "is_prefix p s \<longleftrightarrow> (\<exists>t. s = p @ t)"
proof
  assume "is_prefix p s"
  then have "s = p @ drop (length p) s"
    using append_take_drop_id [of "length p" s] by (simp add: is_prefix_def)
  then show "\<exists>t. s = p @ t" ..
qed (auto simp: is_prefix_def)

lemma is_prefix_append [simp]: "is_prefix p (p @ t)"
  by (auto simp: is_prefix_iff)

lemma strip_prefix_Some: "strip_prefix p s = Some t \<longleftrightarrow> s = p @ t"
  by (auto simp: strip_prefix_def is_prefix_iff)

end
