(* ===== verification/BTree_Map.thy ===== *)
theory BTree_Map
  imports Prelude
begin

text \<open>
  \<open>std::collections::BTreeMap\<close>, the map every component keeps its rows in: a finite map whose
  iteration order is the order of its keys. A value of the type is the list of its entries with
  strictly increasing keys, so equality of the type is Rust's derived \<open>Eq\<close> and a fold over the
  map visits the keys in the order the code does.
\<close>

section \<open>Sorted association lists\<close>

fun al_insert :: "'k::linorder \<Rightarrow> 'v \<Rightarrow> ('k \<times> 'v) list \<Rightarrow> ('k \<times> 'v) list" where
  "al_insert k v [] = [(k, v)]"
| "al_insert k v ((k', v') # al) =
     (if k = k' then (k, v) # al
      else if k < k' then (k, v) # (k', v') # al
      else (k', v') # al_insert k v al)"

definition al_remove :: "'k \<Rightarrow> ('k \<times> 'v) list \<Rightarrow> ('k \<times> 'v) list" where
  "al_remove k al = filter (\<lambda>(k', _). k' \<noteq> k) al"

definition al_ok :: "('k::linorder \<times> 'v) list \<Rightarrow> bool" where
  "al_ok al \<longleftrightarrow> sorted_wrt (<) (map fst al)"

lemma al_ok_simps [simp]:
  "al_ok []" "al_ok ((k, v) # al) \<longleftrightarrow> (\<forall>x \<in> set al. k < fst x) \<and> al_ok al"
  by (auto simp: al_ok_def)

lemma fst_set_al_insert: "fst ` set (al_insert k v al) = insert k (fst ` set al)"
  by (induction k v al rule: al_insert.induct) auto

lemma al_ok_insert: "al_ok al \<Longrightarrow> al_ok (al_insert k v al)"
proof (induction k v al rule: al_insert.induct)
  case (2 k v k' v' al)
  have "\<forall>x \<in> set (al_insert k v al). k' < fst x" if "k' < k"
  proof
    fix x assume "x \<in> set (al_insert k v al)"
    then have "fst x \<in> insert k (fst ` set al)"
      using fst_set_al_insert by (metis image_eqI)
    then show "k' < fst x" using that "2.prems" by auto
  qed
  then show ?case using 2 by (auto intro: less_trans)
qed simp

lemma al_ok_remove: "al_ok al \<Longrightarrow> al_ok (al_remove k al)"
  by (induction al) (auto simp: al_remove_def)

lemma al_ok_map: "al_ok (map (\<lambda>(k, v). (k, f k v)) al) \<longleftrightarrow> al_ok al"
  by (auto simp: al_ok_def comp_def case_prod_unfold)

lemma map_of_al_insert: "al_ok al \<Longrightarrow> map_of (al_insert k v al) = (map_of al)(k \<mapsto> v)"
proof (induction k v al rule: al_insert.induct)
  case (2 k v k' v' al)
  then show ?case by (auto simp: fun_eq_iff)
qed auto

lemma map_of_al_remove: "map_of (al_remove k al) = (map_of al)(k := None)"
  by (induction al) (auto simp: al_remove_def)

lemma al_ok_distinct: "al_ok al \<Longrightarrow> distinct (map fst al)"
  by (simp add: al_ok_def strict_sorted_iff)

lemma al_set_eqI:
  "al_ok xs \<Longrightarrow> al_ok ys \<Longrightarrow> set xs = set ys \<Longrightarrow> xs = ys"
proof (induction xs arbitrary: ys)
  case (Cons x xs)
  then obtain y ys' where ys: "ys = y # ys'" by (cases ys) auto
  have least: "fst x \<le> fst z" "fst y \<le> fst z" if "z \<in> set (x # xs)" for z
    using that Cons.prems ys by (cases x; cases y; auto intro: less_imp_le)+
  have "x = y"
  proof -
    have "fst x = fst y"
      using least [of x] least [of y] Cons.prems(3) ys
      by (metis list.set_intros(1) order_antisym)
    moreover have "x \<in> set ys" "distinct (map fst ys)"
      using Cons.prems al_ok_distinct by auto
    ultimately show ?thesis using ys by (cases x; cases y) (force simp: image_iff)
  qed
  moreover have "x \<notin> set xs" "y \<notin> set ys'"
    using al_ok_distinct [OF Cons.prems(1)] al_ok_distinct [OF Cons.prems(2)] ys by auto
  ultimately have "set xs = set ys'"
    using Cons.prems(3) ys by (simp add: insert_ident)
  then show ?case
    using Cons.IH Cons.prems(1,2) ys \<open>x = y\<close> by (cases x) auto
qed auto

lemma al_eqI:
  assumes "al_ok xs" "al_ok ys" "map_of xs = map_of ys"
  shows "xs = ys"
proof (rule al_set_eqI [OF assms(1,2)])
  have "(k, v) \<in> set xs \<longleftrightarrow> (k, v) \<in> set ys" for k v
    using map_of_eq_Some_iff [OF al_ok_distinct [OF assms(1)]]
      map_of_eq_Some_iff [OF al_ok_distinct [OF assms(2)]] assms(3) by metis
  then show "set xs = set ys" by auto
qed

section \<open>The type\<close>

typedef (overloaded) ('k::linorder, 'v) btmap = "{al :: ('k \<times> 'v) list. al_ok al}"
  morphisms bt_items Abs_btmap
  by (rule exI [of _ "[]"]) simp

setup_lifting type_definition_btmap

lift_definition bt_empty :: "('k::linorder, 'v) btmap" is "[]" by simp

lift_definition bt_get :: "('k::linorder, 'v) btmap \<Rightarrow> 'k \<Rightarrow> 'v option" is map_of .

lift_definition bt_insert :: "'k::linorder \<Rightarrow> 'v \<Rightarrow> ('k, 'v) btmap \<Rightarrow> ('k, 'v) btmap"
  is al_insert by (rule al_ok_insert)

lift_definition bt_remove :: "'k::linorder \<Rightarrow> ('k, 'v) btmap \<Rightarrow> ('k, 'v) btmap"
  is al_remove by (rule al_ok_remove)

lift_definition bt_map :: "('v \<Rightarrow> 'w) \<Rightarrow> ('k::linorder, 'v) btmap \<Rightarrow> ('k, 'w) btmap"
  is "\<lambda>f. map (\<lambda>(k, v). (k, f v))" by (simp add: al_ok_map)

definition bt_keys :: "('k::linorder, 'v) btmap \<Rightarrow> 'k list" where
  "bt_keys m = map fst (bt_items m)"

definition bt_values :: "('k::linorder, 'v) btmap \<Rightarrow> 'v list" where
  "bt_values m = map snd (bt_items m)"

definition bt_contains :: "('k::linorder, 'v) btmap \<Rightarrow> 'k \<Rightarrow> bool" where
  "bt_contains m k = (bt_get m k \<noteq> None)"

definition bt_is_empty :: "('k::linorder, 'v) btmap \<Rightarrow> bool" where
  "bt_is_empty m = (bt_items m = [])"

definition bt_size :: "('k::linorder, 'v) btmap \<Rightarrow> nat" where
  "bt_size m = length (bt_items m)"

section \<open>Laws\<close>

lemma al_ok_items [simp]: "al_ok (bt_items m)"
  using bt_items by auto

lemma bt_eqI: "(\<And>k. bt_get m k = bt_get m' k) \<Longrightarrow> m = m'"
  by transfer (auto intro: al_eqI)

lemma bt_get_empty [simp]: "bt_get bt_empty k = None"
  by transfer simp

lemma bt_get_insert: "bt_get (bt_insert k v m) k' = (if k' = k then Some v else bt_get m k')"
  by transfer (auto simp: map_of_al_insert)

lemma bt_get_insert_simps [simp]:
  "bt_get (bt_insert k v m) k = Some v"
  "k' \<noteq> k \<Longrightarrow> bt_get (bt_insert k v m) k' = bt_get m k'"
  by (simp_all add: bt_get_insert)

lemma bt_get_remove: "bt_get (bt_remove k m) k' = (if k' = k then None else bt_get m k')"
  by transfer (auto simp: map_of_al_remove)

lemma bt_get_map [simp]: "bt_get (bt_map f m) k = map_option f (bt_get m k)"
  by transfer (simp add: map_of_map)

lemma bt_items_simps [simp]:
  "bt_items bt_empty = []"
  "bt_items (bt_insert k v m) = al_insert k v (bt_items m)"
  "bt_items (bt_remove k m) = al_remove k (bt_items m)"
  "bt_items (bt_map f m) = map (\<lambda>(k, v). (k, f v)) (bt_items m)"
  by (transfer, simp)+

lemma bt_get_items: "bt_get m k = map_of (bt_items m) k"
  by transfer simp

lemma bt_keys_sorted: "sorted_wrt (<) (bt_keys m)"
  using al_ok_items [of m] by (simp add: bt_keys_def al_ok_def)

lemma bt_keys_distinct [simp]: "distinct (bt_keys m)"
  using bt_keys_sorted [of m] by (simp add: strict_sorted_iff)

lemma bt_items_iff: "(k, v) \<in> set (bt_items m) \<longleftrightarrow> bt_get m k = Some v"
  using bt_keys_distinct [of m] unfolding bt_keys_def
  by transfer (metis map_of_eq_Some_iff)

lemma bt_get_SomeD: "bt_get m k = Some v \<Longrightarrow> (k, v) \<in> set (bt_items m)"
  by (simp add: bt_items_iff)

lemma bt_keys_iff: "k \<in> set (bt_keys m) \<longleftrightarrow> bt_get m k \<noteq> None"
  by (auto simp: bt_keys_def bt_items_iff) (metis bt_items_iff fst_conv image_eqI)

lemma bt_values_iff: "v \<in> set (bt_values m) \<longleftrightarrow> (\<exists>k. bt_get m k = Some v)"
  by (auto simp: bt_values_def bt_items_iff) (metis bt_items_iff snd_conv image_eqI)

lemma bt_contains_iff: "bt_contains m k \<longleftrightarrow> (\<exists>v. bt_get m k = Some v)"
  by (auto simp: bt_contains_def)

lemma bt_is_empty_iff: "bt_is_empty m \<longleftrightarrow> (\<forall>k. bt_get m k = None)"
proof
  assume "\<forall>k. bt_get m k = None"
  then have "(k, v) \<notin> set (bt_items m)" for k v by (simp add: bt_items_iff)
  then have "set (bt_items m) = {}" by (metis all_not_in_conv surj_pair)
  then show "bt_is_empty m" by (simp add: bt_is_empty_def)
qed (simp add: bt_is_empty_def bt_get_items)

lemma bt_is_empty_empty [simp]: "bt_is_empty bt_empty"
  by (simp add: bt_is_empty_def)

section \<open>Equality is computable\<close>

instantiation btmap :: (linorder, equal) equal
begin

definition equal_btmap :: "('a, 'b) btmap \<Rightarrow> ('a, 'b) btmap \<Rightarrow> bool" where
  "equal_btmap m m' = (bt_items m = bt_items m')"

instance
  by standard (simp add: equal_btmap_def bt_items_inject)

end

end
