(* ===== verification/Content_Hash.thy ===== *)
theory Content_Hash
  imports BTree_Map
begin

text \<open>
  \<open>crates/choir-hash\<close>: the self-describing content address. \<open>ContentHash\<close> is a codec byte and a
  digest; the BLAKE3 function is the crate \<open>blake3\<close> and so a parameter \<open>b3\<close> from bytes to
  digest bytes. \<open>to_hex\<close>, \<open>from_hex\<close>, \<open>from_git_oid\<close> and \<open>git_oid\<close> are the four textual forms.
  \<open>u8::from_str_radix\<close> is modelled as the standard library documents it: a leading plus sign is
  accepted, upper and lower case digits are.
\<close>

section \<open>The envelope\<close>

record content_hash =
  codec :: u8
  digest :: bytes

definition blake3 :: "(bytes \<Rightarrow> bytes) \<Rightarrow> bytes \<Rightarrow> content_hash" where
  "blake3 b3 data = \<lparr>codec = 0x1e, digest = b3 data\<rparr>"

section \<open>Two hexadecimal digits per byte\<close>

definition hex_digit :: "nat \<Rightarrow> char" where
  "hex_digit n = ''0123456789abcdef'' ! n"

text \<open>\<open>format!("{b:02x}")\<close>\<close>

definition hex_byte :: "u8 \<Rightarrow> string" where
  "hex_byte b = [hex_digit (unat b div 16), hex_digit (unat b mod 16)]"

definition hex_val :: "char \<Rightarrow> nat option" where
  "hex_val c =
     (let n = (of_char c :: nat) in
      if 48 \<le> n \<and> n \<le> 57 then Some (n - 48)
      else if 97 \<le> n \<and> n \<le> 102 then Some (n - 87)
      else if 65 \<le> n \<and> n \<le> 70 then Some (n - 55)
      else None)"

fun parse_u8 :: "nat \<Rightarrow> string \<Rightarrow> u8 option" where
  "parse_u8 acc [] = Some (word_of_nat acc)"
| "parse_u8 acc (c # cs) =
     (case hex_val c of
        None \<Rightarrow> None
      | Some d \<Rightarrow> if acc * 16 + d < 256 then parse_u8 (acc * 16 + d) cs else None)"

text \<open>\<open>u8::from_str_radix(s, 16).ok()\<close>\<close>

definition from_str_radix16 :: "string \<Rightarrow> u8 option" where
  "from_str_radix16 s =
     (case s of
        [] \<Rightarrow> None
      | c # rest \<Rightarrow> if c = CHR ''+'' \<and> rest \<noteq> [] then parse_u8 0 rest else parse_u8 0 s)"

text \<open>
  \<open>(0..len).step_by(2).map(|i| u8::from_str_radix(s.get(i..i + 2)?, 16).ok()).collect()\<close>: at an
  odd end \<open>get\<close> is \<open>None\<close>.
\<close>

fun parse_pairs :: "string \<Rightarrow> bytes option" where
  "parse_pairs [] = Some []"
| "parse_pairs [c] = None"
| "parse_pairs (a # b # rest) =
     (case from_str_radix16 [a, b] of
        None \<Rightarrow> None
      | Some x \<Rightarrow> map_option ((#) x) (parse_pairs rest))"

section \<open>The textual forms\<close>

definition from_git_oid :: "string \<Rightarrow> content_hash option" where
  "from_git_oid s =
     (if length s = 40 then map_option (\<lambda>d. \<lparr>codec = 0x11, digest = d\<rparr>) (parse_pairs s)
      else if length s = 64 then map_option (\<lambda>d. \<lparr>codec = 0x12, digest = d\<rparr>) (parse_pairs s)
      else None)"

definition git_oid :: "content_hash \<Rightarrow> string option" where
  "git_oid h =
     (if codec h \<noteq> 0x11 \<and> codec h \<noteq> 0x12 then None
      else Some (concat (map hex_byte (digest h))))"

definition from_hex :: "string \<Rightarrow> content_hash option" where
  "from_hex text =
     (case split_once (CHR ''-'') text of
        None \<Rightarrow> None
      | Some (c, d) \<Rightarrow>
          if length c \<noteq> 2 \<or> d = [] \<or> length d mod 2 \<noteq> 0 then None
          else (case parse_pairs d of
                  None \<Rightarrow> None
                | Some ds \<Rightarrow> map_option (\<lambda>cb. \<lparr>codec = cb, digest = ds\<rparr>) (from_str_radix16 c)))"

definition to_hex :: "content_hash \<Rightarrow> string" where
  "to_hex h = hex_byte (codec h) @ CHR ''-'' # concat (map hex_byte (digest h))"

section \<open>Digits and pairs round-trip\<close>

lemma hex_digit_char:
  assumes "n < 16"
  shows "hex_val (hex_digit n) = Some n \<and> hex_digit n \<notin> {CHR ''+'', CHR ''-'', CHR '':''}"
proof -
  have "\<forall>n \<in> set [0..<16]. hex_val (hex_digit n) = Some n \<and>
      hex_digit n \<notin> {CHR ''+'', CHR ''-'', CHR '':''}"
    by (simp add: hex_digit_def hex_val_def upt_rec)
  with assms show ?thesis by simp
qed

lemma hex_val_digit [simp]: "n < 16 \<Longrightarrow> hex_val (hex_digit n) = Some n"
  using hex_digit_char by blast

lemma hex_digit_neq [simp]:
  "n < 16 \<Longrightarrow> hex_digit n \<noteq> CHR ''+''"
  "n < 16 \<Longrightarrow> hex_digit n \<noteq> CHR ''-''"
  "n < 16 \<Longrightarrow> hex_digit n \<noteq> CHR '':''"
  using hex_digit_char by blast+

lemma unat_u8_lt: "unat (b :: u8) < 256"
  using unsigned_less [of b] by simp

lemma hex_byte_digits [simp]: "unat (b :: u8) div 16 < 16" "unat (b :: u8) mod 16 < 16"
  using unat_u8_lt [of b] by auto

lemma from_str_radix16_hex_byte [simp]: "from_str_radix16 (hex_byte b) = Some b"
  using unat_u8_lt [of b] by (simp add: from_str_radix16_def hex_byte_def)

lemma parse_pairs_hex [simp]: "parse_pairs (concat (map hex_byte ds)) = Some ds"
proof (induction ds)
  case (Cons d ds)
  then show ?case
    using from_str_radix16_hex_byte [of d] by (simp add: hex_byte_def)
qed simp

lemma length_hex_bytes [simp]: "length (concat (map hex_byte ds)) = 2 * length ds"
  by (induction ds) (auto simp: hex_byte_def)

lemma hex_byte_inj [simp]: "hex_byte a = hex_byte b \<longleftrightarrow> a = b"
  by (metis from_str_radix16_hex_byte option.inject)

lemma hex_bytes_inj [simp]:
  "concat (map hex_byte as) = concat (map hex_byte bs) \<longleftrightarrow> as = bs"
  by (metis parse_pairs_hex option.inject)

lemma hex_byte_nonempty [simp]: "hex_byte b \<noteq> []"
  by (simp add: hex_byte_def)

lemma hex_byte_chars: "CHR ''-'' \<notin> set (hex_byte b)" "CHR '':'' \<notin> set (hex_byte b)"
  using hex_digit_neq [of "unat b div 16"] hex_digit_neq [of "unat b mod 16"]
  by (auto simp: hex_byte_def simp del: hex_digit_neq)

lemma hex_bytes_chars:
  "CHR ''-'' \<notin> set (concat (map hex_byte ds))" "CHR '':'' \<notin> set (concat (map hex_byte ds))"
  using hex_byte_chars by auto

lemma to_hex_no_colon: "CHR '':'' \<notin> set (to_hex h)"
  using hex_byte_chars hex_bytes_chars by (auto simp: to_hex_def)

lemma to_hex_inj [simp]: "to_hex g = to_hex h \<longleftrightarrow> g = h"
proof
  assume "to_hex g = to_hex h"
  then have "hex_byte (codec g) = hex_byte (codec h)"
    "concat (map hex_byte (digest g)) = concat (map hex_byte (digest h))"
    by (auto simp: to_hex_def hex_byte_def)
  then show "g = h" by (cases g; cases h) simp
qed simp

lemma from_hex_to_hex: "digest h \<noteq> [] \<Longrightarrow> from_hex (to_hex h) = Some h"
  using split_once_append [OF hex_byte_chars(1)]
  by (simp add: from_hex_def to_hex_def hex_byte_def [of "codec h"]) (simp flip: hex_byte_def)

lemma from_hex_to_hex_empty: "digest h = [] \<Longrightarrow> from_hex (to_hex h) = None"
  using split_once_append [OF hex_byte_chars(1)] by (simp add: from_hex_def to_hex_def)

section \<open>Properties\<close>

text \<open>
  The textual form of a hash is faithful. \<open>from_hex\<close> reads back what \<open>to_hex\<close> printed, unless the
  digest is empty, and two hashes print the same text only when they are equal.
\<close>

theorem hash_hex_round_trip:
  "from_hex (to_hex h) = (if digest h = [] then None else Some h) \<and> (to_hex g = to_hex h \<longleftrightarrow> g = h)"
  using from_hex_to_hex from_hex_to_hex_empty by simp

text \<open>
  \<open>from_hex\<close> also reads texts \<open>to_hex\<close> never prints: \<open>u8::from_str_radix\<close> takes a sign and upper
  case, so three texts name one hash.
\<close>

theorem from_hex_accepts_other_text:
  "from_hex ''+e-+f'' = Some \<lparr>codec = 0x0e, digest = [0x0f]\<rparr> \<and>
   from_hex ''0E-0F'' = Some \<lparr>codec = 0x0e, digest = [0x0f]\<rparr> \<and>
   to_hex \<lparr>codec = 0x0e, digest = [0x0f]\<rparr> = ''0e-0f''"
  by (simp add: from_hex_def from_str_radix16_def hex_val_def to_hex_def hex_byte_def hex_digit_def)

end
