(* ===== verification/Op_Log.thy ===== *)
theory Op_Log
  imports Content_Hash
begin

text \<open>
  \<open>crates/choir-oplog/src/lib.rs\<close>: the wire format of an entry, the log-backend seam \<open>OpLog\<close> as a
  locale, and its first implementation \<open>MemLog\<close>. \<open>serde_json\<close> and \<open>blake3\<close> are libraries: their
  functions are the fields of a record of externals, and what is used of them is named where it is
  used. \<open>File_Log\<close> is the second implementation of the same locale.
\<close>

section \<open>The wire format\<close>

definition format_version_1 :: nat where
  "format_version_1 = 1"

definition scheme_ed25519 :: nat where
  "scheme_ed25519 = 1"

definition scheme_webauthn_es256 :: nat where
  "scheme_webauthn_es256 = 2"

record witness =
  w_key_id :: string
  w_signature :: bytes
  w_scheme :: "nat option"
  w_authenticator_data :: "bytes option"
  w_client_data_json :: "bytes option"
  w_credential_key :: "bytes option"

definition witness_ed25519 :: "string \<Rightarrow> bytes \<Rightarrow> witness" where
  "witness_ed25519 key_id sig =
     \<lparr>w_key_id = key_id, w_signature = sig, w_scheme = None, w_authenticator_data = None,
      w_client_data_json = None, w_credential_key = None\<rparr>"

definition witness_webauthn_es256 :: "string \<Rightarrow> bytes \<Rightarrow> bytes \<Rightarrow> bytes \<Rightarrow> witness" where
  "witness_webauthn_es256 key_id sig auth_data client_data =
     \<lparr>w_key_id = key_id, w_signature = sig, w_scheme = Some scheme_webauthn_es256,
      w_authenticator_data = Some auth_data, w_client_data_json = Some client_data,
      w_credential_key = None\<rparr>"

definition with_credential_key :: "witness \<Rightarrow> bytes \<Rightarrow> witness" where
  "with_credential_key w spki = w\<lparr>w_credential_key := Some spki\<rparr>"

definition scheme_id :: "witness \<Rightarrow> nat" where
  "scheme_id w = (case w_scheme w of None \<Rightarrow> scheme_ed25519 | Some s \<Rightarrow> s)"

record op_entry =
  e_format_version :: nat
  e_parent :: "content_hash option"
  e_seq :: nat
  e_channel :: string
  e_payload :: bytes
  e_witnesses :: "witness list"
  e_author_sig :: "witness option"

text \<open>What the crates call in \<open>serde_json\<close> and \<open>blake3\<close>.\<close>

record externals =
  x_blake3 :: "bytes \<Rightarrow> bytes"
  x_entry_json :: "op_entry \<Rightarrow> bytes"
  x_entry_parse :: "bytes \<Rightarrow> string + op_entry"
  x_signed_json :: "string \<times> bytes \<Rightarrow> bytes"

definition entry_hash :: "('a) externals_scheme \<Rightarrow> op_entry \<Rightarrow> content_hash" where
  "entry_hash X e = blake3 (x_blake3 X) (x_entry_json X e)"

definition signing_hash :: "('a) externals_scheme \<Rightarrow> string \<Rightarrow> bytes \<Rightarrow> content_hash" where
  "signing_hash X ch pl = blake3 (x_blake3 X) (x_signed_json X (ch, pl))"

definition entry_signing_hash :: "('a) externals_scheme \<Rightarrow> op_entry \<Rightarrow> content_hash" where
  "entry_signing_hash X e = signing_hash X (e_channel e) (e_payload e)"

datatype log_error = HeadMismatch | Io string | Corrupt string

section \<open>Hash chains\<close>

text \<open>
  The contents of a log: entry \<open>i\<close> carries sequence number \<open>i\<close> and names the hash of the entry
  before it. \<open>chain_head\<close> is the hash of the newest entry.
\<close>

fun chain_head :: "(op_entry \<Rightarrow> content_hash) \<Rightarrow> op_entry list \<Rightarrow> content_hash option" where
  "chain_head H [] = None"
| "chain_head H es = Some (H (last es))"

fun chain_from :: "(op_entry \<Rightarrow> content_hash) \<Rightarrow> content_hash option \<Rightarrow> op_entry list \<Rightarrow> bool" where
  "chain_from H h [] = True"
| "chain_from H h (e # es) = (e_parent e = h \<and> chain_from H (Some (H e)) es)"

abbreviation chained :: "(op_entry \<Rightarrow> content_hash) \<Rightarrow> op_entry list \<Rightarrow> bool" where
  "chained H es \<equiv> chain_from H None es"

lemma chain_head_append [simp]: "chain_head H (es @ [e]) = Some (H e)"
  by (cases es) auto

lemma chain_from_append:
  "chain_from H h (es @ fs) \<longleftrightarrow>
     chain_from H h es \<and> chain_from H (if es = [] then h else Some (H (last es))) fs"
  by (induction es arbitrary: h) auto

lemma chained_snoc: "chained H (es @ [e]) \<longleftrightarrow> chained H es \<and> e_parent e = chain_head H es"
  by (cases es) (auto simp: chain_from_append)

section \<open>The log-backend seam\<close>

text \<open>
  \<open>OpLog\<close> (D16): an implementation \<open>'l\<close> with its reads and its append. An append can fail for a
  reason of the storage; \<open>app\<close> returns the result and the log it leaves. \<open>es\<close> reads a log as the
  list of its entries and \<open>ok\<close> is the implementation's own invariant. The laws are the trait's
  contract: an append whose parent is not the head is refused and changes nothing, a successful one
  adds the entry at the end and returns its hash, and the reads are functions of the entries.
\<close>

locale op_log =
  fixes H :: "op_entry \<Rightarrow> content_hash"
    and app :: "'l \<Rightarrow> op_entry \<Rightarrow> (log_error + content_hash) \<times> 'l"
    and hd_of :: "'l \<Rightarrow> content_hash option"
    and len :: "'l \<Rightarrow> nat"
    and nth_of :: "'l \<Rightarrow> nat \<Rightarrow> op_entry option"
    and es :: "'l \<Rightarrow> op_entry list"
    and ok :: "'l \<Rightarrow> bool"
  assumes app_mismatch: "ok l \<Longrightarrow> e_parent e \<noteq> hd_of l \<Longrightarrow> app l e = (Inl HeadMismatch, l)"
    and app_Inr: "ok l \<Longrightarrow> app l e = (Inr h, l') \<Longrightarrow> h = H e \<and> es l' = es l @ [e] \<and> ok l'"
    and hd_es: "ok l \<Longrightarrow> hd_of l = chain_head H (es l)"
    and len_es: "ok l \<Longrightarrow> len l = length (es l)"
    and nth_es: "ok l \<Longrightarrow> nth_of l i = (if i < length (es l) then Some (es l ! i) else None)"
begin

lemma app_Inr_parent:
  assumes "ok l" "app l e = (Inr h, l')"
  shows "e_parent e = hd_of l"
  using app_mismatch [OF assms(1), of e] assms(2) by (cases "e_parent e = hd_of l") auto

lemma app_head: "ok l \<Longrightarrow> app l e = (Inr h, l') \<Longrightarrow> hd_of l' = Some h"
  using app_Inr [of l e h l'] hd_es [of l'] by simp

lemma app_len: "ok l \<Longrightarrow> app l e = (Inr h, l') \<Longrightarrow> len l' = Suc (len l)"
  using app_Inr [of l e h l'] len_es by simp

lemma app_get_new: "ok l \<Longrightarrow> app l e = (Inr h, l') \<Longrightarrow> nth_of l' (len l) = Some e"
  using app_Inr [of l e h l'] len_es nth_es by simp

lemma app_get_old:
  "ok l \<Longrightarrow> app l e = (Inr h, l') \<Longrightarrow> i < len l \<Longrightarrow> nth_of l' i = nth_of l i"
  using app_Inr [of l e h l'] len_es nth_es by (simp add: nth_append)

lemma app_chained:
  assumes "ok l" "chained H (es l)" "app l e = (Inr h, l')"
  shows "chained H (es l')"
  using app_Inr [OF assms(1,3)] app_Inr_parent [OF assms(1,3)] hd_es [OF assms(1)] assms(2)
  by (simp add: chained_snoc)

lemma es_from_reads: "ok l \<Longrightarrow> map (the \<circ> nth_of l) [0..<len l] = es l"
  using len_es nth_es by (auto intro: nth_equalityI)

end

section \<open>The in-memory log\<close>

record mem_log =
  m_entries :: "op_entry list"
  m_head :: "content_hash option"

definition mem_new :: mem_log where
  "mem_new = \<lparr>m_entries = [], m_head = None\<rparr>"

definition mem_append ::
  "('a) externals_scheme \<Rightarrow> mem_log \<Rightarrow> op_entry \<Rightarrow> (log_error + content_hash) \<times> mem_log" where
  "mem_append X l e =
     (if e_parent e \<noteq> m_head l then (Inl HeadMismatch, l)
      else (let h = entry_hash X e in
            (Inr h, l\<lparr>m_entries := m_entries l @ [e], m_head := Some h\<rparr>)))"

definition mem_len :: "mem_log \<Rightarrow> nat" where
  "mem_len l = length (m_entries l)"

definition mem_get :: "mem_log \<Rightarrow> nat \<Rightarrow> op_entry option" where
  "mem_get l i = (if i < length (m_entries l) then Some (m_entries l ! i) else None)"

definition mem_last :: "mem_log \<Rightarrow> op_entry option" where
  "mem_last l = (if m_entries l = [] then None else Some (last (m_entries l)))"

definition mem_ok :: "('a) externals_scheme \<Rightarrow> mem_log \<Rightarrow> bool" where
  "mem_ok X l \<longleftrightarrow> m_head l = chain_head (entry_hash X) (m_entries l)"

lemma mem_ok_new: "mem_ok X mem_new"
  by (simp add: mem_ok_def mem_new_def)

interpretation mem: op_log "entry_hash X" "mem_append X" m_head mem_len mem_get m_entries "mem_ok X"
  by unfold_locales
     (auto simp: mem_append_def mem_ok_def mem_len_def mem_get_def Let_def split: if_splits)

text \<open>The newest entry is the one the head is the hash of.\<close>

lemma mem_last_head: "mem_ok X l \<Longrightarrow> map_option (entry_hash X) (mem_last l) = m_head l"
  by (cases "m_entries l") (auto simp: mem_ok_def mem_last_def)

end
