(* ===== verification/Chunk_Store.thy ===== *)
theory Chunk_Store
  imports Content_Hash
begin

text \<open>
  \<open>crates/choir-store\<close>: the chunk-store seam \<open>ChunkStore\<close> (D7) as a locale with its two
  implementations \<open>MemStore\<close> and \<open>FsStore\<close>, and the blob functions over it. FastCDC and
  \<open>serde_json\<close> are libraries and so parameters; the file system of \<open>FsStore\<close> is a map from
  (shard directory, file name) to bytes, with an injected fault that stops one of the three system
  calls of \<open>put\<close>. A Rust panic is \<open>None\<close>: the slice \<open>&hex[3..5]\<close> of a digest of no bytes, and
  \<open>Vec::with_capacity\<close> above \<open>isize::MAX\<close>.
\<close>

section \<open>Types\<close>

record chunker_params =
  cp_min :: nat
  cp_avg :: nat
  cp_max :: nat

definition default_chunker_params :: chunker_params where
  "default_chunker_params = \<lparr>cp_min = 4 * 1024, cp_avg = 16 * 1024, cp_max = 64 * 1024\<rparr>"

definition manifest_format_version :: nat where
  "manifest_format_version = 1"

record manifest =
  mf_format_version :: nat
  mf_params :: chunker_params
  mf_len :: nat
  mf_chunks :: "content_hash list"

datatype store_error =
    NotFound content_hash
  | HashMismatch content_hash
  | BadManifest string
  | StoreIo string

section \<open>The chunk-store seam\<close>

text \<open>
  \<open>put\<close> and \<open>get\<close> as the trait has them, with the store \<open>put\<close> leaves; \<open>None\<close> is a panic.
  \<open>held s h d\<close>: the store holds the bytes \<open>d\<close> for the address \<open>h\<close>. The laws are the trait's
  documentation: \<open>get\<close> returns bytes that hash to the address or an error, \<open>put\<close> never changes
  what the store already holds, and after \<open>put\<close> the address is held. \<open>readable s\<close>: no fault of the
  storage stops a read.
\<close>

locale chunk_store =
  fixes b3 :: "bytes \<Rightarrow> bytes"
    and put :: "'s \<Rightarrow> bytes \<Rightarrow> ((store_error + content_hash) \<times> 's) option"
    and get :: "'s \<Rightarrow> content_hash \<Rightarrow> (store_error + bytes) option"
    and held :: "'s \<Rightarrow> content_hash \<Rightarrow> bytes \<Rightarrow> bool"
    and readable :: "'s \<Rightarrow> bool"
  assumes get_sound: "get s h = Some (Inr d) \<Longrightarrow> blake3 b3 d = h"
    and get_held: "readable s \<Longrightarrow> held s h d \<Longrightarrow> blake3 b3 d = h \<Longrightarrow> get s h = Some (Inr d)"
    and put_hash: "put s d = Some (Inr h, s') \<Longrightarrow> h = blake3 b3 d"
    and put_holds: "put s d = Some (Inr h, s') \<Longrightarrow> held s' h d \<or> (\<exists>d'. held s h d')"
    and put_keeps: "put s d = Some (r, s') \<Longrightarrow> held s h' d' \<Longrightarrow> held s' h' d'"
    and held_fun: "held s h d \<Longrightarrow> held s h d' \<Longrightarrow> d = d'"
begin

text \<open>\<open>fresh s d\<close>: no bytes other than \<open>d\<close> are held under the address of \<open>d\<close>.\<close>

definition fresh :: "'s \<Rightarrow> bytes \<Rightarrow> bool" where
  "fresh s d \<longleftrightarrow> (\<forall>d'. held s (blake3 b3 d) d' \<longrightarrow> d' = d)"

lemma put_get:
  assumes "put s d = Some (Inr h, s')" "fresh s d" "readable s'"
  shows "get s' h = Some (Inr d)"
proof -
  have h: "h = blake3 b3 d" using put_hash [OF assms(1)] .
  have "held s' h d"
    using put_holds [OF assms(1)] put_keeps [OF assms(1)] assms(2) h
    unfolding fresh_def by blast
  then show ?thesis using get_held [OF assms(3)] h by simp
qed

lemma put_get_old:
  "put s d = Some (r, s') \<Longrightarrow> readable s' \<Longrightarrow> held s h d' \<Longrightarrow> blake3 b3 d' = h \<Longrightarrow>
     get s' h = Some (Inr d')"
  using put_keeps get_held by blast

end

section \<open>The in-memory store\<close>

type_synonym mem_store = "content_hash \<Rightarrow> bytes option"

definition mem_store_new :: mem_store where
  "mem_store_new = Map.empty"

definition mem_put ::
  "(bytes \<Rightarrow> bytes) \<Rightarrow> mem_store \<Rightarrow> bytes \<Rightarrow> ((store_error + content_hash) \<times> mem_store) option" where
  "mem_put b3 s d =
     (let h = blake3 b3 d in
      Some (Inr h, (case s h of None \<Rightarrow> s(h \<mapsto> d) | Some _ \<Rightarrow> s)))"

definition mem_store_get ::
  "(bytes \<Rightarrow> bytes) \<Rightarrow> mem_store \<Rightarrow> content_hash \<Rightarrow> (store_error + bytes) option" where
  "mem_store_get b3 s h =
     Some (case s h of
             None \<Rightarrow> Inl (NotFound h)
           | Some d \<Rightarrow> if blake3 b3 d \<noteq> h then Inl (HashMismatch h) else Inr d)"

definition mem_has :: "mem_store \<Rightarrow> content_hash \<Rightarrow> bool" where
  "mem_has s h = (s h \<noteq> None)"

interpretation mem_cs: chunk_store b3 "mem_put b3" "mem_store_get b3" "\<lambda>s h d. s h = Some d" "\<lambda>_. True"
  by unfold_locales
     (auto simp: mem_put_def mem_store_get_def Let_def split: option.splits if_splits)

section \<open>The file-system store\<close>

datatype fs_fault = FailMkdir string | FailWrite nat string | FailRename string | FailRead string

type_synonym fs_path = "string \<times> string"

record fs_store =
  fs_files :: "fs_path \<Rightarrow> bytes option"
  fs_fault :: "fs_fault option"

text \<open>\<open>root.join(&hex[3..5]).join(&hex)\<close>: a slice out of range panics.\<close>

definition path_for :: "content_hash \<Rightarrow> fs_path option" where
  "path_for h =
     (let hex = to_hex h in
      if length hex < 5 then None else Some (take 2 (drop 3 hex), hex))"

definition tmp_path :: "fs_path \<Rightarrow> fs_path" where
  "tmp_path p = (fst p, snd p @ ''.tmp'')"

definition fs_put ::
  "(bytes \<Rightarrow> bytes) \<Rightarrow> fs_store \<Rightarrow> bytes \<Rightarrow> ((store_error + content_hash) \<times> fs_store) option" where
  "fs_put b3 s d =
     (let h = blake3 b3 d in
      case path_for h of
        None \<Rightarrow> None
      | Some p \<Rightarrow>
          if fs_files s p \<noteq> None then Some (Inr h, s)
          else (case fs_fault s of
                  Some (FailMkdir e) \<Rightarrow> Some (Inl (StoreIo e), s)
                | Some (FailWrite k e) \<Rightarrow>
                    Some (Inl (StoreIo e),
                          s\<lparr>fs_files := (fs_files s)(tmp_path p \<mapsto> take k d)\<rparr>)
                | Some (FailRename e) \<Rightarrow>
                    Some (Inl (StoreIo e), s\<lparr>fs_files := (fs_files s)(tmp_path p \<mapsto> d)\<rparr>)
                | _ \<Rightarrow>
                    Some (Inr h,
                          s\<lparr>fs_files := (fs_files s)(tmp_path p := None, p \<mapsto> d)\<rparr>)))"

definition fs_get ::
  "(bytes \<Rightarrow> bytes) \<Rightarrow> fs_store \<Rightarrow> content_hash \<Rightarrow> (store_error + bytes) option" where
  "fs_get b3 s h =
     (case path_for h of
        None \<Rightarrow> None
      | Some p \<Rightarrow>
          Some (case fs_fault s of
                  Some (FailRead e) \<Rightarrow> Inl (StoreIo e)
                | _ \<Rightarrow> (case fs_files s p of
                          None \<Rightarrow> Inl (NotFound h)
                        | Some d \<Rightarrow> if blake3 b3 d \<noteq> h then Inl (HashMismatch h) else Inr d)))"

definition fs_has :: "fs_store \<Rightarrow> content_hash \<Rightarrow> bool option" where
  "fs_has s h = map_option (\<lambda>p. fs_files s p \<noteq> None) (path_for h)"

lemma hex_byte_no_t: "CHR ''t'' \<notin> set (hex_byte b)"
proof -
  have "hex_val (CHR ''t'') = None" by (simp add: hex_val_def)
  moreover have "\<forall>c \<in> set (hex_byte b). hex_val c \<noteq> None"
    by (simp add: hex_byte_def)
  ultimately show ?thesis by metis
qed

lemma to_hex_no_t: "CHR ''t'' \<notin> set (to_hex h)"
  using hex_byte_no_t by (auto simp: to_hex_def)

lemma path_for_inj: "path_for g = Some p \<Longrightarrow> path_for h = Some p \<Longrightarrow> g = h"
  by (auto simp: path_for_def Let_def split: if_splits)

lemma path_for_not_tmp: "path_for h = Some p \<Longrightarrow> p \<noteq> tmp_path q"
  using to_hex_no_t [of h]
  by (auto simp: path_for_def tmp_path_def Let_def split: if_splits)

definition fs_held :: "fs_store \<Rightarrow> content_hash \<Rightarrow> bytes \<Rightarrow> bool" where
  "fs_held s h d = (case path_for h of None \<Rightarrow> False | Some p \<Rightarrow> fs_files s p = Some d)"

definition fs_readable :: "fs_store \<Rightarrow> bool" where
  "fs_readable s = (case fs_fault s of Some (FailRead e) \<Rightarrow> False | _ \<Rightarrow> True)"

lemma fs_put_cases:
  assumes "fs_put b3 s d = Some (r, s')"
  obtains (present) p where "path_for (blake3 b3 d) = Some p" "fs_files s p \<noteq> None"
      "s' = s" "r = Inr (blake3 b3 d)"
  | (failed) p e m where "path_for (blake3 b3 d) = Some p" "fs_files s p = None"
      "r = Inl (StoreIo e)" "s' = s \<or> s' = s\<lparr>fs_files := (fs_files s)(tmp_path p \<mapsto> m)\<rparr>"
  | (stored) p where "path_for (blake3 b3 d) = Some p" "fs_files s p = None"
      "r = Inr (blake3 b3 d)" "s' = s\<lparr>fs_files := (fs_files s)(tmp_path p := None, p \<mapsto> d)\<rparr>"
proof (cases "path_for (blake3 b3 d)")
  case (Some p)
  note p = this
  show ?thesis
  proof (cases "fs_files s p")
    case (Some x)
    then show ?thesis using p assms by (intro present [of p]) (auto simp: fs_put_def Let_def)
  next
    case None
    note absent = this
    show ?thesis
    proof (cases "r = Inr (blake3 b3 d)")
      case True
      then show ?thesis using p None assms
        by (intro stored [of p]) (auto simp: fs_put_def Let_def split: option.splits fs_fault.splits)
    next
      case False
      then obtain e m where "r = Inl (StoreIo e)"
        "s' = s \<or> s' = s\<lparr>fs_files := (fs_files s)(tmp_path p \<mapsto> m)\<rparr>"
        using p None assms
        by (auto simp: fs_put_def Let_def split: option.splits fs_fault.splits)
      then show ?thesis using failed [OF p absent] by blast
    qed
  qed
qed (use assms in \<open>simp add: fs_put_def Let_def\<close>)

lemma fs_put_keeps_file:
  assumes "fs_put b3 s d = Some (r, s')" "path_for h = Some q" "fs_files s q = Some d'"
  shows "fs_files s' q = Some d'"
  using assms(1)
proof (cases rule: fs_put_cases)
  case (failed p e m)
  then show ?thesis using assms(3) path_for_not_tmp [OF assms(2), of p] by auto
next
  case (stored p)
  then show ?thesis using assms(3) path_for_not_tmp [OF assms(2), of p] by auto
qed (use assms in simp)

interpretation fs_cs: chunk_store b3 "fs_put b3" "fs_get b3" fs_held fs_readable
proof unfold_locales
  show "blake3 b3 d = h" if "fs_get b3 s h = Some (Inr d)" for s h d
    using that by (auto simp: fs_get_def split: option.splits if_splits fs_fault.splits)
  show "fs_get b3 s h = Some (Inr d)"
    if "fs_readable s" "fs_held s h d" "blake3 b3 d = h" for s h d
    using that
    by (auto simp: fs_get_def fs_held_def fs_readable_def split: option.splits fs_fault.splits)
  show "h = blake3 b3 d" if "fs_put b3 s d = Some (Inr h, s')" for s d h s'
    using that by (rule fs_put_cases) auto
  show "fs_held s' h d \<or> (\<exists>d'. fs_held s h d')" if "fs_put b3 s d = Some (Inr h, s')" for s d h s'
    using that by (rule fs_put_cases) (auto simp: fs_held_def)
  show "fs_held s' h' d'" if "fs_put b3 s d = Some (r, s')" "fs_held s h' d'" for s d r s' h' d'
    using that fs_put_keeps_file [OF that(1)] by (auto simp: fs_held_def split: option.splits)
  show "d = d'" if "fs_held s h d" "fs_held s h d'" for s h d d'
    using that by (auto simp: fs_held_def split: option.splits)
qed

section \<open>Blobs\<close>

text \<open>
  \<open>put_blob\<close> and \<open>get_blob\<close> over any store: \<open>put\<close> and \<open>get\<close> are the store's operations,
  \<open>cdc\<close> is FastCDC (the offsets and lengths of the chunks of the data under the parameters),
  \<open>mjson\<close> and \<open>mparse\<close> are \<open>serde_json\<close> on a manifest.
\<close>

fun put_chunks ::
  "('s \<Rightarrow> bytes \<Rightarrow> ((store_error + content_hash) \<times> 's) option) \<Rightarrow> 's \<Rightarrow> bytes \<Rightarrow>
   (nat \<times> nat) list \<Rightarrow> ((store_error + content_hash list) \<times> 's) option" where
  "put_chunks put s data [] = Some (Inr [], s)"
| "put_chunks put s data ((off, len) # cs) =
     (if length data < off + len then None
      else (case put s (take len (drop off data)) of
              None \<Rightarrow> None
            | Some (Inl e, s1) \<Rightarrow> Some (Inl e, s1)
            | Some (Inr h, s1) \<Rightarrow>
                (case put_chunks put s1 data cs of
                   None \<Rightarrow> None
                 | Some (Inl e, s2) \<Rightarrow> Some (Inl e, s2)
                 | Some (Inr hs, s2) \<Rightarrow> Some (Inr (h # hs), s2))))"

definition put_blob ::
  "('s \<Rightarrow> bytes \<Rightarrow> ((store_error + content_hash) \<times> 's) option) \<Rightarrow>
   (chunker_params \<Rightarrow> bytes \<Rightarrow> (nat \<times> nat) list) \<Rightarrow> (manifest \<Rightarrow> bytes) \<Rightarrow>
   's \<Rightarrow> bytes \<Rightarrow> chunker_params \<Rightarrow> ((store_error + content_hash) \<times> 's) option" where
  "put_blob put cdc mjson s data params =
     (case put_chunks put s data (cdc params data) of
        None \<Rightarrow> None
      | Some (Inl e, s1) \<Rightarrow> Some (Inl e, s1)
      | Some (Inr hs, s1) \<Rightarrow>
          put s1 (mjson \<lparr>mf_format_version = manifest_format_version, mf_params = params,
                         mf_len = length data, mf_chunks = hs\<rparr>))"

fun get_chunks ::
  "('s \<Rightarrow> content_hash \<Rightarrow> (store_error + bytes) option) \<Rightarrow> 's \<Rightarrow> content_hash list \<Rightarrow>
   (store_error + bytes) option" where
  "get_chunks get s [] = Some (Inr [])"
| "get_chunks get s (h # hs) =
     (case get s h of
        None \<Rightarrow> None
      | Some (Inl e) \<Rightarrow> Some (Inl e)
      | Some (Inr d) \<Rightarrow>
          (case get_chunks get s hs of
             None \<Rightarrow> None
           | Some (Inl e) \<Rightarrow> Some (Inl e)
           | Some (Inr ds) \<Rightarrow> Some (Inr (d @ ds))))"

definition isize_max :: nat where
  "isize_max = 2 ^ 63 - 1"

definition get_blob ::
  "('s \<Rightarrow> content_hash \<Rightarrow> (store_error + bytes) option) \<Rightarrow> (bytes \<Rightarrow> string + manifest) \<Rightarrow>
   's \<Rightarrow> content_hash \<Rightarrow> (store_error + bytes) option" where
  "get_blob get mparse s mh =
     (case get s mh of
        None \<Rightarrow> None
      | Some (Inl e) \<Rightarrow> Some (Inl e)
      | Some (Inr raw) \<Rightarrow>
          (case mparse raw of
             Inl e \<Rightarrow> Some (Inl (BadManifest e))
           | Inr mf \<Rightarrow>
               if mf_format_version mf \<noteq> manifest_format_version
               then Some (Inl (BadManifest (''unsupported manifest format version '' @
                      show_nat (mf_format_version mf) @ '' (expected 1)'')))
               else if isize_max < mf_len mf then None
               else (case get_chunks get s (mf_chunks mf) of
                       None \<Rightarrow> None
                     | Some (Inl e) \<Rightarrow> Some (Inl e)
                     | Some (Inr data) \<Rightarrow>
                         if length data \<noteq> mf_len mf
                         then Some (Inl (BadManifest (''reassembled '' @ show_nat (length data) @
                                '' bytes, manifest says '' @ show_nat (mf_len mf))))
                         else Some (Inr data))))"

definition slices :: "bytes \<Rightarrow> (nat \<times> nat) list \<Rightarrow> bytes list" where
  "slices data cs = map (\<lambda>(off, len). take len (drop off data)) cs"

text \<open>The manifest of a blob, as a function of the data alone.\<close>

definition manifest_of ::
  "(bytes \<Rightarrow> bytes) \<Rightarrow> (chunker_params \<Rightarrow> bytes \<Rightarrow> (nat \<times> nat) list) \<Rightarrow> bytes \<Rightarrow>
   chunker_params \<Rightarrow> manifest" where
  "manifest_of b3 cdc data params =
     \<lparr>mf_format_version = manifest_format_version, mf_params = params, mf_len = length data,
      mf_chunks = map (blake3 b3) (slices data (cdc params data))\<rparr>"

context chunk_store
begin

lemma put_some_held: "put s d = Some (Inr h, s') \<Longrightarrow> \<exists>d'. held s' h d'"
  using put_holds put_keeps by blast

lemma put_chunks_keeps:
  "put_chunks put s data cs = Some (r, s') \<Longrightarrow> held s h d \<Longrightarrow> held s' h d"
proof (induction cs arbitrary: s r)
  case (Cons c cs)
  obtain off len where c: "c = (off, len)" by (cases c)
  from Cons.prems(1) obtain r1 s1 where step: "put s (take len (drop off data)) = Some (r1, s1)"
    and rest: "s' = s1 \<or> (\<exists>r'. put_chunks put s1 data cs = Some (r', s'))"
    by (auto simp: c split: if_splits option.splits sum.splits prod.splits)
  have "held s1 h d" using put_keeps [OF step Cons.prems(2)] .
  then show ?case using rest Cons.IH by blast
qed simp

lemma put_chunks_held:
  assumes "put_chunks put s data cs = Some (Inr hs, s')"
  shows "hs = map (blake3 b3) (slices data cs) \<and> (\<forall>h \<in> set hs. \<exists>d. held s' h d)"
  using assms
proof (induction cs arbitrary: s hs)
  case (Cons c cs)
  obtain off len where c: "c = (off, len)" by (cases c)
  from Cons.prems obtain h s1 hs' where step: "put s (take len (drop off data)) = Some (Inr h, s1)"
    "put_chunks put s1 data cs = Some (Inr hs', s')" "hs = h # hs'"
    by (auto simp: c split: if_splits option.splits sum.splits prod.splits)
  from put_some_held [OF step(1)] obtain d where "held s1 h d" ..
  then have "held s' h d" using put_chunks_keeps [OF step(2)] by blast
  then show ?case
    using Cons.IH [OF step(2)] put_hash [OF step(1)] step(3) by (auto simp: slices_def c)
qed (simp add: slices_def)

lemma get_chunks_held:
  assumes "readable s" "\<forall>d \<in> set ds. held s (blake3 b3 d) d"
  shows "get_chunks get s (map (blake3 b3) ds) = Some (Inr (concat ds))"
  using assms(2) by (induction ds) (auto simp: get_held [OF assms(1)])

text \<open>What \<open>put_blob\<close> stored, \<open>get_blob\<close> reads back, when no two of the byte strings held hash alike.\<close>

lemma blob_roundtrip:
  assumes put: "put_blob put cdc mjson s data params = Some (Inr mh, s')"
    and covers: "concat (slices data (cdc params data)) = data"
    and json: "mparse (mjson (manifest_of b3 cdc data params)) = Inr (manifest_of b3 cdc data params)"
    and fresh: "\<And>d. d \<in> set (slices data (cdc params data)) \<Longrightarrow> fresh s' d"
    and fresh_m: "fresh s' (mjson (manifest_of b3 cdc data params))"
    and readable: "readable s'" and len: "length data \<le> isize_max"
  shows "get_blob get mparse s' mh = Some (Inr data)"
proof -
  from put obtain hs s1 where chunks: "put_chunks put s data (cdc params data) = Some (Inr hs, s1)"
    and man: "put s1 (mjson \<lparr>mf_format_version = manifest_format_version, mf_params = params,
                mf_len = length data, mf_chunks = hs\<rparr>) = Some (Inr mh, s')"
    by (auto simp: put_blob_def split: option.splits sum.splits prod.splits)
  let ?ds = "slices data (cdc params data)"
  have hs: "hs = map (blake3 b3) ?ds" and some: "\<forall>h \<in> set hs. \<exists>d. held s' h d"
    using put_chunks_held [OF chunks] put_keeps [OF man] by blast+
  have "\<forall>d \<in> set ?ds. held s' (blake3 b3 d) d"
    using some fresh unfolding hs fresh_def by auto
  then have "get_chunks get s' hs = Some (Inr data)"
    using get_chunks_held [OF readable] covers hs by metis
  moreover have "get s' mh = Some (Inr (mjson (manifest_of b3 cdc data params)))"
    using put_some_held [OF man] put_hash [OF man] fresh_m get_held [OF readable]
    unfolding fresh_def hs manifest_of_def by metis
  ultimately show ?thesis using len json by (simp add: get_blob_def manifest_of_def hs)
qed

end

section \<open>Properties\<close>

text \<open>
  C30: a blob put into a \<open>FsStore\<close> is read back. When the chunks of the chunker cover the data, the
  manifest parses back and no file of the store holds other bytes under the address of a chunk or of
  the manifest, \<open>get_blob\<close> returns exactly the bytes \<open>put_blob\<close> was given, every chunk verified.
\<close>

theorem fs_blob_round_trip:
  assumes "put_blob (fs_put b3) cdc mjson s data params = Some (Inr mh, s')"
    and "concat (slices data (cdc params data)) = data"
    and "mparse (mjson (manifest_of b3 cdc data params)) = Inr (manifest_of b3 cdc data params)"
    and "\<And>d d'. d \<in> insert (mjson (manifest_of b3 cdc data params)) (set (slices data (cdc params data))) \<Longrightarrow>
           fs_held s' (blake3 b3 d) d' \<Longrightarrow> d' = d"
    and "fs_readable s'" "length data \<le> isize_max"
  shows "get_blob (fs_get b3) mparse s' mh = Some (Inr data)"
  using assms(1-3) _ _ assms(5,6)
  by (rule fs_cs.blob_roundtrip) (use assms(4) in \<open>auto simp: fs_cs.fresh_def\<close>)

lemma fs_blob_round_trip_witness:
  "\<exists>mh s'. put_blob (fs_put (\<lambda>b. b)) (\<lambda>_ d. [(0, length d)]) (\<lambda>_. [9])
       \<lparr>fs_files = \<lambda>_. None, fs_fault = None\<rparr> [1, 2] default_chunker_params = Some (Inr mh, s') \<and>
     get_blob (fs_get (\<lambda>b. b))
       (\<lambda>_. Inr (manifest_of (\<lambda>b. b) (\<lambda>_ d. [(0, length d)]) [1, 2] default_chunker_params)) s' mh =
       Some (Inr [1, 2])"
proof -
  let ?s = "\<lparr>fs_files = \<lambda>_. None, fs_fault = None\<rparr> :: fs_store"
  let ?cdc = "\<lambda>_ d :: bytes. [(0 :: nat, length d)]"
  have p: "path_for \<lparr>codec = 0x1e, digest = [1, 2]\<rparr> = Some (''01'', ''1e-0102'')"
    "path_for \<lparr>codec = 0x1e, digest = [9]\<rparr> = Some (''09'', ''1e-09'')"
    by (simp_all add: path_for_def to_hex_def hex_byte_def hex_digit_def)
  obtain mh s' where put: "put_blob (fs_put (\<lambda>b. b)) ?cdc (\<lambda>_. [9]) ?s [1, 2] default_chunker_params =
      Some (Inr mh, s')"
    and s': "fs_readable s'" "fs_files s' (''01'', ''1e-0102'') = Some [1, 2]"
      "fs_files s' (''09'', ''1e-09'') = Some [9]"
    by (simp add: put_blob_def fs_put_def blake3_def p tmp_path_def fs_readable_def)
  have "get_blob (fs_get (\<lambda>b. b))
      (\<lambda>_. Inr (manifest_of (\<lambda>b. b) ?cdc [1, 2] default_chunker_params)) s' mh = Some (Inr [1, 2])"
    by (rule fs_blob_round_trip [OF put])
       (use s' in \<open>auto simp: slices_def fs_held_def blake3_def p isize_max_def\<close>)
  then show ?thesis using put by blast
qed

text \<open>
  A hash with an empty digest stops the process. \<open>FsStore\<close> slices two characters out of the text
  of the address for its shard directory, and a digest of no bytes has none there: \<open>get\<close> and \<open>has\<close>
  panic where a store answers that it does not hold the address.
\<close>

theorem fs_get_panics_on_empty_digest:
  "fs_get b3 s \<lparr>codec = c, digest = []\<rparr> = None \<and> fs_has s \<lparr>codec = c, digest = []\<rparr> = None \<and>
   mem_store_get b3 mem_store_new \<lparr>codec = c, digest = []\<rparr> = Some (Inl (NotFound \<lparr>codec = c, digest = []\<rparr>))"
  by (simp add: fs_get_def fs_has_def path_for_def to_hex_def hex_byte_def Let_def mem_store_get_def
      mem_store_new_def)

text \<open>
  A manifest can stop the process by its length alone. Whatever the chunks, \<open>get_blob\<close> reserves
  the length the manifest states before it reads one of them, and a length above \<open>isize::MAX\<close> panics
  where the documentation promises \<open>BadManifest\<close>.
\<close>

theorem get_blob_panics_on_length:
  assumes "get s mh = Some (Inr raw)" "mparse raw = Inr mf"
    and "mf_format_version mf = manifest_format_version" "isize_max < mf_len mf"
  shows "get_blob get mparse s mh = None"
  using assms by (simp add: get_blob_def)

lemma get_blob_panics_on_length_witness:
  "get_blob (mem_store_get (\<lambda>b. b)) (\<lambda>_. Inr \<lparr>mf_format_version = 1, mf_params = default_chunker_params,
       mf_len = 2 ^ 63, mf_chunks = []\<rparr>) (mem_store_new(blake3 (\<lambda>b. b) [9] \<mapsto> [9])) (blake3 (\<lambda>b. b) [9]) = None"
  by (rule get_blob_panics_on_length [of _ _ _ "[9]" _ "\<lparr>mf_format_version = 1,
        mf_params = default_chunker_params, mf_len = 2 ^ 63, mf_chunks = []\<rparr>"])
     (simp_all add: mem_store_get_def manifest_format_version_def isize_max_def)

end
