(* ===== verification/View_Types.thy ===== *)
theory View_Types
  imports Op_Log Chunk_Store
begin

text \<open>
  \<open>crates/choir-view/src/lib.rs\<close>, the data: the typed operations an entry's payload carries
  (\<open>OpKind\<close>, \<open>ViewOp\<close> and what they hold) and the rows of the materialized state they fold into
  (\<open>View\<close>). Field and constructor names are the source's, prefixed per record where two records
  share one. \<open>serde_json\<close> is a library: its functions are fields of a record extending the
  externals of the log.
\<close>

section \<open>Operations\<close>

definition view_format_version :: nat where
  "view_format_version = 1"

record op_scope =
  sc_node :: content_hash
  sc_head :: "content_hash option"

datatype provenance_class = PushCertified | PushTransport

datatype verdict = Approve | RequestChanges

datatype check_status = Passed | Failed | Running | Errored

fun check_status_as_str :: "check_status \<Rightarrow> string" where
  "check_status_as_str Passed = ''passed''"
| "check_status_as_str Failed = ''failed''"
| "check_status_as_str Running = ''running''"
| "check_status_as_str Errored = ''errored''"

definition check_status_parse :: "string \<Rightarrow> check_status option" where
  "check_status_parse raw =
     (if raw = ''passed'' then Some Passed
      else if raw = ''failed'' then Some Failed
      else if raw = ''running'' then Some Running
      else if raw = ''errored'' then Some Errored
      else None)"

datatype basis =
    OwnerLanded string
  | OwnerApproved string
  | ApprovalWeight nat nat  \<comment> \<open>\<open>required\<close>, \<open>met\<close>\<close>

record authorization =
  au_format_version :: nat
  au_basis :: basis
  au_approvers :: "content_hash list"

definition new_authorization :: "basis \<Rightarrow> content_hash list \<Rightarrow> authorization" where
  "new_authorization b approvers =
     \<lparr>au_format_version = view_format_version, au_basis = b, au_approvers = approvers\<rparr>"

record ref_snapshot =
  sn_format_version :: nat
  sn_refs :: "(string, content_hash) btmap"
  sn_at_seq :: nat
  sn_prev_snapshot :: "content_hash option"

text \<open>The arguments of each constructor are the fields of the variant, in the source's order.\<close>

datatype op_kind =
    SetWorkspaceHead string content_hash "content_hash option"
      \<comment> \<open>\<open>workspace\<close>, \<open>commit\<close>, \<open>prev\<close>\<close>
  | SetRef string content_hash "content_hash option"  \<comment> \<open>\<open>name\<close>, \<open>commit\<close>, \<open>prev\<close>\<close>
  | DeleteWorkspace string
  | RequestReview string content_hash "string list" "string option"
      \<comment> \<open>\<open>id\<close>, \<open>target\<close>, \<open>reviewers\<close>, \<open>target_ref\<close>\<close>
  | AssignReviewers string "string list"
  | ArchiveReview string bool  \<comment> \<open>\<open>id\<close>, \<open>lapsed\<close>\<close>
  | SlashApproval string string string  \<comment> \<open>\<open>id\<close>, \<open>reviewer\<close>, \<open>reason\<close>\<close>
  | PostVerdict string string verdict string  \<comment> \<open>\<open>id\<close>, \<open>reviewer\<close>, \<open>verdict\<close>, \<open>note\<close>\<close>
  | PostComment string string string string  \<comment> \<open>\<open>id\<close>, \<open>comment\<close>, \<open>author\<close>, \<open>body\<close>\<close>
  | DeleteRef string "content_hash option"
  | RecordProvenance string string string  \<comment> \<open>\<open>subject\<close>, \<open>kind\<close>, \<open>body\<close>\<close>
  | CreateChange string string string content_hash string "witness option" "string list"
      \<comment> \<open>\<open>id\<close>, \<open>owner\<close>, \<open>workspace\<close>, \<open>base_revision\<close>, \<open>idempotency_key\<close>, \<open>owner_sig\<close>, \<open>cone\<close>\<close>
  | CheckpointChange string string content_hash content_hash
      \<comment> \<open>\<open>id\<close>, \<open>workspace\<close>, \<open>revision\<close>, \<open>prev_revision\<close>\<close>
  | ArchiveChange string string content_hash string witness
      \<comment> \<open>\<open>id\<close>, \<open>workspace\<close>, \<open>prev_revision\<close>, \<open>owner\<close>, \<open>owner_sig\<close>\<close>
  | BindKey string content_hash "string option"  \<comment> \<open>\<open>operator\<close>, \<open>key\<close>, \<open>channel\<close>\<close>
  | RevokeKey content_hash string  \<comment> \<open>\<open>key\<close>, \<open>reason\<close>\<close>
  | Vouch string string string  \<comment> \<open>\<open>voucher\<close>, \<open>subject\<close>, \<open>note\<close>\<close>
  | WithdrawVouch string string string  \<comment> \<open>\<open>voucher\<close>, \<open>subject\<close>, \<open>reason\<close>\<close>
  | CountersignSnapshot string content_hash  \<comment> \<open>\<open>witness\<close>, \<open>snapshot\<close>\<close>
  | RecordRefSnapshot ref_snapshot
  | ViewedReview string string  \<comment> \<open>\<open>id\<close>, \<open>viewer\<close>\<close>
  | RecordCheck content_hash string check_status string string "string option"
      \<comment> \<open>\<open>subject\<close>, \<open>name\<close>, \<open>status\<close>, \<open>evidence\<close>, \<open>reporter\<close>, \<open>target_ref\<close>\<close>
  | Submit string string content_hash "content_hash option" authorization
      \<comment> \<open>\<open>review\<close>, \<open>name\<close>, \<open>commit\<close>, \<open>prev\<close>, \<open>authorization\<close>\<close>

record view_op =
  vo_format_version :: nat
  vo_kind :: op_kind
  vo_scope :: "op_scope option"
  vo_provenance :: "provenance_class option"
  vo_depends :: "content_hash list"

definition new_view_op :: "op_kind \<Rightarrow> view_op" where
  "new_view_op k =
     \<lparr>vo_format_version = view_format_version, vo_kind = k, vo_scope = None,
      vo_provenance = None, vo_depends = []\<rparr>"

definition with_depends :: "view_op \<Rightarrow> content_hash list \<Rightarrow> view_op" where
  "with_depends vop ds = vop\<lparr>vo_depends := ds\<rparr>"

definition with_provenance :: "view_op \<Rightarrow> provenance_class \<Rightarrow> view_op" where
  "with_provenance vop p = vop\<lparr>vo_provenance := Some p\<rparr>"

definition in_scope :: "view_op \<Rightarrow> content_hash \<Rightarrow> content_hash option \<Rightarrow> view_op" where
  "in_scope vop node head = vop\<lparr>vo_scope := Some \<lparr>sc_node = node, sc_head = head\<rparr>\<rparr>"

section \<open>Authorizations that wrap into operations\<close>

record create_authorization =
  ca_format_version :: nat
  ca_id :: string
  ca_owner :: string
  ca_workspace :: string
  ca_base_revision :: content_hash
  ca_idempotency_key :: string
  ca_cone :: "string list"

definition new_create_authorization ::
  "string \<Rightarrow> string \<Rightarrow> string \<Rightarrow> content_hash \<Rightarrow> string \<Rightarrow> create_authorization" where
  "new_create_authorization i ow ws base key =
     \<lparr>ca_format_version = view_format_version, ca_id = i, ca_owner = ow, ca_workspace = ws,
      ca_base_revision = base, ca_idempotency_key = key, ca_cone = []\<rparr>"

definition with_cone :: "create_authorization \<Rightarrow> string list \<Rightarrow> create_authorization" where
  "with_cone a c = a\<lparr>ca_cone := c\<rparr>"

record archive_authorization =
  aa_format_version :: nat
  aa_id :: string
  aa_workspace :: string
  aa_prev_revision :: content_hash

definition new_archive_authorization ::
  "string \<Rightarrow> string \<Rightarrow> content_hash \<Rightarrow> archive_authorization" where
  "new_archive_authorization i ws prev =
     \<lparr>aa_format_version = view_format_version, aa_id = i, aa_workspace = ws,
      aa_prev_revision = prev\<rparr>"

section \<open>The rows of the view\<close>

record witness_state =
  ws_snapshot :: content_hash
  ws_at :: nat

record revocation =
  rv_at :: nat
  rv_reason :: string

record key_binding =
  kb_operator :: string
  kb_channel :: "string option"
  kb_bound_at :: nat
  kb_revoked :: "revocation option"

definition is_revoked :: "key_binding \<Rightarrow> bool" where
  "is_revoked b = (kb_revoked b \<noteq> None)"

record vouch_state =
  vs_at :: nat
  vs_note :: string

record check_state =
  ck_status :: check_status
  ck_evidence :: string
  ck_reporter :: string
  ck_target_ref :: "string option"

datatype review_status = Live | Archived bool nat  \<comment> \<open>\<open>approved\<close>, \<open>approval_weight\<close>\<close>

record comment_state =
  cm_id :: string
  cm_author :: string
  cm_body :: string
  cm_at :: nat

record verdict_state =
  vd_verdict :: verdict
  vd_note :: string
  vd_at :: nat

record review_state =
  rs_target :: "content_hash option"
  rs_reviewers :: "string list"
  rs_verdicts :: "(string, verdict_state) btmap"
  rs_slashes :: "(string, string) btmap"
  rs_target_ref :: "string option"
  rs_comments :: "comment_state list"
  rs_viewed :: "(string, nat) btmap"
  rs_status :: review_status

record change_state =
  cg_owner :: string
  cg_workspace_id :: string
  cg_active_workspace :: "string option"
  cg_base_revision :: content_hash
  cg_revision_id :: content_hash
  cg_idempotency_key :: string
  cg_cone :: "string list"

record view =
  v_workspaces :: "(string, content_hash) btmap"
  v_changes :: "(string, change_state) btmap"
  v_refs :: "(string, content_hash) btmap"
  v_reviews :: "(string, review_state) btmap"
  v_provenance :: "(string, (string, string) btmap) btmap"
  v_checks :: "(string, check_state) btmap"
  v_bindings :: "(string, key_binding) btmap"
  v_next_seq :: nat
  v_latest_snapshot :: "ref_snapshot option"
  v_witnessed :: "(string, witness_state) btmap"
  v_vouches :: "(string, (string, vouch_state) btmap) btmap"

text \<open>\<open>View::default()\<close>\<close>

definition default_view :: view where
  "default_view =
     \<lparr>v_workspaces = bt_empty, v_changes = bt_empty, v_refs = bt_empty, v_reviews = bt_empty,
      v_provenance = bt_empty, v_checks = bt_empty, v_bindings = bt_empty, v_next_seq = 0,
      v_latest_snapshot = None, v_witnessed = bt_empty, v_vouches = bt_empty\<rparr>"

section \<open>Errors and externals\<close>

datatype view_error =
    StaleHead string "content_hash option" "content_hash option"
      \<comment> \<open>\<open>target\<close>, \<open>expected\<close>, \<open>actual\<close>\<close>
  | DecodeErr string
  | LogErr log_error
  | StoreErr store_error
  | ReviewErr string
  | ProvenanceErr string
  | CheckErr string
  | ChangeErr string
  | IdentityErr string
  | SnapshotErr string
  | ResolutionErr string
  | VouchErr string
  | WitnessErr string

record view_externals = externals +
  x_op_json :: "view_op \<Rightarrow> bytes"
  x_op_parse :: "bytes \<Rightarrow> string + view_op"
  x_snapshot_json :: "ref_snapshot \<Rightarrow> bytes"

text \<open>\<open>ViewOp::to_payload\<close> and \<open>ViewOp::from_payload\<close>\<close>

definition to_payload :: "('a) view_externals_scheme \<Rightarrow> view_op \<Rightarrow> bytes" where
  "to_payload X vop = x_op_json X vop"

definition from_payload :: "('a) view_externals_scheme \<Rightarrow> bytes \<Rightarrow> view_error + view_op" where
  "from_payload X pl = map_err DecodeErr (x_op_parse X pl)"

text \<open>\<open>RefSnapshot::canonical_bytes\<close> and \<open>RefSnapshot::id\<close>\<close>

definition canonical_bytes :: "('a) view_externals_scheme \<Rightarrow> ref_snapshot \<Rightarrow> bytes" where
  "canonical_bytes X s = x_snapshot_json X s"

definition snapshot_id :: "('a) view_externals_scheme \<Rightarrow> ref_snapshot \<Rightarrow> content_hash" where
  "snapshot_id X s = blake3 (x_blake3 X) (canonical_bytes X s)"

lemma check_status_round_trip [simp]: "check_status_parse (check_status_as_str s) = Some s"
  by (cases s) (auto simp: check_status_parse_def)

end
