(* ===== verification/Review.thy ===== *)
theory Review
  imports View_Types
begin

text \<open>
  \<open>ReviewState\<close> of \<open>crates/choir-view/src/lib.rs\<close>: which approvals count, and what a settled
  review still answers. The lemmas show that the approval weight of a live review is the number of
  distinct operators with a standing approval, and what archiving preserves of it.
\<close>

section \<open>The definitions\<close>

definition max_approval_weight_per_operator :: nat where
  "max_approval_weight_per_operator = 1"

definition reviewer_operator :: "string \<Rightarrow> string" where
  "reviewer_operator name =
     (case split_once (CHR ''/'') name of None \<Rightarrow> name | Some (op, _) \<Rightarrow> op)"

definition operator_is_slashed :: "review_state \<Rightarrow> string \<Rightarrow> bool" where
  "operator_is_slashed r reviewer =
     (let op = reviewer_operator reviewer in
      list_ex (\<lambda>slashed. reviewer_operator slashed = op) (bt_keys (rs_slashes r)))"

definition counted_approver_channels :: "review_state \<Rightarrow> bool \<Rightarrow> (string \<times> nat) list" where
  "counted_approver_channels r apply_slashes =
     (let items = bt_items (rs_verdicts r) in
      map (\<lambda>(_, reviewer, answer). (reviewer, vd_at answer))
        (filter (\<lambda>(index, reviewer, answer).
            \<not> (vd_verdict answer \<noteq> Approve \<or> apply_slashes \<and> operator_is_slashed r reviewer) \<and>
            list_all (\<lambda>(prior, prior_answer).
                vd_verdict prior_answer \<noteq> Approve \<or>
                reviewer_operator prior \<noteq> reviewer_operator reviewer)
              (take index items))
          (enumerate 0 items)))"

definition live_approval_weight :: "review_state \<Rightarrow> bool \<Rightarrow> nat" where
  "live_approval_weight r apply_slashes =
     length (counted_approver_channels r apply_slashes) * max_approval_weight_per_operator"

definition counted_approvers :: "review_state \<Rightarrow> (string \<times> nat) list" where
  "counted_approvers r = counted_approver_channels r True"

definition standing_approval_at :: "review_state \<Rightarrow> string \<Rightarrow> nat option" where
  "standing_approval_at r reviewer =
     (case bt_get (rs_verdicts r) reviewer of
        None \<Rightarrow> None
      | Some answer \<Rightarrow>
          if vd_verdict answer = Approve \<and> \<not> operator_is_slashed r reviewer
          then Some (vd_at answer) else None)"

definition approval_stands :: "review_state \<Rightarrow> string \<Rightarrow> bool" where
  "approval_stands r reviewer = (standing_approval_at r reviewer \<noteq> None)"

definition slashed_operator_count :: "review_state \<Rightarrow> nat" where
  "slashed_operator_count r =
     (let keys = bt_keys (rs_slashes r) in
      length (filter (\<lambda>(index, reviewer).
          list_all (\<lambda>prior. reviewer_operator prior \<noteq> reviewer_operator reviewer)
            (take index keys))
        (enumerate 0 keys)))"

definition complete :: "review_state \<Rightarrow> bool" where
  "complete r =
     (case rs_status r of
        Archived _ _ \<Rightarrow> True
      | Live \<Rightarrow> rs_reviewers r \<noteq> [] \<and>
                list_all (bt_contains (rs_verdicts r)) (rs_reviewers r))"

definition approval_weight :: "review_state \<Rightarrow> nat" where
  "approval_weight r =
     (case rs_status r of
        Archived _ w \<Rightarrow> w - slashed_operator_count r * max_approval_weight_per_operator
      | Live \<Rightarrow> live_approval_weight r True)"

definition has_approved :: "review_state \<Rightarrow> string \<Rightarrow> bool" where
  "has_approved r reviewer =
     (case bt_get (rs_verdicts r) reviewer of
        None \<Rightarrow> False | Some answer \<Rightarrow> vd_verdict answer = Approve)"

definition approved :: "review_state \<Rightarrow> bool" where
  "approved r =
     (case rs_status r of
        Archived ok _ \<Rightarrow> ok \<and> 0 < approval_weight r
      | Live \<Rightarrow>
          if \<not> complete r then False
          else (case filter (\<lambda>reviewer. \<not> bt_contains (rs_slashes r) reviewer) (rs_reviewers r) of
                  [] \<Rightarrow> False
                | first # rest \<Rightarrow> has_approved r first \<and> list_all (has_approved r) rest))"

definition re_review_required :: "review_state \<Rightarrow> bool" where
  "re_review_required r = (\<not> bt_is_empty (rs_slashes r))"

text \<open>The row \<open>RequestReview\<close> inserts.\<close>

definition requested_review ::
  "content_hash \<Rightarrow> string list \<Rightarrow> string option \<Rightarrow> review_state" where
  "requested_review tgt reviewers tref =
     \<lparr>rs_target = Some tgt, rs_reviewers = reviewers, rs_verdicts = bt_empty,
      rs_slashes = bt_empty, rs_target_ref = tref, rs_comments = [], rs_viewed = bt_empty,
      rs_status = Live\<rparr>"

text \<open>The row \<open>ArchiveReview\<close> leaves: outcome and weight are kept, the bulk is dropped.\<close>

definition archived_review :: "review_state \<Rightarrow> bool \<Rightarrow> review_state" where
  "archived_review r lapsed =
     r\<lparr>rs_status :=
          Archived (\<not> lapsed \<and> approved r) (if lapsed then 0 else live_approval_weight r False),
       rs_reviewers := [], rs_verdicts := bt_empty, rs_comments := [], rs_viewed := bt_empty\<rparr>"

section \<open>Operators\<close>

lemma reviewer_operator_no_slash: "CHR ''/'' \<notin> set (reviewer_operator name)"
proof (cases "split_once (CHR ''/'') name")
  case None
  then show ?thesis using split_once_None [of "CHR ''/''" name] by (simp add: reviewer_operator_def)
next
  case (Some p)
  then show ?thesis
    using split_once_SomeD [of "CHR ''/''" name "fst p" "snd p"]
    by (simp add: reviewer_operator_def case_prod_unfold)
qed

lemma reviewer_operator_id: "CHR ''/'' \<notin> set name \<Longrightarrow> reviewer_operator name = name"
  by (simp add: reviewer_operator_def split_once_None [THEN iffD2])

lemma reviewer_operator_idem [simp]:
  "reviewer_operator (reviewer_operator name) = reviewer_operator name"
  by (rule reviewer_operator_id [OF reviewer_operator_no_slash])

lemma reviewer_operator_channel:
  "CHR ''/'' \<notin> set op \<Longrightarrow> reviewer_operator (op @ CHR ''/'' # agent) = op"
  by (simp add: reviewer_operator_def split_once_append)

section \<open>Counting the first occurrence of every key\<close>

text \<open>
  The scan both counters use: keep an element whose key no admitted element before it has. What
  it keeps has every admitted key exactly once.
\<close>

definition firsts :: "('x \<Rightarrow> 'k) \<Rightarrow> ('x \<Rightarrow> bool) \<Rightarrow> ('k \<Rightarrow> bool) \<Rightarrow> 'x list \<Rightarrow> (nat \<times> 'x) list" where
  "firsts f A B xs =
     filter (\<lambda>(i, x). A x \<and> B (f x) \<and> (\<forall>y \<in> set (take i xs). A y \<longrightarrow> f y \<noteq> f x)) (enumerate 0 xs)"

lemma firsts_snoc:
  "firsts f A B (xs @ [x]) =
     firsts f A B xs @
     (if A x \<and> B (f x) \<and> (\<forall>y \<in> set xs. A y \<longrightarrow> f y \<noteq> f x) then [(length xs, x)] else [])"
proof -
  have "filter (\<lambda>(i, z). A z \<and> B (f z) \<and> (\<forall>y \<in> set (take i (xs @ [x])). A y \<longrightarrow> f y \<noteq> f z))
          (enumerate 0 xs) = firsts f A B xs"
    unfolding firsts_def by (rule filter_cong) (auto simp: in_set_enumerate_eq)
  then show ?thesis by (simp add: firsts_def enumerate_append_eq)
qed

lemma firsts_keys:
  "distinct (map (f \<circ> snd) (firsts f A B xs)) \<and>
   f ` snd ` set (firsts f A B xs) = f ` {x \<in> set xs. A x \<and> B (f x)}"
proof (induction xs rule: rev_induct)
  case Nil
  then show ?case by (simp add: firsts_def)
next
  case (snoc x xs)
  let ?K = "\<lambda>zs. f ` {z \<in> set zs. A z \<and> B (f z)}"
  have K: "?K (xs @ [x]) = (if A x \<and> B (f x) then insert (f x) (?K xs) else ?K xs)"
    by auto
  show ?case
  proof (cases "A x \<and> B (f x) \<and> (\<forall>y \<in> set xs. A y \<longrightarrow> f y \<noteq> f x)")
    case True
    then have "f x \<notin> ?K xs" by auto
    then have "f x \<notin> f ` snd ` set (firsts f A B xs)" using snoc by simp
    moreover have "?K (xs @ [x]) = insert (f x) (?K xs)" using K True by simp
    ultimately show ?thesis using snoc True by (simp add: firsts_snoc image_comp)
  next
    case False
    then have "A x \<and> B (f x) \<Longrightarrow> f x \<in> ?K xs" by (metis (mono_tags, lifting) image_eqI mem_Collect_eq)
    then have "?K (xs @ [x]) = ?K xs" using K by (simp add: insert_absorb)
    then show ?thesis using snoc False by (simp only: firsts_snoc if_False append_Nil2)
  qed
qed

lemma length_firsts: "length (firsts f A B xs) = card (f ` {x \<in> set xs. A x \<and> B (f x)})"
proof -
  have "length (firsts f A B xs) = card (set (map (f \<circ> snd) (firsts f A B xs)))"
    using firsts_keys [of f A B xs] by (metis distinct_card length_map)
  also have "set (map (f \<circ> snd) (firsts f A B xs)) = f ` {x \<in> set xs. A x \<and> B (f x)}"
    using firsts_keys [of f A B xs] by (simp add: image_comp)
  finally show ?thesis .
qed

section \<open>Approval weight\<close>

text \<open>The operators with an approval, and those a slash has taken out.\<close>

definition approving_operators :: "review_state \<Rightarrow> string set" where
  "approving_operators r = {reviewer_operator c | c. has_approved r c}"

definition slashed_operators :: "review_state \<Rightarrow> string set" where
  "slashed_operators r = reviewer_operator ` set (bt_keys (rs_slashes r))"

lemma operator_is_slashed_iff:
  "operator_is_slashed r c \<longleftrightarrow> reviewer_operator c \<in> slashed_operators r"
  unfolding operator_is_slashed_def slashed_operators_def list_ex_iff Let_def image_iff by metis

abbreviation approval_item :: "string \<times> verdict_state \<Rightarrow> bool" where
  "approval_item x \<equiv> vd_verdict (snd x) = Approve"

abbreviation item_operator :: "string \<times> verdict_state \<Rightarrow> string" where
  "item_operator x \<equiv> reviewer_operator (fst x)"

lemma counted_approver_channels_firsts:
  "counted_approver_channels r b =
     map (\<lambda>(_, reviewer, answer). (reviewer, vd_at answer))
       (firsts item_operator approval_item (\<lambda>op. \<not> (b \<and> op \<in> slashed_operators r))
          (bt_items (rs_verdicts r)))"
  unfolding counted_approver_channels_def firsts_def Let_def
  by (rule arg_cong [where f = "map _"], rule filter_cong)
     (auto simp: operator_is_slashed_iff list_all_iff)

lemma live_approval_weight_card:
  "live_approval_weight r b =
     card {op \<in> approving_operators r. \<not> (b \<and> op \<in> slashed_operators r)}"
proof -
  let ?B = "\<lambda>op. \<not> (b \<and> op \<in> slashed_operators r)"
  have "{x \<in> set (bt_items (rs_verdicts r)). approval_item x \<and> ?B (item_operator x)} =
      {(c, a). bt_get (rs_verdicts r) c = Some a \<and> vd_verdict a = Approve \<and> ?B (reviewer_operator c)}"
    by (auto simp: bt_items_iff)
  moreover have "item_operator ` \<dots> = {op \<in> approving_operators r. ?B op}"
    by (force simp: approving_operators_def has_approved_def image_iff split: option.splits)
  ultimately show ?thesis
    by (simp only: live_approval_weight_def counted_approver_channels_firsts
        max_approval_weight_per_operator_def length_firsts length_map mult_1_right)
qed

lemma slashed_operator_count_card: "slashed_operator_count r = card (slashed_operators r)"
proof -
  have "slashed_operator_count r =
      length (firsts reviewer_operator (\<lambda>_. True) (\<lambda>_. True) (bt_keys (rs_slashes r)))"
    by (simp add: slashed_operator_count_def firsts_def list_all_iff Let_def)
  then show ?thesis by (simp add: length_firsts slashed_operators_def)
qed

lemma finite_approving_operators [simp]: "finite (approving_operators r)"
proof -
  have "approving_operators r \<subseteq> reviewer_operator ` set (bt_keys (rs_verdicts r))"
    by (auto simp: approving_operators_def has_approved_def bt_keys_iff split: option.splits)
  then show ?thesis by (rule finite_subset) simp
qed

lemma finite_slashed_operators [simp]: "finite (slashed_operators r)"
  by (simp add: slashed_operators_def)

text \<open>
  When every slash is of an approval, as \<open>SlashApproval\<close> admits it, the weight an archived review
  answers is the weight it had live.
\<close>

definition slashes_are_approvals :: "review_state \<Rightarrow> bool" where
  "slashes_are_approvals r \<longleftrightarrow> (\<forall>c \<in> set (bt_keys (rs_slashes r)). has_approved r c)"

lemma slashed_subset_approving:
  "slashes_are_approvals r \<Longrightarrow> slashed_operators r \<subseteq> approving_operators r"
  by (auto simp: slashes_are_approvals_def slashed_operators_def approving_operators_def)

lemma archived_slashes [simp]:
  "rs_slashes (archived_review r b) = rs_slashes r"
  "slashed_operators (archived_review r b) = slashed_operators r"
  by (simp_all add: archived_review_def slashed_operators_def)

lemma archived_weight:
  assumes "rs_status r = Live" "slashes_are_approvals r"
  shows "approval_weight (archived_review r False) = approval_weight r"
proof -
  have "approval_weight (archived_review r False) =
      card (approving_operators r) - card (slashed_operators r)"
    by (simp add: approval_weight_def archived_review_def live_approval_weight_card
        slashed_operator_count_card slashed_operators_def max_approval_weight_per_operator_def)
  also have "\<dots> = card (approving_operators r - slashed_operators r)"
    using slashed_subset_approving [OF assms(2)] by (simp add: card_Diff_subset)
  also have "\<dots> = approval_weight r"
    by (simp add: approval_weight_def assms(1) live_approval_weight_card set_diff_eq)
  finally show ?thesis .
qed

text \<open>Without a slash, archiving preserves the outcome too.\<close>

lemma approved_live_iff:
  assumes "rs_status r = Live"
  shows "approved r \<longleftrightarrow> complete r \<and>
     (\<exists>c \<in> set (rs_reviewers r). \<not> bt_contains (rs_slashes r) c) \<and>
     (\<forall>c \<in> set (rs_reviewers r). bt_contains (rs_slashes r) c \<or> has_approved r c)"
proof -
  let ?el = "filter (\<lambda>c. \<not> bt_contains (rs_slashes r) c) (rs_reviewers r)"
  have "approved r \<longleftrightarrow> complete r \<and> ?el \<noteq> [] \<and> (\<forall>c \<in> set ?el. has_approved r c)"
    by (cases ?el) (auto simp: approved_def assms list_all_iff)
  then show ?thesis by (auto simp: filter_empty_conv)
qed

lemma archived_approved_no_slash:
  assumes "rs_status r = Live" "bt_is_empty (rs_slashes r)"
  shows "approved (archived_review r False) = approved r"
proof
  assume ap: "approved r"
  then obtain c where "has_approved r c"
    using assms by (auto simp: approved_live_iff bt_contains_def bt_is_empty_iff)
  then have "approving_operators r \<noteq> {}" by (auto simp: approving_operators_def)
  moreover have "slashes_are_approvals r"
    using assms(2) by (simp add: slashes_are_approvals_def bt_keys_def bt_is_empty_def)
  ultimately have "0 < approval_weight (archived_review r False)"
    using archived_weight [OF assms(1)] assms
    by (simp add: approval_weight_def live_approval_weight_card slashed_operators_def bt_keys_def
        bt_is_empty_def card_gt_0_iff)
  then show "approved (archived_review r False)"
    using ap by (simp add: approved_def archived_review_def)
next
  assume "approved (archived_review r False)"
  then show "approved r"
    by (simp add: approved_def [of "archived_review r False"]) (simp add: archived_review_def)
qed

end
