(* ===== verification/View_Validate.thy ===== *)
theory View_Validate
  imports Review
begin

text \<open>
  \<open>View::validate\<close> of \<open>crates/choir-view/src/lib.rs\<close>: one definition per arm of its match, in the
  source's order of checks and with the source's messages, and the reads the arms use.
\<close>

section \<open>Reads of the view\<close>

definition vouch_stands :: "view \<Rightarrow> string \<Rightarrow> string \<Rightarrow> bool" where
  "vouch_stands v voucher subject =
     (case bt_get (v_vouches v) subject of None \<Rightarrow> False | Some from \<Rightarrow> bt_contains from voucher)"

definition is_bound_operator :: "view \<Rightarrow> string \<Rightarrow> bool" where
  "is_bound_operator v operator =
     list_ex (\<lambda>b. kb_operator b = operator \<and> \<not> is_revoked b) (bt_values (v_bindings v))"

definition binding_claims :: "string \<Rightarrow> key_binding \<Rightarrow> bool" where
  "binding_claims chan b = (kb_channel b = Some chan)"

definition binding_live_at :: "nat \<Rightarrow> key_binding \<Rightarrow> bool" where
  "binding_live_at at b =
     (kb_bound_at b \<le> at \<and>
      (case kb_revoked b of None \<Rightarrow> True | Some gone \<Rightarrow> at < rv_at gone))"

definition bound_actor_at :: "view \<Rightarrow> string \<Rightarrow> nat \<Rightarrow> string + content_hash" where
  "bound_actor_at v chan at =
     (case filter (\<lambda>(_, b). binding_claims chan b \<and> binding_live_at at b) (bt_items (v_bindings v)) of
        [] \<Rightarrow>
          if list_ex (binding_claims chan) (bt_values (v_bindings v))
          then Inl (''no key the log binds to '' @ chan @ '' was live at seq '' @ show_nat at @
                    ''; that reviewer needs a fresh key and a fresh verdict'')
          else Inl (''the log binds no key to '' @ chan)
      | (key_id, _) # rest \<Rightarrow>
          if rest \<noteq> []
          then Inl (''the log binds more than one live key to '' @ chan @ '' at seq '' @ show_nat at)
          else ok_or (''binding for '' @ chan @ '' holds an unreadable key id '' @ key_id)
                 (from_hex key_id))"

definition operator_of :: "view \<Rightarrow> content_hash \<Rightarrow> string option" where
  "operator_of v key = map_option kb_operator (bt_get (v_bindings v) (to_hex key))"

definition ops_since_binding :: "view \<Rightarrow> content_hash \<Rightarrow> nat option" where
  "ops_since_binding v key =
     map_option (\<lambda>b. v_next_seq v - kb_bound_at b) (bt_get (v_bindings v) (to_hex key))"

definition operator_keys :: "view \<Rightarrow> string \<Rightarrow> (string \<times> key_binding) list" where
  "operator_keys v operator =
     filter (\<lambda>(_, b). kb_operator b = operator) (bt_items (v_bindings v))"

definition take_snapshot :: "('a) view_externals_scheme \<Rightarrow> view \<Rightarrow> ref_snapshot" where
  "take_snapshot X v =
     \<lparr>sn_format_version = view_format_version, sn_refs = v_refs v, sn_at_seq = v_next_seq v,
      sn_prev_snapshot = map_option (snapshot_id X) (v_latest_snapshot v)\<rparr>"

section \<open>Preconditions\<close>

definition cas ::
  "content_hash option \<Rightarrow> content_hash option \<Rightarrow> string \<Rightarrow> view_error + unit" where
  "cas actual expected tgt =
     (if actual \<noteq> expected then Inl (StaleHead tgt expected actual) else Inr ())"

definition live_review :: "view \<Rightarrow> string \<Rightarrow> view_error + review_state" where
  "live_review v i = ok_or (ReviewErr (''no such review '' @ i)) (bt_get (v_reviews v) i)"

definition is_archived :: "review_state \<Rightarrow> bool" where
  "is_archived r = (rs_status r \<noteq> Live)"

definition validate_vouch_end :: "view \<Rightarrow> string \<Rightarrow> string \<Rightarrow> view_error + unit" where
  "validate_vouch_end v role name =
     (if name = [] then Inl (VouchErr (''a vouch must name a '' @ role))
      else if CHR ''/'' \<in> set name
      then Inl (VouchErr (role @ '' '' @ name @ '' must be an operator identity, with no '' @
                          [CHR 0x27, CHR ''/'', CHR 0x27]))
      else if \<not> is_bound_operator v name
      then Inl (VouchErr (role @ '' '' @ name @ '' has no unrevoked key bound in this log''))
      else Inr ())"

definition validate_vouch_ends :: "view \<Rightarrow> string \<Rightarrow> string \<Rightarrow> view_error + unit" where
  "validate_vouch_ends v voucher subject =
     (if voucher = subject then Inl (VouchErr (voucher @ '' cannot vouch for itself''))
      else and_then (validate_vouch_end v ''voucher'' voucher)
             (\<lambda>_. validate_vouch_end v ''subject'' subject))"

text \<open>The approver ids a landing's basis rests on, rederived from the review and the bindings.\<close>

definition rederived_approvers ::
  "view \<Rightarrow> string \<Rightarrow> review_state \<Rightarrow> basis \<Rightarrow> view_error + content_hash list" where
  "rederived_approvers v review state b =
     (case b of
        OwnerLanded owner \<Rightarrow>
          if owner = []
          then Inl (ReviewErr ''an owner-landed authorization must name the owner'')
          else Inr []
      | OwnerApproved owner \<Rightarrow>
          and_then (ok_or (ReviewErr (owner @ '' has no standing approval on review '' @ review))
                      (standing_approval_at state owner))
            (\<lambda>at. and_then (map_err ReviewErr (bound_actor_at v owner at)) (\<lambda>k. Inr [k]))
      | ApprovalWeight required met \<Rightarrow>
          if required = 0
          then Inl (ReviewErr ''an approval-weight authorization must state a nonzero threshold'')
          else (let actual = min (approval_weight state) u32_max in
                if met \<noteq> actual
                then Inl (ReviewErr (''review '' @ review @ '' carries approval weight '' @
                       show_nat actual @ '', not the claimed '' @ show_nat met))
                else if met < required
                then Inl (ReviewErr (''approval weight '' @ show_nat met @ '' is below the '' @
                       show_nat required @ '' this authorization claims to satisfy''))
                else map_err ReviewErr
                       (collect_results
                          (map (\<lambda>(chan, at). bound_actor_at v chan at) (counted_approvers state)))))"

definition validate_submit ::
  "view \<Rightarrow> string \<Rightarrow> string \<Rightarrow> content_hash \<Rightarrow> authorization \<Rightarrow> view_error + unit" where
  "validate_submit v review name commit auth =
     and_then (live_review v review) (\<lambda>state.
     if is_archived state
     then Inl (ReviewErr (''review '' @ review @ '' is archived and its verdicts are gone, so the '' @
                 ''authorization this landing claims cannot be checked''))
     else if rs_target_ref state \<noteq> Some name
     then Inl (ReviewErr (''review '' @ review @ '' proposes to land on '' @
                 (case rs_target_ref state of None \<Rightarrow> ''no ref'' | Some r \<Rightarrow> r) @ '', not '' @ name))
     else if rs_target state \<noteq> Some commit
     then Inl (ReviewErr (''review '' @ review @ '' names commit '' @
                 (case rs_target state of None \<Rightarrow> ''none'' | Some h \<Rightarrow> to_hex h) @ '', not '' @
                 to_hex commit))
     else and_then (rederived_approvers v review state (au_basis auth)) (\<lambda>expected.
          if au_approvers auth \<noteq> expected
          then Inl (ReviewErr (''authorization on review '' @ review @ '' lists '' @
                 show_nat (length (au_approvers auth)) @ '' approvers where the log'' @ [CHR 0x27] @
                 ''s own bindings produce '' @ show_nat (length expected)))
          else Inr ()))"

section \<open>The arms of \<open>validate\<close>\<close>

definition validate_set_workspace_head ::
  "view \<Rightarrow> string \<Rightarrow> content_hash option \<Rightarrow> view_error + unit" where
  "validate_set_workspace_head v workspace prev =
     cas (bt_get (v_workspaces v) workspace) prev workspace"

definition validate_ref_cas ::
  "view \<Rightarrow> string \<Rightarrow> content_hash option \<Rightarrow> view_error + unit" where
  "validate_ref_cas v name prev = cas (bt_get (v_refs v) name) prev name"

definition validate_submit_op ::
  "view \<Rightarrow> string \<Rightarrow> string \<Rightarrow> content_hash \<Rightarrow> content_hash option \<Rightarrow> authorization \<Rightarrow>
   view_error + unit" where
  "validate_submit_op v review name commit prev auth =
     and_then (cas (bt_get (v_refs v) name) prev name)
       (\<lambda>_. validate_submit v review name commit auth)"

definition validate_request_review :: "view \<Rightarrow> string \<Rightarrow> view_error + unit" where
  "validate_request_review v i =
     refuse_if (bt_contains (v_reviews v) i) (ReviewErr (''review '' @ i @ '' already exists''))"

definition validate_assign_reviewers ::
  "view \<Rightarrow> string \<Rightarrow> string list \<Rightarrow> view_error + unit" where
  "validate_assign_reviewers v i reviewers =
     (if reviewers = []
      then Inl (ReviewErr ''assignment must name at least one reviewer'')
      else and_then (live_review v i) (\<lambda>review.
        if is_archived review then Inl (ReviewErr (''review '' @ i @ '' is archived''))
        else if rs_reviewers review \<noteq> []
        then Inl (ReviewErr (''review '' @ i @ '' is already assigned''))
        else Inr ()))"

definition validate_post_verdict :: "view \<Rightarrow> string \<Rightarrow> string \<Rightarrow> view_error + unit" where
  "validate_post_verdict v i reviewer =
     and_then (live_review v i) (\<lambda>review.
     if is_archived review
     then Inl (ReviewErr (''review '' @ i @ '' is archived and accepts no further verdicts''))
     else if reviewer \<notin> set (rs_reviewers review)
     then Inl (ReviewErr (reviewer @ '' is not a reviewer of '' @ i))
     else if bt_contains (rs_slashes review) reviewer
     then Inl (ReviewErr (reviewer @ [CHR 0x27] @ ''s approval on '' @ i @
                 '' was slashed; open a new review''))
     else Inr ())"

definition validate_slash_approval ::
  "view \<Rightarrow> string \<Rightarrow> string \<Rightarrow> string \<Rightarrow> view_error + unit" where
  "validate_slash_approval v i reviewer reason =
     (if reviewer = [] \<or> reason = []
      then Inl (ReviewErr ''a slash must name a reviewer and a non-empty reason'')
      else and_then (live_review v i) (\<lambda>review.
        if bt_contains (rs_slashes review) reviewer
        then Inl (ReviewErr (reviewer @ [CHR 0x27] @ ''s approval on '' @ i @ '' is already slashed''))
        else (case rs_status review of
                Live \<Rightarrow>
                  if reviewer \<notin> set (rs_reviewers review)
                  then Inl (ReviewErr (reviewer @ '' is not a reviewer of '' @ i))
                  else if \<not> has_approved review reviewer
                  then Inl (ReviewErr (reviewer @ '' has no approval to slash on '' @ i))
                  else Inr ()
              | Archived ok _ \<Rightarrow>
                  if \<not> ok \<or> approval_weight review = 0
                  then Inl (ReviewErr (''archived review '' @ i @ '' carries no approval to slash''))
                  else Inr ())))"

definition validate_archive_review :: "view \<Rightarrow> string \<Rightarrow> bool \<Rightarrow> view_error + unit" where
  "validate_archive_review v i lapsed =
     and_then (live_review v i) (\<lambda>review.
     if is_archived review then Inl (ReviewErr (''review '' @ i @ '' is already archived''))
     else if complete review \<and> lapsed
     then Inl (ReviewErr (''review '' @ i @ '' is complete and cannot be lapsed''))
     else if \<not> complete review \<and> \<not> lapsed
     then Inl (ReviewErr (''review '' @ i @ '' is not complete; archive it with lapsed to settle it '' @
                 ''as unapproved''))
     else Inr ())"

definition validate_post_comment ::
  "view \<Rightarrow> string \<Rightarrow> string \<Rightarrow> string \<Rightarrow> string \<Rightarrow> view_error + unit" where
  "validate_post_comment v i comment author body =
     (if comment = [] \<or> author = [] \<or> body = []
      then Inl (ReviewErr ''a comment must carry an id, an author and a body'')
      else and_then (live_review v i) (\<lambda>review.
        if is_archived review
        then Inl (ReviewErr (''review '' @ i @ '' is archived and accepts no further comments''))
        else if list_ex (\<lambda>held. cm_id held = comment) (rs_comments review)
        then Inl (ReviewErr (''comment '' @ comment @ '' already exists on review '' @ i))
        else Inr ()))"

definition validate_viewed_review :: "view \<Rightarrow> string \<Rightarrow> string \<Rightarrow> view_error + unit" where
  "validate_viewed_review v i viewer =
     (if viewer = []
      then Inl (ReviewErr ''a read receipt must name its viewer'')
      else and_then (live_review v i) (\<lambda>review.
        if is_archived review
        then Inl (ReviewErr (''review '' @ i @ '' is archived and accepts no further receipts''))
        else if bt_contains (rs_viewed review) viewer
        then Inl (ReviewErr (''viewer '' @ viewer @ '' already holds a receipt on review '' @ i))
        else Inr ()))"

definition validate_record_provenance :: "string \<Rightarrow> string \<Rightarrow> view_error + unit" where
  "validate_record_provenance subject kind =
     refuse_if (subject = [] \<or> kind = [])
       (ProvenanceErr ''provenance subject and kind must be non-empty'')"

definition validate_record_check :: "string \<Rightarrow> string \<Rightarrow> view_error + unit" where
  "validate_record_check name reporter =
     (if name = [] \<or> reporter = []
      then Inl (CheckErr ''a check must name itself and its reporter'')
      else if CHR '':'' \<in> set name
      then Inl (CheckErr (''check name '' @ name @ '' may not contain '' @
                          [CHR 0x27, CHR '':'', CHR 0x27]))
      else Inr ())"

definition validate_create_change ::
  "view \<Rightarrow> string \<Rightarrow> string \<Rightarrow> string \<Rightarrow> string \<Rightarrow> view_error + unit" where
  "validate_create_change v i owner workspace key =
     (if i = [] \<or> owner = [] \<or> workspace = [] \<or> key = []
      then Inl (ChangeErr ''change id, owner, workspace and idempotency key must be non-empty'')
      else if bt_contains (v_changes v) i
      then Inl (ChangeErr (''change '' @ i @ '' already exists''))
      else if bt_contains (v_workspaces v) workspace
      then Inl (ChangeErr (''workspace '' @ workspace @ '' already exists''))
      else (case List.find (\<lambda>(_, c). cg_workspace_id c = workspace \<and>
                     cg_active_workspace c = Some workspace) (bt_items (v_changes v)) of
              Some (existing, _) \<Rightarrow>
                Inl (ChangeErr (''workspace '' @ workspace @ '' is active on change '' @ existing))
            | None \<Rightarrow>
                (case List.find (\<lambda>(_, c). cg_owner c = owner \<and> cg_idempotency_key c = key)
                        (bt_items (v_changes v)) of
                   Some (existing, _) \<Rightarrow>
                     Inl (ChangeErr (''idempotency key already belongs to change '' @ existing))
                 | None \<Rightarrow> Inr ())))"

definition validate_checkpoint_change ::
  "view \<Rightarrow> string \<Rightarrow> string \<Rightarrow> content_hash \<Rightarrow> content_hash \<Rightarrow> view_error + unit" where
  "validate_checkpoint_change v i workspace revision prev =
     (if i = [] \<or> workspace = []
      then Inl (ChangeErr ''change id and workspace must be non-empty'')
      else and_then (ok_or (ChangeErr (''no such change '' @ i)) (bt_get (v_changes v) i)) (\<lambda>change.
        if cg_active_workspace change \<noteq> Some workspace
        then Inl (ChangeErr (''change '' @ i @ '' is not active in workspace '' @ workspace))
        else and_then (cas (Some (cg_revision_id change)) (Some prev) (''change '' @ i)) (\<lambda>_.
             and_then (cas (bt_get (v_workspaces v) workspace) (Some prev) workspace) (\<lambda>_.
             if revision = prev
             then Inl (ChangeErr (''checkpoint for change '' @ i @
                         '' must advance to a different revision''))
             else Inr ()))))"

definition validate_archive_change ::
  "view \<Rightarrow> string \<Rightarrow> string \<Rightarrow> content_hash \<Rightarrow> string \<Rightarrow> view_error + unit" where
  "validate_archive_change v i workspace prev owner =
     (if i = [] \<or> workspace = [] \<or> owner = []
      then Inl (ChangeErr ''change id, workspace and owner must be non-empty'')
      else and_then (ok_or (ChangeErr (''no such change '' @ i)) (bt_get (v_changes v) i)) (\<lambda>change.
        if cg_active_workspace change \<noteq> Some workspace
        then Inl (ChangeErr (''change '' @ i @ '' is not active in workspace '' @ workspace))
        else if cg_owner change \<noteq> owner
        then Inl (ChangeErr (''change '' @ i @ '' is owned by a different channel''))
        else and_then (cas (Some (cg_revision_id change)) (Some prev) (''change '' @ i)) (\<lambda>_.
             cas (bt_get (v_workspaces v) workspace) (Some prev) workspace)))"

definition validate_bind_key ::
  "view \<Rightarrow> string \<Rightarrow> content_hash \<Rightarrow> string option \<Rightarrow> view_error + unit" where
  "validate_bind_key v operator key chan =
     (if operator = [] then Inl (IdentityErr ''a binding must name an operator'')
      else if CHR ''/'' \<in> set operator
      then Inl (IdentityErr (''operator '' @ operator @ '' must not contain '' @
                             [CHR 0x27, CHR ''/'', CHR 0x27]))
      else and_then
        (case chan of
           None \<Rightarrow> Inr ()
         | Some c \<Rightarrow>
             if c = []
             then Inl (IdentityErr ''a bound channel must be non-empty; omit it instead'')
             else if reviewer_operator c \<noteq> operator
             then Inl (IdentityErr (''channel '' @ c @ '' reads as operator '' @ reviewer_operator c @
                         '', not '' @ operator))
             else Inr ())
        (\<lambda>_. case bt_get (v_bindings v) (to_hex key) of
               None \<Rightarrow> Inr ()
             | Some bound \<Rightarrow>
                 if is_revoked bound
                 then Inl (IdentityErr (''key '' @ to_hex key @ '' is revoked; bind a fresh key''))
                 else if kb_operator bound \<noteq> operator
                 then Inl (IdentityErr (''key '' @ to_hex key @ '' is already bound to operator '' @
                             kb_operator bound))
                 else Inr ()))"

definition validate_revoke_key :: "view \<Rightarrow> content_hash \<Rightarrow> string \<Rightarrow> view_error + unit" where
  "validate_revoke_key v key reason =
     (if reason = [] then Inl (IdentityErr ''a revocation must carry a non-empty reason'')
      else and_then (ok_or (IdentityErr (''key '' @ to_hex key @ '' is not bound''))
                       (bt_get (v_bindings v) (to_hex key))) (\<lambda>bound.
        if is_revoked bound
        then Inl (IdentityErr (''key '' @ to_hex key @ '' is already revoked''))
        else Inr ()))"

definition validate_vouch :: "view \<Rightarrow> string \<Rightarrow> string \<Rightarrow> view_error + unit" where
  "validate_vouch v voucher subject =
     and_then (validate_vouch_ends v voucher subject) (\<lambda>_.
     refuse_if (vouch_stands v voucher subject)
       (VouchErr (voucher @ '' already vouches for '' @ subject @
          ''; withdraw first to say something else'')))"

definition validate_withdraw_vouch ::
  "view \<Rightarrow> string \<Rightarrow> string \<Rightarrow> string \<Rightarrow> view_error + unit" where
  "validate_withdraw_vouch v voucher subject reason =
     (if reason = [] then Inl (VouchErr ''a withdrawal must carry a non-empty reason'')
      else if \<not> vouch_stands v voucher subject
      then Inl (VouchErr (voucher @ '' does not vouch for '' @ subject))
      else Inr ())"

definition validate_countersign ::
  "('a) view_externals_scheme \<Rightarrow> view \<Rightarrow> string \<Rightarrow> content_hash \<Rightarrow> view_error + unit" where
  "validate_countersign X v witness snapshot =
     (if \<not> is_bound_operator v witness
      then Inl (WitnessErr (''`'' @ witness @ ''` has no live key binding, so it cannot witness''))
      else (case v_latest_snapshot v of
              None \<Rightarrow> Inl (WitnessErr ''there is no ref-state attestation to witness yet'')
            | Some latest \<Rightarrow>
                (let i = snapshot_id X latest in
                 if snapshot \<noteq> i
                 then Inl (WitnessErr (''witness attests '' @ to_hex snapshot @
                        '', the latest attestation is '' @ to_hex i))
                 else if (case bt_get (v_witnessed v) witness of
                            None \<Rightarrow> False | Some state \<Rightarrow> ws_snapshot state = i)
                 then Inl (WitnessErr (''`'' @ witness @
                        ''` has already witnessed this ref-state''))
                 else Inr ())))"

definition debug_hash :: "content_hash option \<Rightarrow> string" where
  "debug_hash h =
     (case h of None \<Rightarrow> ''None''
      | Some x \<Rightarrow> ''Some('' @ [CHR 0x22] @ to_hex x @ [CHR 0x22] @ '')'')"

definition validate_record_ref_snapshot ::
  "('a) view_externals_scheme \<Rightarrow> view \<Rightarrow> ref_snapshot \<Rightarrow> view_error + unit" where
  "validate_record_ref_snapshot X v snapshot =
     (if sn_refs snapshot \<noteq> v_refs v
      then Inl (SnapshotErr ''snapshot does not match the ref-state it claims to attest'')
      else if sn_at_seq snapshot \<noteq> v_next_seq v
      then Inl (SnapshotErr (''snapshot was taken at position '' @ show_nat (sn_at_seq snapshot) @
                  '', the view is at '' @ show_nat (v_next_seq v)))
      else (let expected = map_option (snapshot_id X) (v_latest_snapshot v) in
            if sn_prev_snapshot snapshot \<noteq> expected
            then Inl (SnapshotErr (''snapshot chain expected prev '' @ debug_hash expected @
                        '', op names '' @ debug_hash (sn_prev_snapshot snapshot)))
            else Inr ()))"

definition validate_kind ::
  "('a) view_externals_scheme \<Rightarrow> view \<Rightarrow> op_kind \<Rightarrow> view_error + unit" where
  "validate_kind X v k =
     (case k of
        SetWorkspaceHead workspace commit prev \<Rightarrow> validate_set_workspace_head v workspace prev
      | SetRef name commit prev \<Rightarrow> validate_ref_cas v name prev
      | DeleteRef name prev \<Rightarrow> validate_ref_cas v name prev
      | Submit review name commit prev auth \<Rightarrow> validate_submit_op v review name commit prev auth
      | DeleteWorkspace workspace \<Rightarrow> Inr ()
      | RequestReview i tgt reviewers tref \<Rightarrow> validate_request_review v i
      | AssignReviewers i reviewers \<Rightarrow> validate_assign_reviewers v i reviewers
      | PostVerdict i reviewer vd note \<Rightarrow> validate_post_verdict v i reviewer
      | SlashApproval i reviewer reason \<Rightarrow> validate_slash_approval v i reviewer reason
      | ArchiveReview i lapsed \<Rightarrow> validate_archive_review v i lapsed
      | PostComment i comment author body \<Rightarrow> validate_post_comment v i comment author body
      | ViewedReview i viewer \<Rightarrow> validate_viewed_review v i viewer
      | RecordProvenance subject kind body \<Rightarrow> validate_record_provenance subject kind
      | RecordCheck subject name st evidence reporter tref \<Rightarrow> validate_record_check name reporter
      | CreateChange i owner workspace base key sig cone \<Rightarrow>
          validate_create_change v i owner workspace key
      | CheckpointChange i workspace revision prev \<Rightarrow>
          validate_checkpoint_change v i workspace revision prev
      | ArchiveChange i workspace prev owner sig \<Rightarrow>
          validate_archive_change v i workspace prev owner
      | BindKey operator key chan \<Rightarrow> validate_bind_key v operator key chan
      | RevokeKey key reason \<Rightarrow> validate_revoke_key v key reason
      | Vouch voucher subject note \<Rightarrow> validate_vouch v voucher subject
      | WithdrawVouch voucher subject reason \<Rightarrow> validate_withdraw_vouch v voucher subject reason
      | CountersignSnapshot witness snapshot \<Rightarrow> validate_countersign X v witness snapshot
      | RecordRefSnapshot snapshot \<Rightarrow> validate_record_ref_snapshot X v snapshot)"

definition validate ::
  "('a) view_externals_scheme \<Rightarrow> view \<Rightarrow> view_op \<Rightarrow> view_error + unit" where
  "validate X v vop = validate_kind X v (vo_kind vop)"

section \<open>What an arm admits\<close>

lemma cas_Inr [simp]: "cas a e t = Inr u \<longleftrightarrow> a = e"
  by (simp add: cas_def)

lemma cas_Inl: "cas a e t = Inl err \<longleftrightarrow> a \<noteq> e \<and> err = StaleHead t e a"
  by (auto simp: cas_def)

lemma live_review_Inr [simp]: "live_review v i = Inr r \<longleftrightarrow> bt_get (v_reviews v) i = Some r"
  by (simp add: live_review_def)

lemma is_archived_Live [simp]: "\<not> is_archived r \<longleftrightarrow> rs_status r = Live"
  by (simp add: is_archived_def)

lemma if_Inr [simp]:
  "(if c then Inl e else r) = Inr u \<longleftrightarrow> \<not> c \<and> r = Inr u"
  by simp

lemma case_find_pair_Inr:
  "(case List.find P xs of None \<Rightarrow> r | Some (a, b) \<Rightarrow> Inl (f a)) = Inr u \<longleftrightarrow>
     (\<forall>a b. (a, b) \<in> set xs \<longrightarrow> \<not> P (a, b)) \<and> r = Inr u"
  by (induction xs) auto

lemma validate_set_workspace_head_ok [op_simps]:
  "validate_set_workspace_head v w p = Inr u \<longleftrightarrow> bt_get (v_workspaces v) w = p"
  by (simp add: validate_set_workspace_head_def)

lemma validate_ref_cas_ok [op_simps]:
  "validate_ref_cas v n p = Inr u \<longleftrightarrow> bt_get (v_refs v) n = p"
  by (simp add: validate_ref_cas_def)

lemma validate_request_review_ok [op_simps]:
  "validate_request_review v i = Inr u \<longleftrightarrow> bt_get (v_reviews v) i = None"
  by (simp add: validate_request_review_def bt_contains_def)

lemma validate_assign_reviewers_ok [op_simps]:
  "validate_assign_reviewers v i rs = Inr u \<longleftrightarrow>
     rs \<noteq> [] \<and> (\<exists>r. bt_get (v_reviews v) i = Some r \<and> rs_status r = Live \<and> rs_reviewers r = [])"
  by (simp add: validate_assign_reviewers_def)

lemma validate_post_verdict_ok [op_simps]:
  "validate_post_verdict v i c = Inr u \<longleftrightarrow>
     (\<exists>r. bt_get (v_reviews v) i = Some r \<and> rs_status r = Live \<and> c \<in> set (rs_reviewers r) \<and>
          bt_get (rs_slashes r) c = None)"
  by (auto simp: validate_post_verdict_def bt_contains_def)

lemma validate_slash_approval_ok [op_simps]:
  "validate_slash_approval v i c reason = Inr u \<longleftrightarrow>
     c \<noteq> [] \<and> reason \<noteq> [] \<and>
     (\<exists>r. bt_get (v_reviews v) i = Some r \<and> bt_get (rs_slashes r) c = None \<and>
        (rs_status r = Live \<longrightarrow> c \<in> set (rs_reviewers r) \<and> has_approved r c) \<and>
        (\<forall>ok w. rs_status r = Archived ok w \<longrightarrow> ok \<and> 0 < approval_weight r))"
proof (cases "bt_get (v_reviews v) i")
  case (Some r)
  then show ?thesis
    by (cases "rs_status r") (auto simp: validate_slash_approval_def live_review_def bt_contains_def)
qed (simp add: validate_slash_approval_def live_review_def)

lemma validate_archive_review_ok [op_simps]:
  "validate_archive_review v i lapsed = Inr u \<longleftrightarrow>
     (\<exists>r. bt_get (v_reviews v) i = Some r \<and> rs_status r = Live \<and> complete r = (\<not> lapsed))"
  by (auto simp: validate_archive_review_def)

lemma validate_post_comment_ok [op_simps]:
  "validate_post_comment v i c a b = Inr u \<longleftrightarrow>
     c \<noteq> [] \<and> a \<noteq> [] \<and> b \<noteq> [] \<and>
     (\<exists>r. bt_get (v_reviews v) i = Some r \<and> rs_status r = Live \<and> c \<notin> cm_id ` set (rs_comments r))"
  by (auto simp: validate_post_comment_def list_ex_iff)

lemma validate_viewed_review_ok [op_simps]:
  "validate_viewed_review v i viewer = Inr u \<longleftrightarrow>
     viewer \<noteq> [] \<and>
     (\<exists>r. bt_get (v_reviews v) i = Some r \<and> rs_status r = Live \<and> bt_get (rs_viewed r) viewer = None)"
  by (auto simp: validate_viewed_review_def bt_contains_def)

lemma validate_record_check_ok [op_simps]:
  "validate_record_check n rep = Inr u \<longleftrightarrow> n \<noteq> [] \<and> rep \<noteq> [] \<and> CHR '':'' \<notin> set n"
  by (auto simp: validate_record_check_def)

lemma validate_create_change_ok [op_simps]:
  "validate_create_change v i ow w key = Inr u \<longleftrightarrow>
     i \<noteq> [] \<and> ow \<noteq> [] \<and> w \<noteq> [] \<and> key \<noteq> [] \<and>
     bt_get (v_changes v) i = None \<and> bt_get (v_workspaces v) w = None \<and>
     (\<forall>j c. bt_get (v_changes v) j = Some c \<longrightarrow>
        \<not> (cg_workspace_id c = w \<and> cg_active_workspace c = Some w) \<and>
        \<not> (cg_owner c = ow \<and> cg_idempotency_key c = key))"
  by (auto simp: validate_create_change_def bt_contains_def case_find_pair_Inr bt_items_iff)

lemma validate_checkpoint_change_ok [op_simps]:
  "validate_checkpoint_change v i w rvn p = Inr u \<longleftrightarrow>
     i \<noteq> [] \<and> w \<noteq> [] \<and> rvn \<noteq> p \<and> bt_get (v_workspaces v) w = Some p \<and>
     (\<exists>c. bt_get (v_changes v) i = Some c \<and> cg_active_workspace c = Some w \<and> cg_revision_id c = p)"
  by (auto simp: validate_checkpoint_change_def)

lemma validate_archive_change_ok [op_simps]:
  "validate_archive_change v i w p ow = Inr u \<longleftrightarrow>
     i \<noteq> [] \<and> w \<noteq> [] \<and> ow \<noteq> [] \<and> bt_get (v_workspaces v) w = Some p \<and>
     (\<exists>c. bt_get (v_changes v) i = Some c \<and> cg_active_workspace c = Some w \<and>
          cg_revision_id c = p \<and> cg_owner c = ow)"
  by (auto simp: validate_archive_change_def)

lemma validate_bind_key_ok [op_simps]:
  "validate_bind_key v opr key chan = Inr u \<longleftrightarrow>
     opr \<noteq> [] \<and> CHR ''/'' \<notin> set opr \<and>
     (\<forall>c. chan = Some c \<longrightarrow> c \<noteq> [] \<and> reviewer_operator c = opr) \<and>
     (\<forall>b. bt_get (v_bindings v) (to_hex key) = Some b \<longrightarrow>
        kb_revoked b = None \<and> kb_operator b = opr)"
  by (auto simp: validate_bind_key_def is_revoked_def split: option.splits if_splits)

lemma validate_revoke_key_ok [op_simps]:
  "validate_revoke_key v key reason = Inr u \<longleftrightarrow>
     reason \<noteq> [] \<and> (\<exists>b. bt_get (v_bindings v) (to_hex key) = Some b \<and> kb_revoked b = None)"
  by (auto simp: validate_revoke_key_def is_revoked_def)

lemma is_bound_operator_iff:
  "is_bound_operator v opr \<longleftrightarrow>
     (\<exists>k b. bt_get (v_bindings v) k = Some b \<and> kb_operator b = opr \<and> kb_revoked b = None)"
  by (auto simp: is_bound_operator_def list_ex_iff bt_values_iff is_revoked_def Bex_def)

lemma vouch_stands_iff:
  "vouch_stands v a b \<longleftrightarrow>
     (\<exists>from s. bt_get (v_vouches v) b = Some from \<and> bt_get from a = Some s)"
  by (auto simp: vouch_stands_def bt_contains_def split: option.splits)

lemma validate_vouch_end_ok [op_simps]:
  "validate_vouch_end v role n = Inr u \<longleftrightarrow>
     n \<noteq> [] \<and> CHR ''/'' \<notin> set n \<and> is_bound_operator v n"
  by (auto simp: validate_vouch_end_def)

lemma validate_vouch_ok [op_simps]:
  "validate_vouch v a b = Inr u \<longleftrightarrow>
     a \<noteq> b \<and> a \<noteq> [] \<and> b \<noteq> [] \<and> CHR ''/'' \<notin> set a \<and> CHR ''/'' \<notin> set b \<and>
     is_bound_operator v a \<and> is_bound_operator v b \<and> \<not> vouch_stands v a b"
  by (auto simp: validate_vouch_def validate_vouch_ends_def validate_vouch_end_ok)

lemma validate_withdraw_vouch_ok [op_simps]:
  "validate_withdraw_vouch v a b reason = Inr u \<longleftrightarrow> reason \<noteq> [] \<and> vouch_stands v a b"
  by (auto simp: validate_withdraw_vouch_def)

lemma validate_countersign_ok [op_simps]:
  "validate_countersign X v w s = Inr u \<longleftrightarrow>
     is_bound_operator v w \<and>
     (\<exists>latest. v_latest_snapshot v = Some latest \<and> s = snapshot_id X latest) \<and>
     (\<forall>st. bt_get (v_witnessed v) w = Some st \<longrightarrow> ws_snapshot st \<noteq> s)"
  by (auto simp: validate_countersign_def Let_def split: option.splits if_splits)

lemma validate_record_ref_snapshot_ok [op_simps]:
  "validate_record_ref_snapshot X v s = Inr u \<longleftrightarrow>
     sn_refs s = v_refs v \<and> sn_at_seq s = v_next_seq v \<and>
     sn_prev_snapshot s = map_option (snapshot_id X) (v_latest_snapshot v)"
  by (auto simp: validate_record_ref_snapshot_def Let_def)

lemma validate_submit_ok [op_simps]:
  "validate_submit v review name commit auth = Inr u \<longleftrightarrow>
     (\<exists>r. bt_get (v_reviews v) review = Some r \<and> rs_status r = Live \<and>
          rs_target_ref r = Some name \<and> rs_target r = Some commit \<and>
          rederived_approvers v review r (au_basis auth) = Inr (au_approvers auth))"
  by (auto simp: validate_submit_def)

lemma validate_submit_op_ok [op_simps]:
  "validate_submit_op v review name commit prev auth = Inr u \<longleftrightarrow>
     bt_get (v_refs v) name = prev \<and> validate_submit v review name commit auth = Inr ()"
  by (auto simp: validate_submit_op_def)

end
