(* ===== verification/View_Apply.thy ===== *)
theory View_Apply
  imports View_Validate
begin

text \<open>
  \<open>View::apply\<close> of \<open>crates/choir-view/src/lib.rs\<close> with one definition per arm of its match, the
  reads of checks, and the folds over a log: \<open>View::at\<close>, \<open>View::materialize\<close> and \<open>append_op\<close>. A
  method on \<open>&mut self\<close> returns its result with the state it leaves; the \<open>.expect\<close> of an arm is
  \<open>None\<close>, and the lemmas show that none of them is reached.
\<close>

section \<open>The arms of \<open>apply\<close>\<close>

text \<open>\<open>self.reviews.get_mut(id).expect(..)\<close> and the same for a change and a binding.\<close>

definition with_review :: "view \<Rightarrow> string \<Rightarrow> (review_state \<Rightarrow> review_state) \<Rightarrow> view option" where
  "with_review v i f =
     map_option (\<lambda>r. v\<lparr>v_reviews := bt_insert i (f r) (v_reviews v)\<rparr>) (bt_get (v_reviews v) i)"

definition with_change :: "view \<Rightarrow> string \<Rightarrow> (change_state \<Rightarrow> change_state) \<Rightarrow> view option" where
  "with_change v i f =
     map_option (\<lambda>c. v\<lparr>v_changes := bt_insert i (f c) (v_changes v)\<rparr>) (bt_get (v_changes v) i)"

definition detach :: "string \<Rightarrow> change_state \<Rightarrow> change_state" where
  "detach workspace c =
     (if cg_active_workspace c = Some workspace then c\<lparr>cg_active_workspace := None\<rparr> else c)"

definition apply_set_workspace_head :: "view \<Rightarrow> string \<Rightarrow> content_hash \<Rightarrow> view" where
  "apply_set_workspace_head v workspace commit =
     v\<lparr>v_changes := bt_map (detach workspace) (v_changes v),
       v_workspaces := bt_insert workspace commit (v_workspaces v)\<rparr>"

definition apply_set_ref :: "view \<Rightarrow> string \<Rightarrow> content_hash \<Rightarrow> view" where
  "apply_set_ref v name commit = v\<lparr>v_refs := bt_insert name commit (v_refs v)\<rparr>"

definition apply_submit :: "view \<Rightarrow> string \<Rightarrow> content_hash \<Rightarrow> view" where
  "apply_submit v name commit = v\<lparr>v_refs := bt_insert name commit (v_refs v)\<rparr>"

definition apply_delete_workspace :: "view \<Rightarrow> string \<Rightarrow> view" where
  "apply_delete_workspace v workspace =
     v\<lparr>v_workspaces := bt_remove workspace (v_workspaces v),
       v_changes := bt_map (detach workspace) (v_changes v)\<rparr>"

definition apply_request_review ::
  "view \<Rightarrow> string \<Rightarrow> content_hash \<Rightarrow> string list \<Rightarrow> string option \<Rightarrow> view" where
  "apply_request_review v i tgt reviewers tref =
     v\<lparr>v_reviews := bt_insert i (requested_review tgt reviewers tref) (v_reviews v)\<rparr>"

definition apply_assign_reviewers :: "view \<Rightarrow> string \<Rightarrow> string list \<Rightarrow> view option" where
  "apply_assign_reviewers v i reviewers =
     with_review v i (\<lambda>r. r\<lparr>rs_reviewers := reviewers\<rparr>)"

definition apply_archive_review :: "view \<Rightarrow> string \<Rightarrow> bool \<Rightarrow> view option" where
  "apply_archive_review v i lapsed = with_review v i (\<lambda>r. archived_review r lapsed)"

definition apply_post_verdict ::
  "view \<Rightarrow> string \<Rightarrow> string \<Rightarrow> verdict \<Rightarrow> string \<Rightarrow> view option" where
  "apply_post_verdict v i reviewer vd note =
     (let at = v_next_seq v in
      with_review v i (\<lambda>r. r\<lparr>rs_verdicts :=
        bt_insert reviewer \<lparr>vd_verdict = vd, vd_note = note, vd_at = at\<rparr> (rs_verdicts r)\<rparr>))"

definition apply_slash_approval :: "view \<Rightarrow> string \<Rightarrow> string \<Rightarrow> string \<Rightarrow> view option" where
  "apply_slash_approval v i reviewer reason =
     with_review v i (\<lambda>r. r\<lparr>rs_slashes := bt_insert reviewer reason (rs_slashes r)\<rparr>)"

definition apply_post_comment ::
  "view \<Rightarrow> string \<Rightarrow> string \<Rightarrow> string \<Rightarrow> string \<Rightarrow> view option" where
  "apply_post_comment v i comment author body =
     (let at = v_next_seq v in
      with_review v i (\<lambda>r. r\<lparr>rs_comments := rs_comments r @
        [\<lparr>cm_id = comment, cm_author = author, cm_body = body, cm_at = at\<rparr>]\<rparr>))"

definition apply_viewed_review :: "view \<Rightarrow> string \<Rightarrow> string \<Rightarrow> view option" where
  "apply_viewed_review v i viewer =
     (let at = v_next_seq v in
      with_review v i (\<lambda>r. r\<lparr>rs_viewed := bt_insert viewer at (rs_viewed r)\<rparr>))"

definition check_key :: "content_hash \<Rightarrow> string \<Rightarrow> string" where
  "check_key subject name = to_hex subject @ CHR '':'' # name"

definition apply_record_check ::
  "view \<Rightarrow> content_hash \<Rightarrow> string \<Rightarrow> check_status \<Rightarrow> string \<Rightarrow> string \<Rightarrow> string option \<Rightarrow> view" where
  "apply_record_check v subject name st evidence reporter tref =
     v\<lparr>v_checks := bt_insert (check_key subject name)
         \<lparr>ck_status = st, ck_evidence = evidence, ck_reporter = reporter, ck_target_ref = tref\<rparr>
         (v_checks v)\<rparr>"

text \<open>\<open>map.entry(k).or_default()\<close>\<close>

definition or_default :: "('k::linorder, ('j::linorder, 'w) btmap) btmap \<Rightarrow> 'k \<Rightarrow> ('j, 'w) btmap" where
  "or_default m k = (case bt_get m k of None \<Rightarrow> bt_empty | Some x \<Rightarrow> x)"

definition apply_record_provenance :: "view \<Rightarrow> string \<Rightarrow> string \<Rightarrow> string \<Rightarrow> view" where
  "apply_record_provenance v subject kind body =
     v\<lparr>v_provenance :=
         bt_insert subject (bt_insert kind body (or_default (v_provenance v) subject))
           (v_provenance v)\<rparr>"

definition apply_delete_ref :: "view \<Rightarrow> string \<Rightarrow> view" where
  "apply_delete_ref v name = v\<lparr>v_refs := bt_remove name (v_refs v)\<rparr>"

definition apply_create_change ::
  "view \<Rightarrow> string \<Rightarrow> string \<Rightarrow> string \<Rightarrow> content_hash \<Rightarrow> string \<Rightarrow> string list \<Rightarrow> view" where
  "apply_create_change v i owner workspace base key cone =
     v\<lparr>v_workspaces := bt_insert workspace base (v_workspaces v),
       v_changes := bt_insert i
         \<lparr>cg_owner = owner, cg_workspace_id = workspace, cg_active_workspace = Some workspace,
          cg_base_revision = base, cg_revision_id = base, cg_idempotency_key = key,
          cg_cone = cone\<rparr> (v_changes v)\<rparr>"

definition apply_checkpoint_change ::
  "view \<Rightarrow> string \<Rightarrow> string \<Rightarrow> content_hash \<Rightarrow> view option" where
  "apply_checkpoint_change v i workspace revision =
     with_change (v\<lparr>v_workspaces := bt_insert workspace revision (v_workspaces v)\<rparr>) i
       (\<lambda>c. c\<lparr>cg_revision_id := revision\<rparr>)"

definition apply_archive_change :: "view \<Rightarrow> string \<Rightarrow> string \<Rightarrow> view option" where
  "apply_archive_change v i workspace =
     with_change (v\<lparr>v_workspaces := bt_remove workspace (v_workspaces v)\<rparr>) i
       (\<lambda>c. c\<lparr>cg_active_workspace := None\<rparr>)"

definition apply_bind_key ::
  "view \<Rightarrow> string \<Rightarrow> content_hash \<Rightarrow> string option \<Rightarrow> view" where
  "apply_bind_key v operator key chan =
     (let at = v_next_seq v in
      v\<lparr>v_bindings := bt_insert (to_hex key)
          (case bt_get (v_bindings v) (to_hex key) of
             Some bound \<Rightarrow> bound\<lparr>kb_channel := chan\<rparr>
           | None \<Rightarrow> \<lparr>kb_operator = operator, kb_channel = chan, kb_bound_at = at,
                      kb_revoked = None\<rparr>)
          (v_bindings v)\<rparr>)"

definition apply_revoke_key :: "view \<Rightarrow> content_hash \<Rightarrow> string \<Rightarrow> view option" where
  "apply_revoke_key v key reason =
     (let at = v_next_seq v in
      map_option
        (\<lambda>b. v\<lparr>v_bindings := bt_insert (to_hex key)
           (b\<lparr>kb_revoked := Some \<lparr>rv_at = at, rv_reason = reason\<rparr>\<rparr>) (v_bindings v)\<rparr>)
        (bt_get (v_bindings v) (to_hex key)))"

definition apply_vouch :: "view \<Rightarrow> string \<Rightarrow> string \<Rightarrow> string \<Rightarrow> view" where
  "apply_vouch v voucher subject note =
     (let at = v_next_seq v in
      v\<lparr>v_vouches := bt_insert subject
          (bt_insert voucher \<lparr>vs_at = at, vs_note = note\<rparr> (or_default (v_vouches v) subject))
          (v_vouches v)\<rparr>)"

definition apply_withdraw_vouch :: "view \<Rightarrow> string \<Rightarrow> string \<Rightarrow> view" where
  "apply_withdraw_vouch v voucher subject =
     (case bt_get (v_vouches v) subject of
        None \<Rightarrow> v
      | Some from \<Rightarrow>
          let left = bt_remove voucher from in
          if bt_is_empty left
          then v\<lparr>v_vouches := bt_remove subject (v_vouches v)\<rparr>
          else v\<lparr>v_vouches := bt_insert subject left (v_vouches v)\<rparr>)"

definition apply_countersign :: "view \<Rightarrow> string \<Rightarrow> content_hash \<Rightarrow> view" where
  "apply_countersign v witness snapshot =
     v\<lparr>v_witnessed := bt_insert witness \<lparr>ws_snapshot = snapshot, ws_at = v_next_seq v\<rparr>
         (v_witnessed v)\<rparr>"

definition apply_record_ref_snapshot :: "view \<Rightarrow> ref_snapshot \<Rightarrow> view" where
  "apply_record_ref_snapshot v snapshot = v\<lparr>v_latest_snapshot := Some snapshot\<rparr>"

section \<open>\<open>apply\<close>\<close>

definition apply_kind :: "view \<Rightarrow> op_kind \<Rightarrow> view option" where
  "apply_kind v k =
     (case k of
        SetWorkspaceHead workspace commit prev \<Rightarrow> Some (apply_set_workspace_head v workspace commit)
      | SetRef name commit prev \<Rightarrow> Some (apply_set_ref v name commit)
      | Submit review name commit prev auth \<Rightarrow> Some (apply_submit v name commit)
      | DeleteWorkspace workspace \<Rightarrow> Some (apply_delete_workspace v workspace)
      | RequestReview i tgt reviewers tref \<Rightarrow> Some (apply_request_review v i tgt reviewers tref)
      | AssignReviewers i reviewers \<Rightarrow> apply_assign_reviewers v i reviewers
      | ArchiveReview i lapsed \<Rightarrow> apply_archive_review v i lapsed
      | PostVerdict i reviewer vd note \<Rightarrow> apply_post_verdict v i reviewer vd note
      | SlashApproval i reviewer reason \<Rightarrow> apply_slash_approval v i reviewer reason
      | PostComment i comment author body \<Rightarrow> apply_post_comment v i comment author body
      | ViewedReview i viewer \<Rightarrow> apply_viewed_review v i viewer
      | RecordCheck subject name st evidence reporter tref \<Rightarrow>
          Some (apply_record_check v subject name st evidence reporter tref)
      | RecordProvenance subject kind body \<Rightarrow> Some (apply_record_provenance v subject kind body)
      | DeleteRef name prev \<Rightarrow> Some (apply_delete_ref v name)
      | CreateChange i owner workspace base key sig cone \<Rightarrow>
          Some (apply_create_change v i owner workspace base key cone)
      | CheckpointChange i workspace revision prev \<Rightarrow> apply_checkpoint_change v i workspace revision
      | ArchiveChange i workspace prev owner sig \<Rightarrow> apply_archive_change v i workspace
      | BindKey operator key chan \<Rightarrow> Some (apply_bind_key v operator key chan)
      | RevokeKey key reason \<Rightarrow> apply_revoke_key v key reason
      | Vouch voucher subject note \<Rightarrow> Some (apply_vouch v voucher subject note)
      | WithdrawVouch voucher subject reason \<Rightarrow> Some (apply_withdraw_vouch v voucher subject)
      | CountersignSnapshot witness snapshot \<Rightarrow> Some (apply_countersign v witness snapshot)
      | RecordRefSnapshot snapshot \<Rightarrow> Some (apply_record_ref_snapshot v snapshot))"

definition apply_view ::
  "('a) view_externals_scheme \<Rightarrow> view \<Rightarrow> view_op \<Rightarrow> ((view_error + unit) \<times> view) option" where
  "apply_view X v vop =
     (case validate X v vop of
        Inl e \<Rightarrow> Some (Inl e, v)
      | Inr _ \<Rightarrow>
          map_option (\<lambda>v'. (Inr (), v'\<lparr>v_next_seq := v_next_seq v' + 1\<rparr>))
            (apply_kind v (vo_kind vop)))"

section \<open>Reads of checks\<close>

definition checks_for :: "view \<Rightarrow> content_hash \<Rightarrow> (string \<times> check_state) list" where
  "checks_for v subject =
     (let prefix = to_hex subject @ [CHR '':''] in
      List.map_filter
        (\<lambda>(key, state). map_option (\<lambda>(_, name). (name, state)) (split_once (CHR '':'') key))
        (takeWhile (\<lambda>(key, _). is_prefix prefix key)
           (dropWhile (\<lambda>(key, _). key < prefix) (bt_items (v_checks v)))))"

definition checks_verdict :: "view \<Rightarrow> content_hash \<Rightarrow> check_status option" where
  "checks_verdict v subject =
     (let states = checks_for v subject in
      if states = [] then None
      else if list_ex (\<lambda>(_, s). ck_status s = Failed) states then Some Failed
      else if list_ex (\<lambda>(_, s). ck_status s = Errored) states then Some Errored
      else if list_ex (\<lambda>(_, s). ck_status s = Running) states then Some Running
      else Some Passed)"

section \<open>Folding a log\<close>

text \<open>
  The loop of \<open>View::at\<close> over the sequence numbers; a log that has no entry below its length is the
  panic \<open>seq < len\<close>.
\<close>

fun fold_reads ::
  "('a) view_externals_scheme \<Rightarrow> (nat \<Rightarrow> op_entry option) \<Rightarrow> nat list \<Rightarrow> view \<Rightarrow>
   (view_error + view) option" where
  "fold_reads X nth_of [] v = Some (Inr v)"
| "fold_reads X nth_of (seq # seqs) v =
     (case nth_of seq of
        None \<Rightarrow> None
      | Some entry \<Rightarrow>
          (case from_payload X (e_payload entry) of
             Inl e \<Rightarrow> Some (Inl e)
           | Inr vop \<Rightarrow>
               (case apply_view X v vop of
                  None \<Rightarrow> None
                | Some (Inl e, _) \<Rightarrow> Some (Inl e)
                | Some (Inr _, v') \<Rightarrow> fold_reads X nth_of seqs v')))"

definition view_at ::
  "('a) view_externals_scheme \<Rightarrow> nat \<Rightarrow> (nat \<Rightarrow> op_entry option) \<Rightarrow> nat \<Rightarrow>
   (view_error + view) option" where
  "view_at X len nth_of bound = fold_reads X nth_of [0..<min bound len] default_view"

definition materialize ::
  "('a) view_externals_scheme \<Rightarrow> nat \<Rightarrow> (nat \<Rightarrow> op_entry option) \<Rightarrow> (view_error + view) option" where
  "materialize X len nth_of = view_at X len nth_of len"

text \<open>The entry \<open>append_op\<close> builds, and \<open>append_op\<close> over any log with the operations of \<open>OpLog\<close>.\<close>

definition op_entry_of ::
  "('a) view_externals_scheme \<Rightarrow> content_hash option \<Rightarrow> nat \<Rightarrow> string \<Rightarrow> view_op \<Rightarrow> op_entry" where
  "op_entry_of X head len submitter vop =
     \<lparr>e_format_version = format_version_1, e_parent = head, e_seq = len, e_channel = submitter,
      e_payload = to_payload X vop, e_witnesses = [], e_author_sig = None\<rparr>"

definition append_op ::
  "('a) view_externals_scheme \<Rightarrow> ('l \<Rightarrow> op_entry \<Rightarrow> (log_error + content_hash) \<times> 'l) \<Rightarrow>
   ('l \<Rightarrow> content_hash option) \<Rightarrow> ('l \<Rightarrow> nat) \<Rightarrow> ('l \<Rightarrow> nat \<Rightarrow> op_entry option) \<Rightarrow>
   'l \<Rightarrow> string \<Rightarrow> view_op \<Rightarrow> ((view_error + content_hash) \<times> 'l) option" where
  "append_op X app hd_of len nth_of log submitter vop =
     (case materialize X (len log) (nth_of log) of
        None \<Rightarrow> None
      | Some (Inl e) \<Rightarrow> Some (Inl e, log)
      | Some (Inr v) \<Rightarrow>
          (case apply_view X v vop of
             None \<Rightarrow> None
           | Some (Inl e, _) \<Rightarrow> Some (Inl e, log)
           | Some (Inr _, _) \<Rightarrow>
               (case app log (op_entry_of X (hd_of log) (len log) submitter vop) of
                  (r, log') \<Rightarrow> Some (map_err LogErr r, log'))))"

section \<open>No panic, and what a result says\<close>

lemma with_review_Some [simp]:
  "with_review v i f = Some w \<longleftrightarrow>
     (\<exists>r. bt_get (v_reviews v) i = Some r \<and> w = v\<lparr>v_reviews := bt_insert i (f r) (v_reviews v)\<rparr>)"
  by (auto simp: with_review_def)

lemma with_change_Some [simp]:
  "with_change v i f = Some w \<longleftrightarrow>
     (\<exists>c. bt_get (v_changes v) i = Some c \<and> w = v\<lparr>v_changes := bt_insert i (f c) (v_changes v)\<rparr>)"
  by (auto simp: with_change_def)

lemma with_None [simp]:
  "with_review v i f = None \<longleftrightarrow> bt_get (v_reviews v) i = None"
  "with_change v i g = None \<longleftrightarrow> bt_get (v_changes v) i = None"
  by (simp_all add: with_review_def with_change_def)

lemmas apply_arms =
  apply_set_workspace_head_def apply_set_ref_def apply_submit_def apply_delete_workspace_def
  apply_request_review_def apply_assign_reviewers_def apply_archive_review_def
  apply_post_verdict_def apply_slash_approval_def apply_post_comment_def apply_viewed_review_def
  apply_record_check_def apply_record_provenance_def apply_delete_ref_def apply_create_change_def
  apply_checkpoint_change_def apply_archive_change_def apply_bind_key_def apply_revoke_key_def
  apply_vouch_def apply_withdraw_vouch_def apply_countersign_def apply_record_ref_snapshot_def

lemma validate_kind_no_panic:
  assumes "validate_kind X v k = Inr u"
  shows "apply_kind v k \<noteq> None"
  using assms
  by (cases k) (auto simp: validate_kind_def apply_kind_def apply_arms op_simps Let_def)

lemma apply_kind_next_seq: "apply_kind v k = Some w \<Longrightarrow> v_next_seq w = v_next_seq v"
  by (cases k) (auto simp: apply_kind_def apply_arms Let_def split: option.splits if_splits)

lemma apply_view_None: "apply_view X v vop \<noteq> None"
  using validate_kind_no_panic [of X v "vo_kind vop"]
  by (auto simp: apply_view_def validate_def split: sum.splits)

lemma apply_view_Inr:
  "apply_view X v vop = Some (Inr u, v') \<longleftrightarrow>
     validate_kind X v (vo_kind vop) = Inr () \<and>
     (\<exists>w. apply_kind v (vo_kind vop) = Some w \<and> v' = w\<lparr>v_next_seq := v_next_seq v + 1\<rparr>)"
  by (auto simp: apply_view_def validate_def apply_kind_next_seq split: sum.splits)

lemma apply_view_Inl:
  "apply_view X v vop = Some (Inl e, v') \<longleftrightarrow> validate_kind X v (vo_kind vop) = Inl e \<and> v' = v"
  by (auto simp: apply_view_def validate_def split: sum.splits)

lemma apply_view_cases:
  obtains (rejected) e where "apply_view X v vop = Some (Inl e, v)"
  | (applied) v' where "apply_view X v vop = Some (Inr (), v')"
proof (cases "apply_view X v vop")
  case None
  then show ?thesis using apply_view_None by blast
next
  case (Some p)
  then show ?thesis
  proof (cases "fst p")
    case (Inl e)
    then have "apply_view X v vop = Some (Inl e, snd p)" using Some by (metis prod.collapse)
    then show ?thesis using rejected by (simp add: apply_view_Inl)
  next
    case (Inr u)
    then have "apply_view X v vop = Some (Inr (), snd p)" using Some by (metis prod.collapse unit.exhaust)
    then show ?thesis by (rule applied)
  qed
qed

text \<open>The states a view can be in: what applied operations produce from \<open>View::default()\<close>.\<close>

inductive reachable :: "('a) view_externals_scheme \<Rightarrow> view \<Rightarrow> bool" for X where
  reachable_init: "reachable X default_view"
| reachable_step: "reachable X v \<Longrightarrow> apply_view X v vop = Some (Inr (), v') \<Longrightarrow> reachable X v'"

text \<open>An invariant of the arms is an invariant of the reachable views.\<close>

lemma reachable_invariant:
  assumes "reachable X v"
    and "I default_view"
    and "\<And>v k w. I v \<Longrightarrow> reachable X v \<Longrightarrow> validate_kind X v k = Inr () \<Longrightarrow> apply_kind v k = Some w \<Longrightarrow>
      I (w\<lparr>v_next_seq := v_next_seq v + 1\<rparr>)"
  shows "I v"
  using assms(1) by induction (use assms(2,3) in \<open>auto simp: apply_view_Inr\<close>)

section \<open>Replay\<close>

lemma fold_reads_None: "(\<forall>i \<in> set is. nth_of i \<noteq> None) \<Longrightarrow> fold_reads X nth_of is v \<noteq> None"
proof (induction "is" arbitrary: v)
  case (Cons i "is")
  then obtain e where e: "nth_of i = Some e" by auto
  show ?case
  proof (cases "from_payload X (e_payload e)")
    case (Inr vop)
    then show ?thesis
      using Cons e by (cases rule: apply_view_cases [of X v vop]) auto
  qed (simp add: e)
qed simp

lemma fold_reads_append:
  "fold_reads X nth_of (is @ js) v =
     (case fold_reads X nth_of is v of
        Some (Inr w) \<Rightarrow> fold_reads X nth_of js w | r \<Rightarrow> r)"
  by (induction "is" arbitrary: v) (auto split: option.splits sum.splits)

lemma fold_reads_cong:
  "(\<And>i. i \<in> set is \<Longrightarrow> f i = g i) \<Longrightarrow> fold_reads X f is v = fold_reads X g is v"
  by (induction "is" arbitrary: v) (auto split: option.splits sum.splits)

lemma fold_reads_reachable:
  "reachable X v \<Longrightarrow> fold_reads X nth_of is v = Some (Inr w) \<Longrightarrow> reachable X w"
proof (induction "is" arbitrary: v)
  case (Cons i "is")
  then show ?case
    by (auto split: option.splits sum.splits dest: reachable_step)
qed simp

lemma fold_reads_next_seq:
  "fold_reads X nth_of is v = Some (Inr w) \<Longrightarrow> v_next_seq w = v_next_seq v + length is"
proof (induction "is" arbitrary: v)
  case (Cons i "is")
  then show ?case
    by (force simp: apply_view_Inr split: option.splits sum.splits)
qed simp

lemma view_at_reachable: "view_at X n nth_of b = Some (Inr v) \<Longrightarrow> reachable X v"
  using fold_reads_reachable [OF reachable_init] by (auto simp: view_at_def)

lemma view_at_next_seq: "view_at X n nth_of b = Some (Inr v) \<Longrightarrow> v_next_seq v = min b n"
  using fold_reads_next_seq by (fastforce simp: view_at_def default_view_def)

end
