(* ===== verification/View_Replay.thy ===== *)
theory View_Replay
  imports View_Apply
begin

text \<open>
  \<open>append_op\<close> of \<open>crates/choir-view/src/lib.rs\<close> over any log backend, proved once for the locale
  \<open>op_log\<close>: a log that operations were appended to through \<open>append_op\<close> always replays, to the
  view the operations were admitted against. \<open>mem_append_op\<close> is its instance on \<open>MemLog\<close>.
  \<open>serde_json\<close> is used through one fact, stated where it is used: an operation that was serialized
  parses back to itself.
\<close>

section \<open>Any backend\<close>

definition serde_op :: "('a) view_externals_scheme \<Rightarrow> view_op \<Rightarrow> bool" where
  "serde_op X vop \<longleftrightarrow> from_payload X (to_payload X vop) = Inr vop"

text \<open>Submissions one after the other; each failure leaves the log of its attempt.\<close>

fun submit_all ::
  "('l \<Rightarrow> string \<Rightarrow> view_op \<Rightarrow> ((view_error + content_hash) \<times> 'l) option) \<Rightarrow>
   'l \<Rightarrow> (string \<times> view_op) list \<Rightarrow> 'l option" where
  "submit_all f l [] = Some l"
| "submit_all f l ((s, vop) # subs) =
     (case f l s vop of None \<Rightarrow> None | Some (_, l') \<Rightarrow> submit_all f l' subs)"

text \<open>No append of the submissions failed in the log; a refusal by the view is not a failed append.\<close>

fun is_log_error :: "view_error + 'a \<Rightarrow> bool" where
  "is_log_error (Inl (LogErr e)) = True"
| "is_log_error _ = False"

fun no_failed_append ::
  "('l \<Rightarrow> string \<Rightarrow> view_op \<Rightarrow> ((view_error + content_hash) \<times> 'l) option) \<Rightarrow>
   'l \<Rightarrow> (string \<times> view_op) list \<Rightarrow> bool" where
  "no_failed_append f l [] = True"
| "no_failed_append f l ((s, vop) # subs) =
     (case f l s vop of None \<Rightarrow> True | Some (r, l') \<Rightarrow> \<not> is_log_error r \<and> no_failed_append f l' subs)"

context op_log
begin

abbreviation mat :: "('a) view_externals_scheme \<Rightarrow> 'l \<Rightarrow> (view_error + view) option" where
  "mat X l \<equiv> materialize X (len l) (nth_of l)"

abbreviation app_op ::
  "('a) view_externals_scheme \<Rightarrow> 'l \<Rightarrow> string \<Rightarrow> view_op \<Rightarrow> ((view_error + content_hash) \<times> 'l) option"
  where "app_op X \<equiv> append_op X app hd_of len nth_of"

lemma view_at_no_panic: "ok l \<Longrightarrow> view_at X (len l) (nth_of l) b \<noteq> None"
  unfolding view_at_def using len_es nth_es by (intro fold_reads_None) auto

lemma view_at_append:
  assumes "ok l" "app l e = (Inr h, l')" "b \<le> len l"
  shows "view_at X (len l') (nth_of l') b = view_at X (len l) (nth_of l) b"
proof -
  have "min b (len l') = b" "min b (len l) = b" using app_len [OF assms(1,2)] assms(3) by auto
  moreover have "fold_reads X (nth_of l') [0..<b] v = fold_reads X (nth_of l) [0..<b] v" for v
    using app_get_old [OF assms(1,2)] assms(3) by (intro fold_reads_cong) auto
  ultimately show ?thesis by (simp add: view_at_def)
qed

lemma mat_append:
  assumes "ok l" "app l e = (Inr h, l')" "mat X l = Some (Inr v)"
    and "from_payload X (e_payload e) = Inr vop" "apply_view X v vop = Some (Inr (), v')"
  shows "mat X l' = Some (Inr v')"
proof -
  have "fold_reads X (nth_of l') [0..<len l] default_view = Some (Inr v)"
    using view_at_append [OF assms(1,2), of "len l" X] assms(3) app_len [OF assms(1,2)]
    by (simp add: materialize_def view_at_def)
  then show ?thesis
    using app_get_new [OF assms(1,2)] app_len [OF assms(1,2)] assms(4,5)
    by (simp add: materialize_def view_at_def fold_reads_append)
qed

lemma mat_eq_entries: "ok l \<Longrightarrow> ok l' \<Longrightarrow> es l' = es l \<Longrightarrow> mat X l' = mat X l"
  unfolding materialize_def view_at_def
  using len_es [of l] len_es [of l'] nth_es [of l] nth_es [of l'] by (auto intro!: fold_reads_cong)

lemma app_op_no_panic: "ok l \<Longrightarrow> app_op X l s vop \<noteq> None"
  using view_at_no_panic [of l X "len l"]
  by (auto simp: append_op_def materialize_def apply_view_None
      split: option.splits sum.splits prod.splits)

lemma app_op_Inr:
  assumes "app_op X l s vop = Some (Inr h, l')"
  obtains v v' where "mat X l = Some (Inr v)" "apply_view X v vop = Some (Inr (), v')"
    "app l (op_entry_of X (hd_of l) (len l) s vop) = (Inr h, l')"
  using assms
  by (auto simp: append_op_def split: option.splits sum.splits prod.splits elim!: map_err.elims)

lemma app_op_rejected:
  assumes "mat X l = Some (Inr v)" "apply_view X v vop = Some (Inl e, w)"
  shows "app_op X l s vop = Some (Inl e, l)"
  using assms by (simp add: append_op_def)

text \<open>A successful append leaves a log that replays, to the view with the operation applied.\<close>

lemma app_op_replays:
  assumes "ok l" "serde_op X vop" "app_op X l s vop = Some (Inr h, l')"
  shows "\<exists>v v'. mat X l = Some (Inr v) \<and> apply_view X v vop = Some (Inr (), v') \<and>
      mat X l' = Some (Inr v') \<and> ok l' \<and> es l' = es l @ [op_entry_of X (hd_of l) (len l) s vop] \<and>
      hd_of l' = Some h"
proof -
  obtain v v' where v: "mat X l = Some (Inr v)" "apply_view X v vop = Some (Inr (), v')"
    and a: "app l (op_entry_of X (hd_of l) (len l) s vop) = (Inr h, l')"
    using app_op_Inr [OF assms(3)] .
  have "mat X l' = Some (Inr v')"
    using mat_append [OF assms(1) a v(1) _ v(2)] assms(2) by (simp add: serde_op_def op_entry_of_def)
  then show ?thesis using v a app_Inr [OF assms(1) a] app_head [OF assms(1) a] by blast
qed

lemma app_op_Inl_cases:
  assumes "app_op X l s vop = Some (Inl err, l')"
  shows "l' = l \<or> (\<exists>e. err = LogErr e \<and> app l (op_entry_of X (hd_of l) (len l) s vop) = (Inl e, l'))"
  using assms
  by (auto simp: append_op_def split: option.splits sum.splits prod.splits elim!: map_err.elims)

text \<open>A history of submissions replays when none of its appends failed.\<close>

lemma clean_history_replays:
  assumes "ok l" "mat X l = Some (Inr v)" "\<forall>(s, vop) \<in> set subs. serde_op X vop"
    and "chained H (es l)" "no_failed_append (app_op X) l subs"
  shows "\<exists>l' v'. submit_all (app_op X) l subs = Some l' \<and> ok l' \<and> chained H (es l') \<and>
      mat X l' = Some (Inr v') \<and> v_next_seq v' = len l'"
  using assms
proof (induction subs arbitrary: l v)
  case Nil
  then show ?case
    using view_at_next_seq [of X "len l" "nth_of l" "len l" v] by (auto simp: materialize_def)
next
  case (Cons sub subs)
  obtain s vop where sub: "sub = (s, vop)" by (cases sub)
  obtain r l1 where st: "app_op X l s vop = Some (r, l1)"
    using app_op_no_panic [OF Cons.prems(1), of X s vop] by auto
  have clean: "\<not> is_log_error r" "no_failed_append (app_op X) l1 subs" using Cons.prems(5) sub st by simp_all
  have "\<exists>v1. ok l1 \<and> mat X l1 = Some (Inr v1) \<and> chained H (es l1)"
  proof (cases r)
    case (Inl err)
    then have "l1 = l" using app_op_Inl_cases [of X l s vop err l1] st clean(1) by auto
    then show ?thesis using Cons.prems by blast
  next
    case (Inr h)
    then show ?thesis
      using app_op_replays [OF Cons.prems(1), of X vop s h l1] st Cons.prems(3) sub
        app_chained [OF Cons.prems(1,4)] app_op_Inr [of X l s vop h l1] by auto
  qed
  then obtain v1 where "ok l1" "mat X l1 = Some (Inr v1)" "chained H (es l1)" by blast
  then show ?case using Cons.IH [of l1 v1] Cons.prems(3) clean(2) sub st by simp
qed

end

text \<open>
  A backend whose failed append leaves the same entries, as the trait's \<open>append\<close> documents it: then
  every history of submissions replays.
\<close>

locale failsafe_log = op_log +
  assumes app_Inl: "ok l \<Longrightarrow> app l e = (Inl err, l') \<Longrightarrow> ok l' \<and> es l' = es l"
begin

lemma app_op_Inl:
  assumes "ok l" "app_op X l s vop = Some (Inl err, l')"
  shows "ok l' \<and> es l' = es l"
  using assms(2) app_Inl [OF assms(1)] assms(1)
  by (auto simp: append_op_def split: option.splits sum.splits prod.splits elim!: map_err.elims)

lemma app_op_seq:
  assumes "ok l" "app_op X l s vop = Some (r, l')"
    and "\<And>i e. i < length (es l) \<Longrightarrow> es l ! i = e \<Longrightarrow> e_seq e = i"
    and "i < length (es l')" "es l' ! i = e"
  shows "e_seq e = i"
proof (cases r)
  case (Inl err)
  then show ?thesis using app_op_Inl [OF assms(1), of X s vop err l'] assms by simp
next
  case (Inr h)
  then obtain v v' where "app l (op_entry_of X (hd_of l) (len l) s vop) = (Inr h, l')"
    using app_op_Inr assms(2) by metis
  then have "es l' = es l @ [op_entry_of X (hd_of l) (len l) s vop]"
    using app_Inr [OF assms(1)] by blast
  then show ?thesis
    using assms(3-5) len_es [OF assms(1)]
    by (auto simp: nth_append op_entry_of_def split: if_splits)
qed

lemma submit_all_replays:
  assumes "ok l" "mat X l = Some (Inr v)" "\<forall>(s, vop) \<in> set subs. serde_op X vop"
    and "chained H (es l)"
  shows "\<exists>l' v'. submit_all (app_op X) l subs = Some l' \<and> ok l' \<and> chained H (es l') \<and>
      mat X l' = Some (Inr v') \<and> v_next_seq v' = len l' \<and> reachable X v'"
  using assms
proof (induction subs arbitrary: l v)
  case Nil
  then show ?case
    using view_at_next_seq [of X "len l" "nth_of l" "len l" v] view_at_reachable
    by (auto simp: materialize_def)
next
  case (Cons sub subs)
  obtain s vop where sub: "sub = (s, vop)" by (cases sub)
  obtain r l1 where st: "app_op X l s vop = Some (r, l1)"
    using app_op_no_panic [OF Cons.prems(1), of X s vop] by auto
  have "\<exists>v1. ok l1 \<and> mat X l1 = Some (Inr v1) \<and> chained H (es l1)"
  proof (cases r)
    case (Inl err)
    then have "ok l1" "es l1 = es l" using app_op_Inl [OF Cons.prems(1), of X s vop err l1] st by auto
    then show ?thesis using mat_eq_entries [of l l1 X] Cons.prems by auto
  next
    case (Inr h)
    then show ?thesis
      using app_op_replays [OF Cons.prems(1), of X vop s h l1] st Cons.prems(3) sub
        app_chained [OF Cons.prems(1,4)] app_op_Inr [of X l s vop h l1] by auto
  qed
  then obtain v1 where "ok l1" "mat X l1 = Some (Inr v1)" "chained H (es l1)" by blast
  then show ?case using Cons.IH [of l1 v1] Cons.prems(3) sub st by simp
qed

end

section \<open>The in-memory log\<close>

interpretation mem_fs: failsafe_log
  "entry_hash X" "mem_append X" m_head mem_len mem_get m_entries "mem_ok X"
  by unfold_locales (auto simp: mem_append_def Let_def split: if_splits)

definition mem_append_op ::
  "('a) view_externals_scheme \<Rightarrow> mem_log \<Rightarrow> string \<Rightarrow> view_op \<Rightarrow>
   ((view_error + content_hash) \<times> mem_log) option" where
  "mem_append_op X = append_op X (mem_append X) m_head mem_len mem_get"

definition mem_view_at :: "('a) view_externals_scheme \<Rightarrow> mem_log \<Rightarrow> nat \<Rightarrow> (view_error + view) option" where
  "mem_view_at X l = view_at X (mem_len l) (mem_get l)"

definition mem_view :: "('a) view_externals_scheme \<Rightarrow> mem_log \<Rightarrow> (view_error + view) option" where
  "mem_view X l = materialize X (mem_len l) (mem_get l)"

lemma mem_append_op_no_panic: "mem_ok X l \<Longrightarrow> mem_append_op X l s vop \<noteq> None"
  unfolding mem_append_op_def by (rule mem.app_op_no_panic)

text \<open>Externals that know a table of operations, for concrete evaluations.\<close>

definition table_externals :: "view_op list \<Rightarrow> view_externals" where
  "table_externals ops =
     \<lparr>x_blake3 = \<lambda>b. [of_nat (length b)], x_entry_json = \<lambda>e. of_nat (e_seq e) # e_payload e,
      x_entry_parse = \<lambda>_. Inl ''entry'', x_signed_json = \<lambda>(_, b). b,
      x_op_json = \<lambda>vop. [of_nat (length (takeWhile (\<lambda>o'. o' \<noteq> vop) ops))],
      x_op_parse = \<lambda>b. (case b of [i] \<Rightarrow> if unat i < length ops then Inr (ops ! unat i)
                                         else Inl ''unknown op''
                        | _ \<Rightarrow> Inl ''unknown op''),
      x_snapshot_json = \<lambda>s. map (of_nat \<circ> length) (bt_keys (sn_refs s)) @ [of_nat (sn_at_seq s)]\<rparr>"

section \<open>Properties\<close>

text \<open>A log that \<open>append_op\<close> built from nothing replays, whatever was refused.\<close>

lemma mem_history_replays:
  assumes "\<forall>(s, vop) \<in> set subs. serde_op X vop"
  shows "\<exists>l v. submit_all (mem_append_op X) mem_new subs = Some l \<and>
      chained (entry_hash X) (m_entries l) \<and> mem_view X l = Some (Inr v) \<and>
      v_next_seq v = mem_len l"
proof -
  have "mem_view X mem_new = Some (Inr default_view)"
    by (simp add: mem_view_def materialize_def view_at_def mem_len_def mem_new_def)
  then show ?thesis
    using mem_fs.submit_all_replays [OF mem_ok_new, of X default_view subs X] assms
    unfolding mem_view_def mem_append_op_def by (force simp: mem_new_def)
qed

text \<open>
  An operation that \<open>append_op\<close> admits is one entry at the end of the log, stamped with the
  length of the log and its head; the log then materializes to the old view with the operation
  applied, and every view of a prefix of the old log (\<open>View::at\<close>) is unchanged.
\<close>

theorem append_op_admitted:
  assumes "mem_ok X l" "serde_op X vop" "mem_append_op X l s vop = Some (Inr h, l')"
  shows "(\<exists>v v'. mem_view X l = Some (Inr v) \<and> apply_view X v vop = Some (Inr (), v') \<and>
            mem_view X l' = Some (Inr v')) \<and>
      m_entries l' = m_entries l @ [op_entry_of X (m_head l) (mem_len l) s vop] \<and>
      m_head l' = Some h \<and>
      (\<forall>b. b \<le> mem_len l \<longrightarrow> mem_view_at X l' b = mem_view_at X l b)"
proof -
  note a = assms(3) [unfolded mem_append_op_def]
  obtain v v' where "mem_append X l (op_entry_of X (m_head l) (mem_len l) s vop) = (Inr h, l')"
    using mem.app_op_Inr [OF a] .
  then have "b \<le> mem_len l \<Longrightarrow> mem_view_at X l' b = mem_view_at X l b" for b
    unfolding mem_view_at_def by (rule mem.view_at_append [OF assms(1)])
  then show ?thesis
    using mem.app_op_replays [OF assms(1,2) a] unfolding mem_view_def by blast
qed

lemma append_op_admitted_witness:
  "let vop = new_view_op (DeleteWorkspace ''w''); X = table_externals [vop];
       l' = snd (the (mem_append_op X mem_new ''ana'' vop))
   in m_entries l' = [op_entry_of X None 0 ''ana'' vop]"
proof -
  let ?vop = "new_view_op (DeleteWorkspace ''w'')"
  let ?X = "table_externals [?vop]"
  let ?h = "entry_hash ?X (op_entry_of ?X None 0 ''ana'' ?vop)"
  have s: "serde_op ?X ?vop"
    by (simp add: serde_op_def from_payload_def to_payload_def table_externals_def)
  have r: "mem_append_op ?X mem_new ''ana'' ?vop =
      Some (Inr ?h, \<lparr>m_entries = [op_entry_of ?X None 0 ''ana'' ?vop], m_head = Some ?h\<rparr>)"
    by (simp add: mem_append_op_def append_op_def materialize_def view_at_def mem_len_def mem_new_def
        apply_view_def validate_def new_view_op_def validate_kind_def apply_kind_def
        mem_append_def op_entry_of_def Let_def)
  have "m_entries (snd (the (mem_append_op ?X mem_new ''ana'' ?vop))) =
      m_entries mem_new @ [op_entry_of ?X (m_head mem_new) (mem_len mem_new) ''ana'' ?vop]"
    using append_op_admitted [OF mem_ok_new s r] unfolding r by simp
  then show ?thesis unfolding Let_def by (simp add: mem_new_def mem_len_def)
qed

text \<open>
  An operation that \<open>append_op\<close> refuses leaves the log exactly as it was.
\<close>

theorem append_op_refused:
  assumes "mem_append_op X l s vop = Some (Inl e, l')"
  shows "l' = l"
  using assms
  by (auto simp: mem_append_op_def append_op_def mem_append_def op_entry_of_def Let_def
      split: option.splits sum.splits prod.splits if_splits)

lemma append_op_refused_witness:
  "snd (the (mem_append_op (table_externals []) mem_new ''ana''
      (new_view_op (ViewedReview ''r'' ''ben'')))) = mem_new"
proof -
  have "mem_append_op (table_externals []) mem_new ''ana'' (new_view_op (ViewedReview ''r'' ''ben'')) =
      Some (Inl (ReviewErr ''no such review r''), mem_new)"
    by (simp add: mem_append_op_def append_op_def materialize_def view_at_def mem_len_def mem_new_def
        apply_view_def validate_def new_view_op_def validate_kind_def validate_viewed_review_def
        live_review_def default_view_def)
  from append_op_refused [OF this] this show ?thesis by simp
qed

end
