(* ===== verification/View_Inv.thy ===== *)
theory View_Inv
  imports View_Replay
begin

text \<open>
  The invariants of the views the fold of \<open>crates/choir-view/src/lib.rs\<close> reaches, one per section
  of the view, each kept by every operation \<open>validate\<close> admits.
\<close>

section \<open>Changes and workspaces\<close>

text \<open>
  An active change is attached to its own workspace, whose head is the change's revision; a
  workspace carries at most one active change; an idempotency key names one change of its owner.
\<close>

definition changes_inv ::
  "(string, content_hash) btmap \<Rightarrow> (string, change_state) btmap \<Rightarrow> bool" where
  "changes_inv ws cs \<longleftrightarrow>
     (\<forall>i c w. bt_get cs i = Some c \<longrightarrow> cg_active_workspace c = Some w \<longrightarrow>
        cg_workspace_id c = w \<and> bt_get ws w = Some (cg_revision_id c)) \<and>
     (\<forall>i j c d w. bt_get cs i = Some c \<longrightarrow> bt_get cs j = Some d \<longrightarrow>
        cg_active_workspace c = Some w \<longrightarrow> cg_active_workspace d = Some w \<longrightarrow> i = j) \<and>
     (\<forall>i j c d. bt_get cs i = Some c \<longrightarrow> bt_get cs j = Some d \<longrightarrow>
        cg_owner c = cg_owner d \<longrightarrow> cg_idempotency_key c = cg_idempotency_key d \<longrightarrow> i = j)"

lemma changes_inv_D:
  assumes "changes_inv ws cs"
  shows "bt_get cs i = Some c \<Longrightarrow> cg_active_workspace c = Some w \<Longrightarrow> cg_workspace_id c = w"
    and "bt_get cs i = Some c \<Longrightarrow> cg_active_workspace c = Some w \<Longrightarrow>
      bt_get ws w = Some (cg_revision_id c)"
    and "bt_get cs i = Some c \<Longrightarrow> bt_get cs j = Some d \<Longrightarrow> cg_active_workspace c = Some w \<Longrightarrow>
      cg_active_workspace d = Some w \<Longrightarrow> i = j"
    and "bt_get cs i = Some c \<Longrightarrow> bt_get cs j = Some d \<Longrightarrow> cg_owner c = cg_owner d \<Longrightarrow>
      cg_idempotency_key c = cg_idempotency_key d \<Longrightarrow> i = j"
  using assms unfolding changes_inv_def by blast+

lemma detach_simps [simp]:
  "cg_active_workspace (detach w c) = Some u \<longleftrightarrow> cg_active_workspace c = Some u \<and> u \<noteq> w"
  "cg_workspace_id (detach w c) = cg_workspace_id c"
  "cg_revision_id (detach w c) = cg_revision_id c"
  "cg_owner (detach w c) = cg_owner c"
  "cg_idempotency_key (detach w c) = cg_idempotency_key c"
  by (auto simp: detach_def)

lemma changes_inv_detach_insert:
  assumes "changes_inv ws cs"
  shows "changes_inv (bt_insert w h ws) (bt_map (detach w) cs)"
  unfolding changes_inv_def
  by (auto simp: bt_get_insert dest: changes_inv_D [OF assms])

lemma changes_inv_detach_remove:
  assumes "changes_inv ws cs"
  shows "changes_inv (bt_remove w ws) (bt_map (detach w) cs)"
  unfolding changes_inv_def
  by (auto simp: bt_get_remove dest: changes_inv_D [OF assms])

lemma changes_inv_create:
  assumes inv: "changes_inv ws cs" and ws: "bt_get ws w = None" and cs: "bt_get cs i = None"
    and key: "\<And>j d. bt_get cs j = Some d \<Longrightarrow> \<not> (cg_owner d = cg_owner c \<and>
      cg_idempotency_key d = cg_idempotency_key c)"
    and c: "cg_active_workspace c = Some w" "cg_workspace_id c = w"
  shows "changes_inv (bt_insert w (cg_revision_id c) ws) (bt_insert i c cs)"
proof -
  have free: "bt_get cs j = Some d \<Longrightarrow> cg_active_workspace d \<noteq> Some w" for j d
    using changes_inv_D(2) [OF inv] ws by fastforce
  show ?thesis
    unfolding changes_inv_def
    by (auto simp: bt_get_insert c split: if_splits dest: changes_inv_D [OF inv] free key)
qed

lemma changes_inv_move:
  assumes inv: "changes_inv ws cs" and c: "bt_get cs i = Some c" "cg_active_workspace c = Some w"
  shows "changes_inv (bt_insert w h ws) (bt_insert i (c\<lparr>cg_revision_id := h\<rparr>) cs)"
    and "changes_inv (bt_remove w ws) (bt_insert i (c\<lparr>cg_active_workspace := None\<rparr>) cs)"
proof -
  have only: "bt_get cs j = Some d \<Longrightarrow> cg_active_workspace d = Some w \<Longrightarrow> j = i" for j d
    using changes_inv_D(3) [OF inv _ c(1) _ c(2)] .
  show "changes_inv (bt_insert w h ws) (bt_insert i (c\<lparr>cg_revision_id := h\<rparr>) cs)"
    unfolding changes_inv_def
    by (auto simp: bt_get_insert c changes_inv_D(1) [OF inv c] split: if_splits
        dest: changes_inv_D [OF inv] changes_inv_D(4) [OF inv c(1)]
          changes_inv_D(4) [OF inv _ c(1)] changes_inv_D(3) [OF inv c(1)] only)
  show "changes_inv (bt_remove w ws) (bt_insert i (c\<lparr>cg_active_workspace := None\<rparr>) cs)"
    unfolding changes_inv_def
    by (auto simp: bt_get_insert bt_get_remove c split: if_splits
        dest: changes_inv_D [OF inv] changes_inv_D(4) [OF inv c(1)]
          changes_inv_D(4) [OF inv _ c(1)] only)
qed

lemma changes_inv_step [invariants]:
  assumes "changes_inv (v_workspaces v) (v_changes v)"
    and "validate_kind X v k = Inr ()" "apply_kind v k = Some w"
  shows "changes_inv (v_workspaces w) (v_changes w)"
proof (cases k)
  case (CreateChange i ow ws base key sig cone)
  then show ?thesis
    using assms changes_inv_create [of "v_workspaces v" "v_changes v" ws i
      "\<lparr>cg_owner = ow, cg_workspace_id = ws, cg_active_workspace = Some ws, cg_base_revision = base,
        cg_revision_id = base, cg_idempotency_key = key, cg_cone = cone\<rparr>"]
    by (auto simp: validate_kind_def apply_kind_def apply_arms op_simps)
qed (use assms in \<open>auto simp: validate_kind_def apply_kind_def apply_arms op_simps Let_def
    changes_inv_detach_insert changes_inv_detach_remove changes_inv_move split: option.splits if_splits\<close>)

section \<open>Reviews\<close>

text \<open>
  \<open>n\<close> is the fold position. A live review holds verdicts of its reviewers only, and a slash only of
  an approval that is still there; comments have distinct ids and increasing positions; an archived
  review holds its compact row and nothing else.
\<close>

definition review_inv :: "nat \<Rightarrow> review_state \<Rightarrow> bool" where
  "review_inv n r \<longleftrightarrow>
     (\<forall>c \<in> set (bt_keys (rs_verdicts r)). c \<in> set (rs_reviewers r)) \<and>
     (\<forall>c a. bt_get (rs_verdicts r) c = Some a \<longrightarrow> vd_at a < n) \<and>
     (\<forall>c a. bt_get (rs_viewed r) c = Some a \<longrightarrow> a < n) \<and>
     distinct (map cm_id (rs_comments r)) \<and>
     sorted_wrt (<) (map cm_at (rs_comments r)) \<and>
     (\<forall>c \<in> set (rs_comments r). cm_at c < n) \<and>
     (rs_status r = Live \<longrightarrow> slashes_are_approvals r) \<and>
     (rs_status r \<noteq> Live \<longrightarrow> rs_reviewers r = [] \<and> bt_is_empty (rs_verdicts r) \<and>
        rs_comments r = [] \<and> bt_is_empty (rs_viewed r))"

definition reviews_inv :: "nat \<Rightarrow> (string, review_state) btmap \<Rightarrow> bool" where
  "reviews_inv n m \<longleftrightarrow> (\<forall>i r. bt_get m i = Some r \<longrightarrow> review_inv n r)"

lemma review_inv_Suc: "review_inv n r \<Longrightarrow> review_inv (Suc n) r"
  unfolding review_inv_def by (meson less_SucI)

lemma reviews_inv_insert:
  "reviews_inv n m \<Longrightarrow> review_inv (Suc n) r \<Longrightarrow> reviews_inv (Suc n) (bt_insert i r m)"
  unfolding reviews_inv_def by (auto simp: bt_get_insert intro: review_inv_Suc)

lemma reviews_inv_Suc: "reviews_inv n m \<Longrightarrow> reviews_inv (Suc n) m"
  unfolding reviews_inv_def by (auto intro: review_inv_Suc)

lemma has_approved_insert:
  "has_approved (r\<lparr>rs_verdicts := bt_insert c a (rs_verdicts r)\<rparr>) d \<longleftrightarrow>
     (if d = c then vd_verdict a = Approve else has_approved r d)"
  by (auto simp: has_approved_def bt_get_insert)

lemma slashes_are_approvals_cong:
  "rs_slashes r = rs_slashes s \<Longrightarrow> rs_verdicts r = rs_verdicts s \<Longrightarrow>
     slashes_are_approvals r = slashes_are_approvals s"
  by (simp add: slashes_are_approvals_def has_approved_def)

lemma review_inv_requested: "review_inv n (requested_review t rs tr)"
  by (auto simp: review_inv_def requested_review_def slashes_are_approvals_def bt_keys_iff)

lemma review_inv_assign:
  assumes "review_inv n r" "rs_reviewers r = []" "rs_status r = Live"
  shows "review_inv (Suc n) (r\<lparr>rs_reviewers := rs\<rparr>)"
  using assms slashes_are_approvals_cong [of "r\<lparr>rs_reviewers := rs\<rparr>" r]
  by (auto simp: review_inv_def less_Suc_eq)

lemma review_inv_archived: "review_inv n r \<Longrightarrow> review_inv (Suc n) (archived_review r b)"
  by (auto simp: review_inv_def archived_review_def bt_keys_iff)

lemma review_inv_verdict:
  assumes "review_inv n r" "rs_status r = Live" "c \<in> set (rs_reviewers r)" "bt_get (rs_slashes r) c = None"
  shows "review_inv (Suc n) (r\<lparr>rs_verdicts :=
    bt_insert c \<lparr>vd_verdict = x, vd_note = note, vd_at = n\<rparr> (rs_verdicts r)\<rparr>)"
proof -
  let ?r = "r\<lparr>rs_verdicts := bt_insert c \<lparr>vd_verdict = x, vd_note = note, vd_at = n\<rparr> (rs_verdicts r)\<rparr>"
  have "slashes_are_approvals ?r"
    using assms(1,2,4)
    by (auto simp: review_inv_def slashes_are_approvals_def has_approved_insert bt_keys_iff)
  then show ?thesis
    using assms by (auto simp: review_inv_def bt_keys_iff bt_get_insert less_Suc_eq split: if_splits)
qed

lemma review_inv_slash:
  assumes "review_inv n r" "rs_status r = Live \<longrightarrow> has_approved r c"
  shows "review_inv (Suc n) (r\<lparr>rs_slashes := bt_insert c reason (rs_slashes r)\<rparr>)"
proof -
  have "rs_status r = Live \<Longrightarrow>
      slashes_are_approvals (r\<lparr>rs_slashes := bt_insert c reason (rs_slashes r)\<rparr>)"
    using assms
    by (auto simp: review_inv_def slashes_are_approvals_def bt_keys_iff bt_get_insert has_approved_def
        split: if_splits)
  then show ?thesis using assms(1) by (auto simp: review_inv_def less_Suc_eq)
qed

lemma review_inv_comment:
  assumes "review_inv n r" "rs_status r = Live" "c \<notin> cm_id ` set (rs_comments r)"
  shows "review_inv (Suc n) (r\<lparr>rs_comments := rs_comments r @
    [\<lparr>cm_id = c, cm_author = a, cm_body = b, cm_at = n\<rparr>]\<rparr>)" (is "review_inv _ ?r")
  using assms slashes_are_approvals_cong [of ?r r]
  by (auto simp: review_inv_def sorted_wrt_append less_Suc_eq)

lemma review_inv_viewed:
  assumes "review_inv n r" "rs_status r = Live"
  shows "review_inv (Suc n) (r\<lparr>rs_viewed := bt_insert c n (rs_viewed r)\<rparr>)" (is "review_inv _ ?r")
  using assms slashes_are_approvals_cong [of ?r r]
  by (auto simp: review_inv_def bt_get_insert less_Suc_eq)

lemma reviews_inv_get: "reviews_inv n m \<Longrightarrow> bt_get m i = Some r \<Longrightarrow> review_inv n r"
  by (simp add: reviews_inv_def)

lemma reviews_inv_step [invariants]:
  assumes "reviews_inv (v_next_seq v) (v_reviews v)"
    and "validate_kind X v k = Inr ()" "apply_kind v k = Some w"
  shows "reviews_inv (Suc (v_next_seq v)) (v_reviews w)"
  using assms reviews_inv_get [OF assms(1)] reviews_inv_Suc [OF assms(1)]
  by (cases k)
     (auto simp: validate_kind_def apply_kind_def apply_arms op_simps Let_def
      intro!: reviews_inv_insert review_inv_requested review_inv_assign
        review_inv_archived review_inv_verdict review_inv_slash review_inv_comment review_inv_viewed
      split: option.splits if_splits review_status.splits)

section \<open>Bindings and vouches\<close>

definition is_key_id :: "string \<Rightarrow> bool" where
  "is_key_id k \<longleftrightarrow> (\<exists>key. k = to_hex key)"

lemma is_key_id_hex [simp]: "is_key_id (to_hex key)"
  by (auto simp: is_key_id_def)

definition binding_inv :: "nat \<Rightarrow> string \<Rightarrow> key_binding \<Rightarrow> bool" where
  "binding_inv n key_id b \<longleftrightarrow>
     is_key_id key_id \<and>
     kb_operator b \<noteq> [] \<and> CHR ''/'' \<notin> set (kb_operator b) \<and>
     (\<forall>c. kb_channel b = Some c \<longrightarrow> c \<noteq> [] \<and> reviewer_operator c = kb_operator b) \<and>
     kb_bound_at b < n \<and>
     (\<forall>r. kb_revoked b = Some r \<longrightarrow> kb_bound_at b < rv_at r \<and> rv_at r < n)"

definition bindings_inv :: "nat \<Rightarrow> (string, key_binding) btmap \<Rightarrow> bool" where
  "bindings_inv n m \<longleftrightarrow> (\<forall>k b. bt_get m k = Some b \<longrightarrow> binding_inv n k b)"

lemma bindings_inv_get: "bindings_inv n m \<Longrightarrow> bt_get m k = Some b \<Longrightarrow> binding_inv n k b"
  by (simp add: bindings_inv_def)

lemma binding_inv_Suc: "binding_inv n k b \<Longrightarrow> binding_inv (Suc n) k b"
  unfolding binding_inv_def by (meson less_SucI)

lemma bindings_inv_insert:
  "bindings_inv n m \<Longrightarrow> binding_inv (Suc n) k b \<Longrightarrow> bindings_inv (Suc n) (bt_insert k b m)"
  unfolding bindings_inv_def by (auto simp: bt_get_insert intro: binding_inv_Suc)

lemma bindings_inv_Suc: "bindings_inv n m \<Longrightarrow> bindings_inv (Suc n) m"
  unfolding bindings_inv_def by (auto intro: binding_inv_Suc)

lemma binding_inv_fresh:
  "opr \<noteq> [] \<Longrightarrow> CHR ''/'' \<notin> set opr \<Longrightarrow>
     \<forall>c. chan = Some c \<longrightarrow> c \<noteq> [] \<and> reviewer_operator c = opr \<Longrightarrow>
     binding_inv (Suc n) (to_hex key)
       \<lparr>kb_operator = opr, kb_channel = chan, kb_bound_at = n, kb_revoked = None\<rparr>"
  by (auto simp: binding_inv_def)

lemma binding_inv_channel:
  "binding_inv n k b \<Longrightarrow> \<forall>c. chan = Some c \<longrightarrow> c \<noteq> [] \<and> reviewer_operator c = kb_operator b \<Longrightarrow>
     binding_inv (Suc n) k (b\<lparr>kb_channel := chan\<rparr>)"
  by (auto simp: binding_inv_def less_Suc_eq)

lemma binding_inv_revoke:
  "binding_inv n k b \<Longrightarrow>
     binding_inv (Suc n) k (b\<lparr>kb_revoked := Some \<lparr>rv_at = n, rv_reason = reason\<rparr>\<rparr>)"
  by (auto simp: binding_inv_def)

lemma bindings_inv_step [invariants]:
  assumes "bindings_inv (v_next_seq v) (v_bindings v)"
    and "validate_kind X v k = Inr ()" "apply_kind v k = Some w"
  shows "bindings_inv (Suc (v_next_seq v)) (v_bindings w)"
  using assms bindings_inv_get [OF assms(1)] bindings_inv_Suc [OF assms(1)]
  by (cases k)
     (auto simp: validate_kind_def apply_kind_def apply_arms op_simps Let_def
      intro!: bindings_inv_insert binding_inv_fresh binding_inv_channel binding_inv_revoke
      split: option.splits if_splits)

text \<open>
  A standing vouch: two distinct operators that each have a binding in the log, at a position of
  the log; no operator has an empty row.
\<close>

definition has_binding :: "(string, key_binding) btmap \<Rightarrow> string \<Rightarrow> bool" where
  "has_binding m opr \<longleftrightarrow> (\<exists>k b. bt_get m k = Some b \<and> kb_operator b = opr)"

definition vouches_inv ::
  "nat \<Rightarrow> (string, key_binding) btmap \<Rightarrow> (string, (string, vouch_state) btmap) btmap \<Rightarrow> bool" where
  "vouches_inv n bs m \<longleftrightarrow>
     (\<forall>subject from. bt_get m subject = Some from \<longrightarrow>
        \<not> bt_is_empty from \<and>
        (\<forall>voucher s. bt_get from voucher = Some s \<longrightarrow>
           voucher \<noteq> subject \<and> has_binding bs voucher \<and> has_binding bs subject \<and> vs_at s < n))"

lemma has_binding_mono:
  assumes "validate_kind X v k = Inr ()" "apply_kind v k = Some w" "has_binding (v_bindings v) opr"
  shows "has_binding (v_bindings w) opr"
proof -
  have "\<exists>b'. bt_get (v_bindings w) h = Some b' \<and> kb_operator b' = kb_operator b"
    if "bt_get (v_bindings v) h = Some b" for h b
    using assms(1,2) that
    by (cases k) (auto simp: apply_kind_def apply_arms Let_def bt_get_insert split: option.splits if_splits)
  then show ?thesis using assms(3) unfolding has_binding_def by metis
qed

lemma bound_has_binding: "is_bound_operator v opr \<Longrightarrow> has_binding (v_bindings v) opr"
  by (auto simp: is_bound_operator_iff has_binding_def)

lemma bt_insert_nonempty [simp]: "\<not> bt_is_empty (bt_insert k x m)"
  unfolding bt_is_empty_iff by (metis bt_get_insert_simps(1) option.distinct(1))

lemma vouches_inv_weaken:
  "vouches_inv n bs m \<Longrightarrow> (\<And>opr. has_binding bs opr \<Longrightarrow> has_binding bs' opr) \<Longrightarrow> vouches_inv (Suc n) bs' m"
  unfolding vouches_inv_def by (auto intro: less_SucI)

lemma vouches_inv_vouch:
  assumes "vouches_inv n bs m" "a \<noteq> b" "has_binding bs a" "has_binding bs b"
  shows "vouches_inv (Suc n) bs
    (bt_insert b (bt_insert a \<lparr>vs_at = n, vs_note = note\<rparr> (or_default m b)) m)"
  using assms unfolding vouches_inv_def or_default_def
  by (auto simp: bt_get_insert less_Suc_eq split: if_splits option.splits)

lemma vouches_inv_withdraw:
  assumes "vouches_inv n bs m" "bt_get m b = Some from"
  shows "bt_is_empty (bt_remove a from) \<Longrightarrow> vouches_inv (Suc n) bs (bt_remove b m)"
    and "\<not> bt_is_empty (bt_remove a from) \<Longrightarrow> vouches_inv (Suc n) bs (bt_insert b (bt_remove a from) m)"
  using assms unfolding vouches_inv_def
  by (auto simp: bt_get_insert bt_get_remove less_Suc_eq split: if_splits)

lemma vouches_inv_step [invariants]:
  assumes "vouches_inv (v_next_seq v) (v_bindings v) (v_vouches v)"
    and "validate_kind X v k = Inr ()" "apply_kind v k = Some w"
  shows "vouches_inv (Suc (v_next_seq v)) (v_bindings w) (v_vouches w)"
proof -
  have weak: "vouches_inv (Suc (v_next_seq v)) (v_bindings w) (v_vouches v)"
    using vouches_inv_weaken [OF assms(1)] has_binding_mono [OF assms(2,3)] by blast
  have same: "vouches_inv (Suc (v_next_seq v)) (v_bindings w) (v_vouches w)" if "v_vouches w = v_vouches v"
    using weak that by simp
  show ?thesis
  proof (cases k)
    case (Vouch a b nt)
    then show ?thesis
      using assms vouches_inv_vouch [OF assms(1), of a b nt]
      by (auto simp: validate_kind_def apply_kind_def apply_arms op_simps Let_def bound_has_binding)
  next
    case (WithdrawVouch a b reason)
    then show ?thesis
      using assms vouches_inv_withdraw [OF assms(1)] weak
      by (auto simp: apply_kind_def apply_arms Let_def split: option.splits if_splits)
  qed (use assms(3) same in \<open>auto simp: apply_kind_def apply_arms Let_def\<close>)
qed

section \<open>Attestations and checks\<close>

definition attest_inv ::
  "nat \<Rightarrow> (string, key_binding) btmap \<Rightarrow> ref_snapshot option \<Rightarrow> (string, witness_state) btmap \<Rightarrow> bool" where
  "attest_inv n bs latest m \<longleftrightarrow>
     (\<forall>s. latest = Some s \<longrightarrow> sn_at_seq s < n) \<and>
     (\<forall>who s. bt_get m who = Some s \<longrightarrow> has_binding bs who \<and> ws_at s < n \<and> latest \<noteq> None)"

lemma attest_inv_step [invariants]:
  assumes "attest_inv (v_next_seq v) (v_bindings v) (v_latest_snapshot v) (v_witnessed v)"
    and "validate_kind X v k = Inr ()" "apply_kind v k = Some w"
  shows "attest_inv (Suc (v_next_seq v)) (v_bindings w) (v_latest_snapshot w) (v_witnessed w)"
proof -
  have weak: "attest_inv (Suc (v_next_seq v)) (v_bindings w) (v_latest_snapshot v) (v_witnessed v)"
    using assms(1) has_binding_mono [OF assms(2,3)] unfolding attest_inv_def by (auto simp: less_SucI)
  show ?thesis
    using assms weak
    by (cases k)
       (auto simp: validate_kind_def apply_kind_def apply_arms op_simps Let_def attest_inv_def
          bt_get_insert bound_has_binding split: option.splits if_splits)
qed

definition is_check_key :: "string \<Rightarrow> bool" where
  "is_check_key key \<longleftrightarrow>
     (\<exists>subject name. key = check_key subject name \<and> name \<noteq> [] \<and> CHR '':'' \<notin> set name)"

lemma is_check_key_intro: "name \<noteq> [] \<Longrightarrow> CHR '':'' \<notin> set name \<Longrightarrow> is_check_key (check_key subject name)"
  by (auto simp: is_check_key_def)

definition checks_inv :: "(string, check_state) btmap \<Rightarrow> bool" where
  "checks_inv m \<longleftrightarrow>
     (\<forall>key c. bt_get m key = Some c \<longrightarrow>
ck_reporter c \<noteq> [] \<and> is_check_key key)"

lemma checks_inv_step [invariants]:
  assumes "checks_inv (v_checks v)" "validate_kind X v k = Inr ()" "apply_kind v k = Some w"
  shows "checks_inv (v_checks w)"
  using assms
  by (cases k)
     (auto simp: validate_kind_def apply_kind_def apply_arms op_simps Let_def checks_inv_def
        bt_get_insert is_check_key_intro split: option.splits if_splits)

section \<open>Reachable views\<close>

definition view_inv :: "view \<Rightarrow> bool" where
  "view_inv v \<longleftrightarrow>
     changes_inv (v_workspaces v) (v_changes v) \<and>
     reviews_inv (v_next_seq v) (v_reviews v) \<and>
     bindings_inv (v_next_seq v) (v_bindings v) \<and>
     vouches_inv (v_next_seq v) (v_bindings v) (v_vouches v) \<and>
     attest_inv (v_next_seq v) (v_bindings v) (v_latest_snapshot v) (v_witnessed v) \<and>
     checks_inv (v_checks v)"

lemma view_inv_default: "view_inv default_view"
  by (simp add: view_inv_def default_view_def changes_inv_def reviews_inv_def bindings_inv_def
      vouches_inv_def attest_inv_def checks_inv_def)

lemma view_inv_step:
  assumes "view_inv v" "validate_kind X v k = Inr ()" "apply_kind v k = Some w"
  shows "view_inv (w\<lparr>v_next_seq := v_next_seq v + 1\<rparr>)"
  using assms(1) changes_inv_step [OF _ assms(2,3)] reviews_inv_step [OF _ assms(2,3)]
    bindings_inv_step [OF _ assms(2,3)] vouches_inv_step [OF _ assms(2,3)]
    attest_inv_step [OF _ assms(2,3)] checks_inv_step [OF _ assms(2,3)]
  by (simp add: view_inv_def)

lemma reachable_inv:
  assumes "reachable X v"
  shows "view_inv v"
  using assms view_inv_default view_inv_step by (rule reachable_invariant)

end
