(* ===== verification/View_History.thy ===== *)
theory View_History
  imports View_Inv
begin

text \<open>
  What no later operation of the log can undo: the histories of bindings, changes and reviews in
  the fold of \<open>crates/choir-view/src/lib.rs\<close>, and the properties of the fold position, of
  preconditions on a current value and of changes.
\<close>

section \<open>Later views\<close>

definition view_step :: "('a) view_externals_scheme \<Rightarrow> view \<Rightarrow> view \<Rightarrow> bool" where
  "view_step X v v' \<longleftrightarrow> (\<exists>vop. apply_view X v vop = Some (Inr (), v'))"

inductive later :: "('a) view_externals_scheme \<Rightarrow> view \<Rightarrow> view \<Rightarrow> bool" for X v where
  later_refl: "later X v v"
| later_step: "later X v u \<Longrightarrow> view_step X u w \<Longrightarrow> later X v w"

lemma later_reachable: "later X v w \<Longrightarrow> reachable X v \<Longrightarrow> reachable X w"
  by (induction rule: later.induct) (auto simp: view_step_def intro: reachable_step)

lemma view_step_iff:
  "view_step X v v' \<longleftrightarrow>
     (\<exists>k w. validate_kind X v k = Inr () \<and> apply_kind v k = Some w \<and>
        v' = w\<lparr>v_next_seq := v_next_seq v + 1\<rparr>)"
proof
  assume "\<exists>k w. validate_kind X v k = Inr () \<and> apply_kind v k = Some w \<and>
      v' = w\<lparr>v_next_seq := v_next_seq v + 1\<rparr>"
  then obtain k w where "validate_kind X v k = Inr ()" "apply_kind v k = Some w"
    "v' = w\<lparr>v_next_seq := v_next_seq v + 1\<rparr>" by blast
  then show "view_step X v v'"
    unfolding view_step_def apply_view_Inr
    by (intro exI [of _ "new_view_op k"]) (simp add: new_view_op_def)
qed (auto simp: view_step_def apply_view_Inr)

text \<open>A preorder on views that every operation respects holds between a view and a later one.\<close>

lemma later_preserves:
  assumes "later X v v'" "\<And>u. R u u" "\<And>a b c. R a b \<Longrightarrow> R b c \<Longrightarrow> R a c"
    and "\<And>u k w. validate_kind X u k = Inr () \<Longrightarrow> apply_kind u k = Some w \<Longrightarrow>
      R u (w\<lparr>v_next_seq := v_next_seq u + 1\<rparr>)"
  shows "R v v'"
  using assms(1)
proof induction
  case (later_step u w)
  then show ?case using assms(3,4) by (auto simp: view_step_iff)
qed (rule assms(2))

text \<open>\<open>rows_kept K m m'\<close>: every row of \<open>m\<close> is still there, related by \<open>K\<close>.\<close>

definition rows_kept ::
  "('v \<Rightarrow> 'v \<Rightarrow> bool) \<Rightarrow> (string, 'v) btmap \<Rightarrow> (string, 'v) btmap \<Rightarrow> bool" where
  "rows_kept K m m' \<longleftrightarrow> (\<forall>k x. bt_get m k = Some x \<longrightarrow> (\<exists>y. bt_get m' k = Some y \<and> K x y))"

lemma rows_kept_refl: "(\<And>x. K x x) \<Longrightarrow> rows_kept K m m"
  by (auto simp: rows_kept_def)

lemma rows_kept_trans:
  "(\<And>x y z. K x y \<Longrightarrow> K y z \<Longrightarrow> K x z) \<Longrightarrow> rows_kept K a b \<Longrightarrow> rows_kept K b c \<Longrightarrow> rows_kept K a c"
  unfolding rows_kept_def by meson

lemma rows_kept_insert:
  "(\<And>x. K x x) \<Longrightarrow> (\<And>x. bt_get m k = Some x \<Longrightarrow> K x y) \<Longrightarrow> rows_kept K m (bt_insert k y m)"
  by (auto simp: rows_kept_def bt_get_insert)

lemma rows_kept_map: "(\<And>x. K x (f x)) \<Longrightarrow> rows_kept K m (bt_map f m)"
  by (auto simp: rows_kept_def)

section \<open>What a later row keeps\<close>

definition binding_kept :: "key_binding \<Rightarrow> key_binding \<Rightarrow> bool" where
  "binding_kept b b' \<longleftrightarrow>
     kb_operator b' = kb_operator b \<and> kb_bound_at b' = kb_bound_at b \<and>
     (is_revoked b \<longrightarrow> b' = b)"

definition change_kept :: "change_state \<Rightarrow> change_state \<Rightarrow> bool" where
  "change_kept c c' \<longleftrightarrow>
     cg_owner c' = cg_owner c \<and> cg_workspace_id c' = cg_workspace_id c \<and>
     cg_base_revision c' = cg_base_revision c \<and> cg_idempotency_key c' = cg_idempotency_key c \<and>
     cg_cone c' = cg_cone c \<and>
     cg_active_workspace c' \<in> {None, cg_active_workspace c} \<and>
     (cg_active_workspace c = None \<longrightarrow> c' = c)"

definition review_kept :: "review_state \<Rightarrow> review_state \<Rightarrow> bool" where
  "review_kept r r' \<longleftrightarrow>
     rs_target r' = rs_target r \<and> rs_target_ref r' = rs_target_ref r \<and>
     (\<forall>c reason. bt_get (rs_slashes r) c = Some reason \<longrightarrow> bt_get (rs_slashes r') c = Some reason) \<and>
     (rs_status r \<noteq> Live \<longrightarrow>
        rs_status r' = rs_status r \<and> rs_reviewers r' = rs_reviewers r \<and>
        rs_verdicts r' = rs_verdicts r \<and> rs_comments r' = rs_comments r \<and>
        rs_viewed r' = rs_viewed r)"

lemma kept_refl [simp]: "binding_kept b b" "change_kept c c" "review_kept r r"
  by (simp_all add: binding_kept_def change_kept_def review_kept_def)

lemma binding_kept_step:
  assumes "validate_kind X v k = Inr ()" "apply_kind v k = Some w"
  shows "rows_kept binding_kept (v_bindings v) (v_bindings w)"
  using assms
  by (cases k)
     (auto simp: validate_kind_def apply_kind_def apply_arms op_simps Let_def binding_kept_def
        is_revoked_def intro!: rows_kept_refl rows_kept_insert split: option.splits if_splits)

lemma change_kept_step:
  assumes "validate_kind X v k = Inr ()" "apply_kind v k = Some w"
  shows "rows_kept change_kept (v_changes v) (v_changes w)"
  using assms
  by (cases k)
     (auto simp: validate_kind_def apply_kind_def apply_arms op_simps Let_def change_kept_def
        detach_def intro!: rows_kept_refl rows_kept_insert rows_kept_map
        split: option.splits if_splits)

lemma review_kept_updates:
  "rs_status r = Live \<Longrightarrow> review_kept r (r\<lparr>rs_reviewers := a\<rparr>)"
  "rs_status r = Live \<Longrightarrow> review_kept r (r\<lparr>rs_verdicts := b\<rparr>)"
  "rs_status r = Live \<Longrightarrow> review_kept r (r\<lparr>rs_comments := c\<rparr>)"
  "rs_status r = Live \<Longrightarrow> review_kept r (r\<lparr>rs_viewed := d\<rparr>)"
  "rs_status r = Live \<Longrightarrow> review_kept r (archived_review r e)"
  "bt_get (rs_slashes r) who = None \<Longrightarrow>
     review_kept r (r\<lparr>rs_slashes := bt_insert who reason (rs_slashes r)\<rparr>)"
  by (auto simp: review_kept_def archived_review_def bt_get_insert)

lemma review_kept_step:
  assumes "validate_kind X v k = Inr ()" "apply_kind v k = Some w"
  shows "rows_kept review_kept (v_reviews v) (v_reviews w)"
proof -
  have get: "rows_kept review_kept (v_reviews v) (bt_insert i y (v_reviews v))"
    if "\<And>x. bt_get (v_reviews v) i = Some x \<Longrightarrow> review_kept x y" for i y
    using that by (intro rows_kept_insert) auto
  show ?thesis
    using assms
    by (cases k)
       (auto simp: validate_kind_def apply_kind_def apply_arms op_simps Let_def
          intro!: rows_kept_refl [of review_kept] get review_kept_updates split: option.splits if_splits)
qed

lemma binding_kept_trans: "binding_kept a b \<Longrightarrow> binding_kept b c \<Longrightarrow> binding_kept a c"
  by (auto simp: binding_kept_def is_revoked_def)

lemma change_kept_trans: "change_kept a b \<Longrightarrow> change_kept b c \<Longrightarrow> change_kept a c"
  by (auto simp: change_kept_def)

lemma review_kept_trans: "review_kept a b \<Longrightarrow> review_kept b c \<Longrightarrow> review_kept a c"
  by (auto simp: review_kept_def)

lemma later_binding_kept:
  "later X v v' \<Longrightarrow> rows_kept binding_kept (v_bindings v) (v_bindings v')"
  by (erule later_preserves [where R = "\<lambda>u w. rows_kept binding_kept (v_bindings u) (v_bindings w)"])
     (auto intro: rows_kept_refl rows_kept_trans [OF binding_kept_trans] binding_kept_step)

lemma later_change_kept:
  "later X v v' \<Longrightarrow> rows_kept change_kept (v_changes v) (v_changes v')"
  by (erule later_preserves [where R = "\<lambda>u w. rows_kept change_kept (v_changes u) (v_changes w)"])
     (auto intro: rows_kept_refl rows_kept_trans [OF change_kept_trans] change_kept_step)

lemma later_review_kept:
  "later X v v' \<Longrightarrow> rows_kept review_kept (v_reviews v) (v_reviews v')"
  by (erule later_preserves [where R = "\<lambda>u w. rows_kept review_kept (v_reviews u) (v_reviews w)"])
     (auto intro: rows_kept_refl rows_kept_trans [OF review_kept_trans] review_kept_step)

lemma later_next_seq: "later X v v' \<Longrightarrow> v_next_seq v \<le> v_next_seq v'"
  by (induction rule: later.induct) (auto simp: view_step_iff)

text \<open>Views for concrete evaluation: the operations applied in order, all of them admitted.\<close>

fun apply_kinds :: "('a) view_externals_scheme \<Rightarrow> view \<Rightarrow> op_kind list \<Rightarrow> view option" where
  "apply_kinds X v [] = Some v"
| "apply_kinds X v (k # ks) =
     (case apply_view X v (new_view_op k) of
        Some (Inr _, v') \<Rightarrow> apply_kinds X v' ks
      | _ \<Rightarrow> None)"

lemma apply_kinds_later: "apply_kinds X v ks = Some w \<Longrightarrow> later X u v \<Longrightarrow> later X u w"
proof (induction ks arbitrary: v)
  case (Cons k ks)
  then obtain v1 where s: "apply_view X v (new_view_op k) = Some (Inr (), v1)"
    "apply_kinds X v1 ks = Some w"
    by (auto split: option.splits sum.splits)
  then have "view_step X v v1" by (auto simp: view_step_def)
  then show ?case using Cons s(2) later_step by blast
qed simp

lemma apply_kinds_reachable: "apply_kinds X default_view ks = Some w \<Longrightarrow> reachable X w"
  using apply_kinds_later later_refl later_reachable reachable_init by metis

lemmas validate_arms =
  validate_set_workspace_head_def validate_ref_cas_def validate_submit_op_def
  validate_request_review_def validate_assign_reviewers_def validate_post_verdict_def
  validate_slash_approval_def validate_archive_review_def validate_post_comment_def
  validate_viewed_review_def validate_record_provenance_def validate_record_check_def
  validate_create_change_def validate_checkpoint_change_def validate_archive_change_def
  validate_bind_key_def validate_revoke_key_def validate_vouch_def validate_withdraw_vouch_def
  validate_countersign_def validate_record_ref_snapshot_def validate_submit_def
  validate_vouch_ends_def validate_vouch_end_def

lemmas view_eval =
  apply_view_def validate_def new_view_op_def validate_kind_def apply_kind_def apply_arms
  validate_arms default_view_def live_review_def is_archived_def refuse_if_def bt_contains_def
  ok_or_def cas_def Let_def with_review_def with_change_def requested_review_def
  reviewer_operator_def is_revoked_def vouch_stands_def is_bound_operator_def bt_values_def
  bt_keys_def

definition sample_a :: content_hash where "sample_a = \<lparr>codec = 0x11, digest = [1]\<rparr>"
definition sample_b :: content_hash where "sample_b = \<lparr>codec = 0x11, digest = [2]\<rparr>"

lemma sample_neq [simp]: "sample_a \<noteq> sample_b" "sample_b \<noteq> sample_a"
  by (simp_all add: sample_a_def sample_b_def)

section \<open>Properties\<close>

text \<open>
  C28: \<open>View::apply\<close> never panics: none of the \<open>.expect\<close> calls of its arms is reached. It either
  refuses, with the error \<open>validate\<close> gives and the view unchanged, or applies, and then the fold
  position moves by exactly one.
\<close>

theorem apply_total:
  "\<exists>r v'. apply_view X v vop = Some (r, v') \<and>
     (case r of Inl e \<Rightarrow> validate X v vop = Inl e \<and> v' = v
              | Inr _ \<Rightarrow> validate X v vop = Inr () \<and> v_next_seq v' = v_next_seq v + 1)"
proof (cases rule: apply_view_cases [of X v vop])
  case (rejected e)
  then have "validate X v vop = Inl e" by (simp add: apply_view_Inl validate_def)
  then show ?thesis using rejected by simp
next
  case (applied v')
  then have "validate X v vop = Inr ()" "v_next_seq v' = v_next_seq v + 1"
    by (auto simp: apply_view_Inr validate_def)
  then show ?thesis using applied by simp
qed

text \<open>
  C26: a workspace and the change on it agree. In every view the fold reaches, the workspace an
  active change is attached to is its own, its head is the change's revision, and no other change
  is active on it.
\<close>

theorem active_change_workspace:
  assumes "reachable X v" "bt_get (v_changes v) i = Some c" "cg_active_workspace c = Some w"
  shows "cg_workspace_id c = w \<and> bt_get (v_workspaces v) w = Some (cg_revision_id c) \<and>
    (\<forall>j d. bt_get (v_changes v) j = Some d \<longrightarrow> cg_active_workspace d = Some w \<longrightarrow> j = i)"
proof -
  have "changes_inv (v_workspaces v) (v_changes v)"
    using reachable_inv [OF assms(1)] by (simp add: view_inv_def)
  then show ?thesis using assms(2,3) unfolding changes_inv_def by blast
qed

lemma active_change_workspace_witness:
  "\<exists>v. apply_kinds (table_externals []) default_view
      [CreateChange ''c'' ''ana'' ''w'' sample_a ''k'' None [],
       CheckpointChange ''c'' ''w'' sample_b sample_a] = Some v \<and>
     bt_get (v_workspaces v) ''w'' = Some sample_b"
proof -
  let ?ks = "[CreateChange ''c'' ''ana'' ''w'' sample_a ''k'' None [],
       CheckpointChange ''c'' ''w'' sample_b sample_a]"
  obtain v c where v: "apply_kinds (table_externals []) default_view ?ks = Some v"
    and c: "bt_get (v_changes v) ''c'' = Some c" "cg_active_workspace c = Some ''w''"
      "cg_revision_id c = sample_b"
    by (simp add: view_eval)
  show ?thesis
    using active_change_workspace [OF apply_kinds_reachable [OF v] c(1,2)] v c(3) by simp
qed

text \<open>
  Creating a change is idempotent per owner and key for the whole life of the log. Once
  \<open>CreateChange\<close> was applied, every later view refuses another one of the same owner with the same
  idempotency key, whatever id, workspace and base it names.
\<close>

theorem create_change_once:
  assumes "apply_view X v vop = Some (Inr (), v')"
    and "vo_kind vop = CreateChange i owner ws base key sig cone" "later X v' u"
  shows "\<exists>e. apply_view X u (new_view_op (CreateChange i2 owner ws2 base2 key sig2 cone2)) = Some (Inl e, u)"
proof -
  obtain c where "bt_get (v_changes v') i = Some c" "cg_owner c = owner" "cg_idempotency_key c = key"
    using assms(1,2) by (auto simp: apply_view_Inr apply_kind_def apply_create_change_def)
  then obtain d where "bt_get (v_changes u) i = Some d" "cg_owner d = owner" "cg_idempotency_key d = key"
    using later_change_kept [OF assms(3)] by (force simp: rows_kept_def change_kept_def)
  then have "validate_kind X u (CreateChange i2 owner ws2 base2 key sig2 cone2) \<noteq> Inr ()"
    by (auto simp: validate_kind_def op_simps)
  then show ?thesis
    by (cases rule: apply_view_cases [of X u "new_view_op (CreateChange i2 owner ws2 base2 key sig2 cone2)"])
       (auto simp: apply_view_Inr new_view_op_def)
qed

lemma create_change_once_witness:
  "\<exists>v' e. apply_view (table_externals []) default_view
       (new_view_op (CreateChange ''c'' ''ana'' ''w'' sample_a ''k'' None [])) = Some (Inr (), v') \<and>
     apply_view (table_externals []) v'
       (new_view_op (CreateChange ''d'' ''ana'' ''x'' sample_b ''k'' None [])) = Some (Inl e, v')"
proof -
  obtain v' where v': "apply_view (table_externals []) default_view
      (new_view_op (CreateChange ''c'' ''ana'' ''w'' sample_a ''k'' None [])) = Some (Inr (), v')"
    by (simp add: view_eval)
  show ?thesis
    using create_change_once [OF v' _ later_refl, of "''c''" "''ana''" "''w''" sample_a "''k''" None "[]"
        "''d''" "''x''" sample_b None "[]"] v'
    by (simp add: new_view_op_def)
qed

text \<open>\<open>CreateChange\<close> without its check that the workspace is active on another change.\<close>

definition validate_create_change_without_active ::
  "view \<Rightarrow> string \<Rightarrow> string \<Rightarrow> string \<Rightarrow> string \<Rightarrow> view_error + unit" where
  "validate_create_change_without_active v i owner workspace key =
     (if i = [] \<or> owner = [] \<or> workspace = [] \<or> key = []
      then Inl (ChangeErr ''change id, owner, workspace and idempotency key must be non-empty'')
      else if bt_contains (v_changes v) i
      then Inl (ChangeErr (''change '' @ i @ '' already exists''))
      else if bt_contains (v_workspaces v) workspace
      then Inl (ChangeErr (''workspace '' @ workspace @ '' already exists''))
      else (case List.find (\<lambda>(_, c). cg_owner c = owner \<and> cg_idempotency_key c = key)
                   (bt_items (v_changes v)) of
              Some (existing, _) \<Rightarrow>
                Inl (ChangeErr (''idempotency key already belongs to change '' @ existing))
            | None \<Rightarrow> Inr ()))"

lemma no_active_change:
  assumes "changes_inv ws cs" "bt_get ws w = None"
  shows "List.find (\<lambda>(_, c). cg_workspace_id c = w \<and> cg_active_workspace c = Some w) (bt_items cs) = None"
  unfolding find_None_iff
  using changes_inv_D(2) [OF assms(1)] assms(2) by (auto simp: bt_items_iff)

text \<open>
  The check of \<open>CreateChange\<close> that the workspace is active on another change decides nothing.
  In every view the fold reaches, validation gives the same result, message included, without it:
  a workspace that is not in \<open>workspaces\<close> has no active change.
\<close>

theorem create_change_active_branch_dead:
  assumes "reachable X v"
  shows "validate_create_change v i owner ws key =
    validate_create_change_without_active v i owner ws key"
proof -
  have inv: "changes_inv (v_workspaces v) (v_changes v)"
    using reachable_inv [OF assms] by (simp add: view_inv_def)
  have "List.find (\<lambda>(_, c). cg_workspace_id c = ws \<and> cg_active_workspace c = Some ws)
        (bt_items (v_changes v)) = None" if "\<not> bt_contains (v_workspaces v) ws"
    using that by (intro no_active_change [OF inv]) (simp add: bt_contains_def)
  then show ?thesis
    unfolding validate_create_change_def validate_create_change_without_active_def
    by (intro if_cong refl) (simp only: option.case not_False_eq_True)
qed

lemma create_change_active_branch_dead_witness:
  "validate_create_change default_view ''c'' ''ana'' ''w'' ''k'' =
     validate_create_change_without_active default_view ''c'' ''ana'' ''w'' ''k''"
  by (rule create_change_active_branch_dead [OF reachable_init])

end
