(* ===== verification/View_Identity.thy ===== *)
theory View_Identity
  imports View_History
begin

text \<open>
  Key bindings, the keys of approvers and vouches in \<open>crates/choir-view/src/lib.rs\<close>: what a binding
  keeps for ever, which key a verdict resolves to and that later operations do not change the
  answer, and that a withdrawn vouch leaves no trace.
\<close>

section \<open>Bindings\<close>

text \<open>
  C24: a key's standing cannot be moved, reset or restored. In every later view a bound key is
  still bound, to the same operator and since the same position, and once it is revoked its row
  never changes again.
\<close>

theorem binding_history:
  assumes "later X v v'" "bt_get (v_bindings v) (to_hex key) = Some b"
  shows "\<exists>b'. bt_get (v_bindings v') (to_hex key) = Some b' \<and>
      kb_operator b' = kb_operator b \<and> kb_bound_at b' = kb_bound_at b \<and>
      (is_revoked b \<longrightarrow> b' = b) \<and>
      operator_of v' key = Some (kb_operator b) \<and>
      ops_since_binding v' key = Some (v_next_seq v' - kb_bound_at b)"
  using later_binding_kept [OF assms(1)] assms(2)
  by (force simp: rows_kept_def binding_kept_def operator_of_def ops_since_binding_def)

lemma binding_history_witness:
  "\<exists>v v'. apply_kinds (table_externals []) default_view
       [BindKey ''ana'' sample_a (Some ''ana'')] = Some v \<and>
     apply_kinds (table_externals []) v
       [RevokeKey sample_a ''lost'', DeleteWorkspace ''w''] = Some v' \<and>
     operator_of v' sample_a = Some ''ana'' \<and> ops_since_binding v' sample_a = Some 3"
proof -
  let ?X = "table_externals []"
  obtain v b where v: "apply_kinds ?X default_view [BindKey ''ana'' sample_a (Some ''ana'')] = Some v"
    and b: "bt_get (v_bindings v) (to_hex sample_a) = Some b" "kb_operator b = ''ana''" "kb_bound_at b = 0"
    and v': "\<exists>v'. apply_kinds ?X v [RevokeKey sample_a ''lost'', DeleteWorkspace ''w''] = Some v' \<and>
      v_next_seq v' = 3"
    by (simp add: view_eval)
  then obtain v' where v': "apply_kinds ?X v [RevokeKey sample_a ''lost'', DeleteWorkspace ''w''] = Some v'"
    "v_next_seq v' = 3" by blast
  show ?thesis
    using binding_history [OF apply_kinds_later [OF v'(1) later_refl] b(1)] v v' b by auto
qed

section \<open>The key behind a verdict\<close>

lemma filter_singleton_iff:
  assumes "distinct xs"
  shows "filter P xs = [x] \<longleftrightarrow> x \<in> set xs \<and> P x \<and> (\<forall>y \<in> set xs. P y \<longrightarrow> y = x)"
  using assms by (induction xs) (auto simp: filter_empty_conv)

lemma distinct_bt_items [simp]: "distinct (bt_items m)"
  using bt_keys_distinct [of m] by (simp add: bt_keys_def distinct_map)

lemma bound_actor_at_Inr:
  "bound_actor_at v chan at = Inr key \<longleftrightarrow>
     (\<exists>k b. bt_get (v_bindings v) k = Some b \<and> binding_claims chan b \<and> binding_live_at at b \<and>
        from_hex k = Some key \<and>
        (\<forall>k' b'. bt_get (v_bindings v) k' = Some b' \<longrightarrow> binding_claims chan b' \<longrightarrow>
           binding_live_at at b' \<longrightarrow> k' = k))"
proof -
  let ?P = "\<lambda>(k :: string, b). binding_claims chan b \<and> binding_live_at at b"
  have "bound_actor_at v chan at = Inr key \<longleftrightarrow>
      (\<exists>k b. filter ?P (bt_items (v_bindings v)) = [(k, b)] \<and> from_hex k = Some key)"
    by (auto simp: bound_actor_at_def split: list.splits if_splits)
  also have "\<dots> \<longleftrightarrow> (\<exists>k b. (k, b) \<in> set (bt_items (v_bindings v)) \<and> ?P (k, b) \<and>
      (\<forall>y \<in> set (bt_items (v_bindings v)). ?P y \<longrightarrow> y = (k, b)) \<and> from_hex k = Some key)"
    by (simp add: filter_singleton_iff)
  also have "\<dots> \<longleftrightarrow> (\<exists>k b. bt_get (v_bindings v) k = Some b \<and> binding_claims chan b \<and>
      binding_live_at at b \<and> from_hex k = Some key \<and>
      (\<forall>k' b'. bt_get (v_bindings v) k' = Some b' \<longrightarrow> binding_claims chan b' \<longrightarrow>
         binding_live_at at b' \<longrightarrow> k' = k))"
    unfolding Ball_def split_paired_All bt_items_iff prod.case prod.inject
    by (intro ex_cong1) auto
  finally show ?thesis .
qed

text \<open>The rows of bindings that answer for a channel at a position.\<close>

definition live_row :: "view \<Rightarrow> string \<Rightarrow> nat \<Rightarrow> string \<Rightarrow> bool" where
  "live_row v chan at k =
     (case bt_get (v_bindings v) k of
        None \<Rightarrow> False | Some b \<Rightarrow> binding_claims chan b \<and> binding_live_at at b)"

lemma live_row_iff:
  "live_row v chan at k \<longleftrightarrow>
     (\<exists>b. bt_get (v_bindings v) k = Some b \<and> binding_claims chan b \<and> binding_live_at at b)"
  by (simp add: live_row_def split: option.splits)

lemma bound_actor_at_live_row:
  "bound_actor_at v chan at = Inr key \<longleftrightarrow>
     (\<exists>k. live_row v chan at k \<and> from_hex k = Some key \<and> (\<forall>k'. live_row v chan at k' \<longrightarrow> k' = k))"
  unfolding bound_actor_at_Inr live_row_iff by blast

lemma bindings_frame:
  assumes "apply_kind v k = Some w" "\<And>opr key ch. k \<noteq> BindKey opr key ch"
    "\<And>key reason. k \<noteq> RevokeKey key reason"
  shows "v_bindings w = v_bindings v"
  using assms
  by (cases k) (auto simp: apply_kind_def apply_arms Let_def split: option.splits)

lemma live_row_step:
  assumes "validate_kind X v k = Inr ()" "apply_kind v k = Some w" "at < v_next_seq v"
    and "\<And>opr key ch. k = BindKey opr key ch \<Longrightarrow> bt_get (v_bindings v) (to_hex key) = None"
  shows "live_row w chan at i = live_row v chan at i"
proof (cases k)
  case (BindKey opr key ch)
  then have "bt_get (v_bindings v) (to_hex key) = None" by (rule assms(4))
  then show ?thesis
    using assms(2,3) BindKey
    by (auto simp: apply_kind_def apply_bind_key_def Let_def live_row_def bt_get_insert
        binding_live_at_def split: if_splits)
next
  case (RevokeKey key reason)
  then obtain b where "bt_get (v_bindings v) (to_hex key) = Some b" "kb_revoked b = None"
    using assms(1) by (auto simp: validate_kind_def op_simps)
  then show ?thesis
    using assms(2,3) RevokeKey
    by (auto simp: apply_kind_def apply_revoke_key_def Let_def live_row_def bt_get_insert
        binding_live_at_def binding_claims_def split: if_splits)
qed (use bindings_frame [OF assms(2)] in \<open>simp_all add: live_row_def\<close>)

lemma bindings_inv_reachable: "reachable X v \<Longrightarrow> bindings_inv (v_next_seq v) (v_bindings v)"
  by (drule reachable_inv) (simp add: view_inv_def)

text \<open>
  C25: the key an approval is credited to. When \<open>bound_actor_at\<close> names a key for a channel at a
  position, that key is bound in the log to the operator the channel reads as, claims exactly this
  channel, was bound no later than the position and not revoked before or at it, and no other key
  of the log is both live there and claims the channel.
\<close>

theorem bound_actor_sound:
  assumes "reachable X v" "bound_actor_at v chan at = Inr key"
  shows "(\<exists>b. bt_get (v_bindings v) (to_hex key) = Some b \<and> kb_channel b = Some chan \<and>
      kb_operator b = reviewer_operator chan \<and> kb_bound_at b \<le> at \<and>
      (\<forall>r. kb_revoked b = Some r \<longrightarrow> at < rv_at r)) \<and>
    (\<forall>k'. live_row v chan at k' \<longrightarrow> k' = to_hex key)"
proof -
  obtain k where k: "live_row v chan at k" "from_hex k = Some key"
    "\<forall>k'. live_row v chan at k' \<longrightarrow> k' = k"
    using assms(2) unfolding bound_actor_at_live_row by blast
  obtain b where b: "bt_get (v_bindings v) k = Some b" "binding_claims chan b"
    "binding_live_at at b" using k(1) unfolding live_row_iff by blast
  then have inv: "binding_inv (v_next_seq v) k b"
    using bindings_inv_reachable [OF assms(1)] bindings_inv_get by blast
  then obtain h where h: "k = to_hex h" by (auto simp: binding_inv_def is_key_id_def)
  then have "h = key" using k(2) from_hex_to_hex [of h] from_hex_to_hex_empty [of h]
    by (cases "digest h = []") auto
  then have key: "k = to_hex key" using h by simp
  have "kb_channel b = Some chan" using b(2) by (simp add: binding_claims_def)
  moreover from this have "kb_operator b = reviewer_operator chan"
    using inv by (simp add: binding_inv_def)
  moreover have "kb_bound_at b \<le> at" "\<And>r. kb_revoked b = Some r \<Longrightarrow> at < rv_at r"
    using b(3) by (auto simp: binding_live_at_def)
  ultimately show ?thesis using b(1) k(3) key by blast
qed

lemma bound_actor_sound_witness:
  "\<exists>v. apply_kinds (table_externals []) default_view
       [BindKey ''ana'' sample_a (Some ''ana'')] = Some v \<and>
     bound_actor_at v ''ana'' 0 = Inr sample_a \<and>
     (\<exists>b. bt_get (v_bindings v) (to_hex sample_a) = Some b \<and> kb_operator b = reviewer_operator ''ana'')"
proof -
  have hex: "from_hex (to_hex sample_a) = Some sample_a"
    by (rule from_hex_to_hex) (simp add: sample_a_def)
  obtain v where v: "apply_kinds (table_externals []) default_view
      [BindKey ''ana'' sample_a (Some ''ana'')] = Some v"
    and a: "bound_actor_at v ''ana'' 0 = Inr sample_a"
    by (simp add: view_eval bound_actor_at_def binding_claims_def binding_live_at_def hex)
  show ?thesis using bound_actor_sound [OF apply_kinds_reachable [OF v] a] v a by blast
qed

text \<open>
  The key behind a past position does not change when the log grows. An applied operation that
  does not rebind a key already bound (a fresh binding, a revocation and everything else included)
  leaves the answer of \<open>bound_actor_at\<close> at every position before it as it was.
\<close>

theorem bound_actor_stable:
  assumes "reachable X v" "apply_view X v vop = Some (Inr (), v')" "at < v_next_seq v"
    and "\<And>opr key ch. vo_kind vop = BindKey opr key ch \<Longrightarrow> bt_get (v_bindings v) (to_hex key) = None"
  shows "bound_actor_at v' chan at = Inr key \<longleftrightarrow> bound_actor_at v chan at = Inr key"
proof -
  obtain w where w: "validate_kind X v (vo_kind vop) = Inr ()" "apply_kind v (vo_kind vop) = Some w"
    "v' = w\<lparr>v_next_seq := v_next_seq v + 1\<rparr>"
    using assms(2) by (auto simp: apply_view_Inr)
  have "live_row v' chan at i = live_row v chan at i" for i
    using live_row_step [OF w(1,2) assms(3,4)] w(3)
    by (simp add: live_row_def)
  then show ?thesis unfolding bound_actor_at_live_row by simp
qed

lemma bound_actor_stable_witness:
  "\<exists>v v'. apply_kinds (table_externals []) default_view
       [BindKey ''ana'' sample_a (Some ''ana'')] = Some v \<and>
     apply_view (table_externals []) v (new_view_op (RevokeKey sample_a ''lost'')) = Some (Inr (), v') \<and>
     bound_actor_at v' ''ana'' 0 = Inr sample_a"
proof -
  have hex: "from_hex (to_hex sample_a) = Some sample_a"
    by (rule from_hex_to_hex) (simp add: sample_a_def)
  obtain v where v: "apply_kinds (table_externals []) default_view
      [BindKey ''ana'' sample_a (Some ''ana'')] = Some v"
    and a: "bound_actor_at v ''ana'' 0 = Inr sample_a" "v_next_seq v = 1"
    and r: "\<exists>v'. apply_view (table_externals []) v (new_view_op (RevokeKey sample_a ''lost'')) =
      Some (Inr (), v')"
    by (simp add: view_eval bound_actor_at_def binding_claims_def binding_live_at_def hex)
  obtain v' where v': "apply_view (table_externals []) v
      (new_view_op (RevokeKey sample_a ''lost'')) = Some (Inr (), v')"
    using r by blast
  have "bound_actor_at v' ''ana'' 0 = Inr sample_a \<longleftrightarrow> bound_actor_at v ''ana'' 0 = Inr sample_a"
    by (rule bound_actor_stable [OF apply_kinds_reachable [OF v] v'])
       (simp_all add: a new_view_op_def)
  then show ?thesis using v v' a by blast
qed

section \<open>Vouches\<close>

text \<open>
  A standing vouch is between two distinct operators that the log has bound a key to.
\<close>

theorem vouch_between_bound_operators:
  assumes "reachable X v" "vouch_stands v a b"
  shows "a \<noteq> b \<and> has_binding (v_bindings v) a \<and> has_binding (v_bindings v) b"
proof -
  have "vouches_inv (v_next_seq v) (v_bindings v) (v_vouches v)"
    using reachable_inv [OF assms(1)] by (simp add: view_inv_def)
  then show ?thesis using assms(2) unfolding vouches_inv_def vouch_stands_iff by blast
qed

definition sample_vouch_ops :: "op_kind list" where
  "sample_vouch_ops =
     [BindKey ''ana'' sample_a None, BindKey ''ben'' sample_b None, Vouch ''ana'' ''ben'' ''met'']"

lemma sample_hex_less [simp]: "to_hex sample_a < to_hex sample_b"
  by (simp add: to_hex_def sample_a_def sample_b_def hex_byte_def hex_digit_def)

lemma sample_hex_not_less [simp]: "\<not> to_hex sample_b < to_hex sample_a"
  using sample_hex_less by (rule less_not_sym)

lemma vouch_between_bound_operators_witness:
  "\<exists>v. apply_kinds (table_externals []) default_view sample_vouch_ops = Some v \<and>
     vouch_stands v ''ana'' ''ben'' \<and> has_binding (v_bindings v) ''ben''"
proof -
  obtain v where v: "apply_kinds (table_externals []) default_view sample_vouch_ops = Some v"
    and s: "vouch_stands v ''ana'' ''ben''"
    by (simp add: view_eval sample_vouch_ops_def or_default_def)
  show ?thesis
    using vouch_between_bound_operators [OF apply_kinds_reachable [OF v] s] v s by blast
qed

lemma bt_insert_remove_fresh: "bt_get m k = None \<Longrightarrow> bt_remove k (bt_insert k x m) = m"
  by (rule bt_eqI) (simp add: bt_get_remove bt_get_insert)

lemma bt_insert_same: "bt_get m k = Some x \<Longrightarrow> bt_insert k x (bt_insert k y m) = m"
  by (rule bt_eqI) (simp add: bt_get_insert)

text \<open>
  A vouch that is placed and withdrawn leaves no trace in the view. After \<open>Vouch\<close> was applied
  the withdrawal is admitted, whoever has been revoked since, and it restores the map of vouches
  exactly, the row of the subject included.
\<close>

theorem vouch_withdraw_restores:
  assumes "reachable X v" "reason \<noteq> []"
    and "apply_view X v (new_view_op (Vouch a b note)) = Some (Inr (), v1)"
  shows "\<exists>v2. apply_view X v1 (new_view_op (WithdrawVouch a b reason)) = Some (Inr (), v2) \<and>
      v_vouches v2 = v_vouches v"
proof -
  let ?s = "\<lparr>vs_at = v_next_seq v, vs_note = note\<rparr>"
  have v1: "v_vouches v1 = bt_insert b (bt_insert a ?s (or_default (v_vouches v) b)) (v_vouches v)"
    and fresh: "\<not> vouch_stands v a b"
    using assms(3)
    by (auto simp: apply_view_Inr new_view_op_def validate_kind_def op_simps apply_kind_def
        apply_vouch_def Let_def)
  have nonempty: "bt_get (v_vouches v) b = Some from \<Longrightarrow> \<not> bt_is_empty from" for "from"
    using reachable_inv [OF assms(1)] unfolding view_inv_def vouches_inv_def by blast
  have "bt_get (or_default (v_vouches v) b) a = None"
    using fresh by (auto simp: vouch_stands_def or_default_def bt_contains_def split: option.splits)
  then have left: "bt_remove a (bt_insert a ?s (or_default (v_vouches v) b)) = or_default (v_vouches v) b"
    by (rule bt_insert_remove_fresh)
  have "v_vouches (apply_withdraw_vouch v1 a b) = v_vouches v"
  proof (cases "bt_get (v_vouches v) b")
    case None
    then show ?thesis
      using left v1 by (simp add: apply_withdraw_vouch_def Let_def or_default_def bt_insert_remove_fresh)
  next
    case (Some "from")
    then show ?thesis
      using left v1 nonempty [OF Some]
      by (simp add: apply_withdraw_vouch_def Let_def or_default_def bt_insert_same)
  qed
  moreover have "vouch_stands v1 a b" by (simp add: v1 vouch_stands_def bt_contains_def)
  ultimately show ?thesis
    using assms(2) by (simp add: apply_view_Inr new_view_op_def validate_kind_def op_simps apply_kind_def)
qed

lemma vouch_withdraw_restores_witness:
  "\<exists>v v1 v2. apply_kinds (table_externals []) default_view
       [BindKey ''ana'' sample_a None, BindKey ''ben'' sample_b None] = Some v \<and>
     apply_view (table_externals []) v (new_view_op (Vouch ''ana'' ''ben'' ''met'')) = Some (Inr (), v1) \<and>
     apply_view (table_externals []) v1 (new_view_op (WithdrawVouch ''ana'' ''ben'' ''left'')) =
       Some (Inr (), v2) \<and> v_vouches v2 = v_vouches v"
proof -
  let ?X = "table_externals []"
  obtain v where v: "apply_kinds ?X default_view
      [BindKey ''ana'' sample_a None, BindKey ''ben'' sample_b None] = Some v"
    and e: "\<exists>v1. apply_view ?X v (new_view_op (Vouch ''ana'' ''ben'' ''met'')) = Some (Inr (), v1)"
    by (simp add: view_eval or_default_def)
  obtain v1 where v1: "apply_view ?X v (new_view_op (Vouch ''ana'' ''ben'' ''met'')) = Some (Inr (), v1)"
    using e by blast
  show ?thesis
    using vouch_withdraw_restores [OF apply_kinds_reachable [OF v] _ v1, of "''left''"] v v1 by auto
qed

end
