(* ===== verification/View_Gate.thy ===== *)
theory View_Gate
  imports View_Identity
begin

text \<open>
  Reviews as the gate of protected landings in \<open>crates/choir-view/src/lib.rs\<close>: what an approval
  weighs, what settling a review preserves, that a settled review only ever loses authority, and
  what an admitted \<open>Submit\<close> has established.
\<close>

section \<open>Rows\<close>

lemma review_inv_reachable:
  "reachable X v \<Longrightarrow> bt_get (v_reviews v) i = Some r \<Longrightarrow> review_inv (v_next_seq v) r"
  by (drule reachable_inv) (simp add: view_inv_def reviews_inv_def)

lemma slashed_operators_mono:
  assumes "review_kept r r'"
  shows "slashed_operators r \<subseteq> slashed_operators r'"
  using assms by (auto simp: review_kept_def slashed_operators_def bt_keys_iff)

lemma slashed_operators_iff:
  "opr \<in> slashed_operators r \<longleftrightarrow> (\<exists>s. bt_contains (rs_slashes r) s \<and> reviewer_operator s = opr)"
  unfolding slashed_operators_def image_iff Bex_def bt_keys_iff bt_contains_def by blast

text \<open>The standing approvals of a live review, one per operator, with their positions.\<close>

lemma counted_operators:
  "distinct (map (reviewer_operator \<circ> fst) (counted_approvers r)) \<and>
   (reviewer_operator \<circ> fst) ` set (counted_approvers r) = approving_operators r - slashed_operators r"
proof -
  let ?F = "firsts item_operator approval_item (\<lambda>op. \<not> (True \<and> op \<in> slashed_operators r))
      (bt_items (rs_verdicts r))"
  have c: "counted_approvers r = map (\<lambda>(_, reviewer, answer). (reviewer, vd_at answer)) ?F"
    by (simp only: counted_approvers_def counted_approver_channels_firsts)
  then have m: "map (reviewer_operator \<circ> fst) (counted_approvers r) = map (item_operator \<circ> snd) ?F"
    by (simp add: case_prod_unfold)
  have "(reviewer_operator \<circ> fst) ` set (counted_approvers r) = item_operator ` snd ` set ?F"
    using arg_cong [OF m, of set] by (simp add: image_comp)
  also have "\<dots> = item_operator ` {x \<in> set (bt_items (rs_verdicts r)).
      approval_item x \<and> item_operator x \<notin> slashed_operators r}"
    using firsts_keys [of item_operator approval_item
        "\<lambda>op. \<not> (True \<and> op \<in> slashed_operators r)" "bt_items (rs_verdicts r)"] by simp
  also have "\<dots> = approving_operators r - slashed_operators r"
    by (force simp: approving_operators_def has_approved_def image_iff bt_items_iff split: option.splits)
  finally show ?thesis
    using firsts_keys [of item_operator approval_item
        "\<lambda>op. \<not> (True \<and> op \<in> slashed_operators r)" "bt_items (rs_verdicts r)"]
    unfolding m by simp
qed

lemma counted_standing:
  assumes "(c, at) \<in> set (counted_approvers r)"
  shows "standing_approval_at r c = Some at"
  using assms
  by (auto simp: counted_approvers_def counted_approver_channels_def Let_def in_set_enumerate_eq
      standing_approval_at_def bt_items_iff dest!: nth_mem)

lemma length_counted: "length (counted_approvers r) = card (approving_operators r - slashed_operators r)"
proof -
  have "length (counted_approvers r) = card (set (map (reviewer_operator \<circ> fst) (counted_approvers r)))"
    using counted_operators [of r] by (metis distinct_card length_map)
  also have "set (map (reviewer_operator \<circ> fst) (counted_approvers r)) =
      approving_operators r - slashed_operators r"
    using counted_operators [of r] by simp
  finally show ?thesis .
qed

section \<open>Properties of reviews\<close>

text \<open>
  C21: the approval weight of a live review is the number of distinct operators with an approval and
  without a slashed channel: channels of one operator never add up, whatever their order.
\<close>

theorem approval_weight_operators:
  assumes "rs_status r = Live"
  shows "approval_weight r = card {opr. (\<exists>c. has_approved r c \<and> reviewer_operator c = opr) \<and>
      \<not> (\<exists>s. bt_contains (rs_slashes r) s \<and> reviewer_operator s = opr)}"
proof -
  have "{opr. (\<exists>c. has_approved r c \<and> reviewer_operator c = opr) \<and>
      \<not> (\<exists>s. bt_contains (rs_slashes r) s \<and> reviewer_operator s = opr)} =
      {opr \<in> approving_operators r. \<not> (True \<and> opr \<in> slashed_operators r)}"
    using slashed_operators_iff by (auto simp: approving_operators_def)
  then show ?thesis using assms by (simp add: approval_weight_def live_approval_weight_card)
qed

lemma approval_weight_operators_witness:
  "approval_weight (requested_review sample_a [''ana''] None) = 0"
proof -
  have "rs_status (requested_review sample_a [''ana''] None) = Live"
    by (simp add: requested_review_def)
  from approval_weight_operators [OF this] show ?thesis
    by (simp add: requested_review_def has_approved_def)
qed

text \<open>
  Settling a complete review keeps its approval weight, slashes included, records the outcome it
  had, and drops the verdicts, the reviewers and the discussion.
\<close>

theorem archive_keeps_weight:
  assumes "reachable X v" "bt_get (v_reviews v) i = Some r"
    and "apply_view X v (new_view_op (ArchiveReview i False)) = Some (Inr (), v')"
  shows "\<exists>r' w. bt_get (v_reviews v') i = Some r' \<and> approval_weight r' = approval_weight r \<and>
      rs_status r' = Archived (approved r) w \<and> rs_target r' = rs_target r \<and>
      rs_target_ref r' = rs_target_ref r \<and> rs_slashes r' = rs_slashes r \<and>
      rs_reviewers r' = [] \<and> bt_is_empty (rs_verdicts r') \<and> rs_comments r' = []"
proof -
  have live: "rs_status r = Live"
    and v': "bt_get (v_reviews v') i = Some (archived_review r False)"
    using assms(2,3)
    by (auto simp: apply_view_Inr new_view_op_def validate_kind_def op_simps apply_kind_def
        apply_archive_review_def)
  have "slashes_are_approvals r"
    using review_inv_reachable [OF assms(1,2)] live by (simp add: review_inv_def)
  then show ?thesis
    using archived_weight [OF live] v' by (auto simp: archived_review_def)
qed

definition sample_review_ops :: "op_kind list" where
  "sample_review_ops =
     [RequestReview ''r'' sample_a [''ana'', ''ben''] (Some ''main''),
      PostVerdict ''r'' ''ana'' Approve [], PostVerdict ''r'' ''ben'' Approve []]"

lemmas review_eval =
  complete_def approved_def has_approved_def approval_weight_def live_approval_weight_def
  counted_approver_channels_def operator_is_slashed_def slashed_operator_count_def
  max_approval_weight_per_operator_def archived_review_def standing_approval_at_def
  counted_approvers_def

lemma archive_keeps_weight_witness:
  "\<exists>v v' r r'. apply_kinds (table_externals []) default_view sample_review_ops = Some v \<and>
     bt_get (v_reviews v) ''r'' = Some r \<and>
     apply_view (table_externals []) v (new_view_op (ArchiveReview ''r'' False)) = Some (Inr (), v') \<and>
     bt_get (v_reviews v') ''r'' = Some r' \<and> approval_weight r' = approval_weight r"
proof -
  let ?X = "table_externals []"
  obtain v r where v: "apply_kinds ?X default_view sample_review_ops = Some v"
    and r: "bt_get (v_reviews v) ''r'' = Some r"
    and e: "\<exists>v'. apply_view ?X v (new_view_op (ArchiveReview ''r'' False)) = Some (Inr (), v')"
    by (simp add: view_eval sample_review_ops_def review_eval)
  then obtain v' where v': "apply_view ?X v (new_view_op (ArchiveReview ''r'' False)) = Some (Inr (), v')"
    by blast
  show ?thesis
    using archive_keeps_weight [OF apply_kinds_reachable [OF v] r v'] v r v' by blast
qed

text \<open>
  C23: a settled review only ever loses authority. In every later view it is still archived with the
  same target and target ref, its slashes only grow (each stays, with its reason), its approval weight
  never increases, and it is never approved again after it was not.
\<close>

theorem archived_review_only_loses:
  assumes "later X v v'" "bt_get (v_reviews v) i = Some r" "rs_status r = Archived ok w"
  shows "\<exists>r'. bt_get (v_reviews v') i = Some r' \<and> rs_status r' = Archived ok w \<and>
      rs_target r' = rs_target r \<and> rs_target_ref r' = rs_target_ref r \<and>
      (\<forall>c reason. bt_get (rs_slashes r) c = Some reason \<longrightarrow> bt_get (rs_slashes r') c = Some reason) \<and>
      approval_weight r' \<le> approval_weight r \<and> (approved r' \<longrightarrow> approved r)"
proof -
  obtain r' where r': "bt_get (v_reviews v') i = Some r'" "review_kept r r'"
    using later_review_kept [OF assms(1)] assms(2) by (auto simp: rows_kept_def)
  have st: "rs_status r' = Archived ok w" using r'(2) assms(3) by (simp add: review_kept_def)
  have "card (slashed_operators r) \<le> card (slashed_operators r')"
    using slashed_operators_mono [OF r'(2)] by (simp add: card_mono)
  then have "approval_weight r' \<le> approval_weight r"
    by (simp add: approval_weight_def st assms(3) slashed_operator_count_card
        max_approval_weight_per_operator_def diff_le_mono2)
  then show ?thesis
    using r' st assms(3) by (auto simp: review_kept_def approved_def)
qed

lemma archived_review_only_loses_witness:
  "\<exists>v v' r'. apply_kinds (table_externals []) default_view
       (sample_review_ops @ [ArchiveReview ''r'' False]) = Some v \<and>
     apply_kinds (table_externals []) v [SlashApproval ''r'' ''ana'' ''bug''] = Some v' \<and>
     bt_get (v_reviews v') ''r'' = Some r' \<and> rs_status r' = Archived True 2"
proof -
  let ?X = "table_externals []"
  obtain v r where v: "apply_kinds ?X default_view (sample_review_ops @ [ArchiveReview ''r'' False]) = Some v"
    and r: "bt_get (v_reviews v) ''r'' = Some r" "rs_status r = Archived True 2"
    and e: "\<exists>v'. apply_kinds ?X v [SlashApproval ''r'' ''ana'' ''bug''] = Some v'"
    by (simp add: view_eval sample_review_ops_def review_eval)
  then obtain v' where v': "apply_kinds ?X v [SlashApproval ''r'' ''ana'' ''bug''] = Some v'"
    by blast
  show ?thesis
    using archived_review_only_loses [OF apply_kinds_later [OF v' later_refl] r] v v' by blast
qed

text \<open>
  C22: a slash is for the life of the review. Once an approval was slashed on a review, no approval
  of any channel of the same operator stands on it in any later view, and none is counted.
\<close>

theorem slash_silences_operator:
  assumes "later X v v'" "bt_get (v_reviews v) i = Some r" "bt_contains (rs_slashes r) c"
    and "bt_get (v_reviews v') i = Some r'" "reviewer_operator d = reviewer_operator c"
  shows "\<not> approval_stands r' d \<and> d \<notin> fst ` set (counted_approvers r')"
proof -
  have "review_kept r r'"
    using later_review_kept [OF assms(1)] assms(2,4) by (force simp: rows_kept_def)
  moreover have "reviewer_operator d \<in> slashed_operators r"
    using assms(3,5) unfolding slashed_operators_iff by auto
  ultimately have "reviewer_operator d \<in> slashed_operators r'"
    using slashed_operators_mono by blast
  then have "standing_approval_at r' d = None"
    by (simp add: standing_approval_at_def operator_is_slashed_iff split: option.split)
  then show ?thesis
    using counted_standing [of d _ r'] by (auto simp: approval_stands_def)
qed

lemma slash_silences_operator_witness:
  "\<exists>v v' r'. apply_kinds (table_externals []) default_view
       (sample_review_ops @ [SlashApproval ''r'' ''ana'' ''bug'']) = Some v \<and>
     apply_kinds (table_externals []) v [PostComment ''r'' ''1'' ''ben'' ''hm''] = Some v' \<and>
     bt_get (v_reviews v') ''r'' = Some r' \<and> \<not> approval_stands r' ''ana''"
proof -
  let ?X = "table_externals []"
  obtain v r where v: "apply_kinds ?X default_view
      (sample_review_ops @ [SlashApproval ''r'' ''ana'' ''bug'']) = Some v"
    and r: "bt_get (v_reviews v) ''r'' = Some r" "bt_contains (rs_slashes r) ''ana''"
    and e: "\<exists>v' r'. apply_kinds ?X v [PostComment ''r'' ''1'' ''ben'' ''hm''] = Some v' \<and>
      bt_get (v_reviews v') ''r'' = Some r'"
    by (simp add: view_eval sample_review_ops_def review_eval)
  then obtain v' r' where v': "apply_kinds ?X v [PostComment ''r'' ''1'' ''ben'' ''hm''] = Some v'"
    "bt_get (v_reviews v') ''r'' = Some r'"
    by blast
  show ?thesis
    using slash_silences_operator [OF apply_kinds_later [OF v'(1) later_refl] r v'(2) refl] v v' by blast
qed



section \<open>The landing gate\<close>

text \<open>What a landing establishes of the approver a key stands for.\<close>

definition approver_key :: "view \<Rightarrow> string \<Rightarrow> nat \<Rightarrow> content_hash \<Rightarrow> bool" where
  "approver_key v chan at key =
     (case bt_get (v_bindings v) (to_hex key) of
        None \<Rightarrow> False
      | Some b \<Rightarrow> kb_operator b = reviewer_operator chan \<and> kb_bound_at b \<le> at \<and>
          (case kb_revoked b of None \<Rightarrow> True | Some gone \<Rightarrow> at < rv_at gone))"

lemma bound_actor_approver:
  "reachable X v \<Longrightarrow> bound_actor_at v chan at = Inr key \<Longrightarrow> approver_key v chan at key"
  using bound_actor_sound [of X v chan at key] by (auto simp: approver_key_def split: option.splits)

lemma collected_approvers:
  assumes "collect_results (map (\<lambda>(chan, at). bound_actor_at v chan at) cs) = Inr keys" "reachable X v"
  shows "list_all2 (\<lambda>(chan, at) key. approver_key v chan at key) cs keys"
  using assms(1) bound_actor_approver [OF assms(2)]
  by (auto simp: collect_results_Inr list_all2_conv_all_nth list_eq_iff_nth_eq case_prod_unfold)

lemma list_all2_image:
  "list_all2 P xs ys \<Longrightarrow> (\<And>x y. P x y \<Longrightarrow> f x = g y) \<Longrightarrow> f ` set xs = g ` set ys"
  by (induction rule: list_all2_induct) auto

text \<open>
  The specification of the gate: what the basis of an authorization must be backed by. For an
  approval weight the operators of the listed keys are exactly the operators with an approval and
  without a slash, each once, and each key was live when that verdict was cast.
\<close>

definition basis_backed :: "view \<Rightarrow> review_state \<Rightarrow> authorization \<Rightarrow> bool" where
  "basis_backed v r auth =
     (case au_basis auth of
        OwnerLanded owner \<Rightarrow> owner \<noteq> [] \<and> au_approvers auth = []
      | OwnerApproved owner \<Rightarrow>
          (\<exists>at key. standing_approval_at r owner = Some at \<and> au_approvers auth = [key] \<and>
             approver_key v owner at key)
      | ApprovalWeight required met \<Rightarrow>
          0 < required \<and> required \<le> met \<and> met = min (approval_weight r) u32_max \<and>
          length (au_approvers auth) = approval_weight r \<and>
          operator_of v ` set (au_approvers auth) =
            Some ` (approving_operators r - slashed_operators r) \<and>
          (\<forall>key \<in> set (au_approvers auth). \<exists>chan at.
             standing_approval_at r chan = Some at \<and> approver_key v chan at key))"

lemma weight_basis_backed:
  assumes "reachable X v" "rs_status r = Live"
    and "collect_results (map (\<lambda>(chan, at). bound_actor_at v chan at) (counted_approvers r)) = Inr keys"
  shows "length keys = approval_weight r \<and>
      operator_of v ` set keys = Some ` (approving_operators r - slashed_operators r) \<and>
      (\<forall>key \<in> set keys. \<exists>chan at. standing_approval_at r chan = Some at \<and> approver_key v chan at key)"
proof -
  note l = collected_approvers [OF assms(3,1)]
  have len: "length keys = approval_weight r"
    using list_all2_lengthD [OF l] length_counted [of r] assms(2)
    by (simp add: approval_weight_def live_approval_weight_card set_diff_eq)
  have "(\<lambda>x. Some (reviewer_operator (fst x))) ` set (counted_approvers r) = operator_of v ` set keys"
    using l by (rule list_all2_image) (auto simp: approver_key_def operator_of_def split: option.splits)
  then have ops: "operator_of v ` set keys = Some ` (approving_operators r - slashed_operators r)"
    using counted_operators [of r] by (metis (no_types, lifting) comp_apply image_cong image_image)
  have "\<exists>chan at. standing_approval_at r chan = Some at \<and> approver_key v chan at key"
    if key: "key \<in> set keys" for key
  proof -
    obtain j where j: "j < length keys" "key = keys ! j" using key by (auto simp: in_set_conv_nth)
    then have jc: "j < length (counted_approvers r)" using list_all2_lengthD [OF l] by simp
    obtain chan at where c: "counted_approvers r ! j = (chan, at)" by (cases "counted_approvers r ! j")
    then have "standing_approval_at r chan = Some at"
      using counted_standing nth_mem [OF jc] by metis
    moreover have "approver_key v chan at key" using list_all2_nthD [OF l jc] c j by simp
    ultimately show ?thesis by blast
  qed
  then show ?thesis using len ops by blast
qed

text \<open>
  C5: nothing lands through \<open>Submit\<close> that its review did not authorize. In a reachable view an
  applied \<open>Submit\<close> moves exactly the ref it names from the value it names, that ref and commit are
  what a live review proposes, and its authorization is backed by the log: for an approval weight,
  by as many distinct operators as it requires, each through a key live at its verdict.
\<close>

theorem submit_authorized:
  assumes "reachable X v" "apply_view X v vop = Some (Inr (), v')"
    and "vo_kind vop = Submit review name commit prev auth"
  shows "\<exists>r. bt_get (v_reviews v) review = Some r \<and> rs_status r = Live \<and>
      rs_target_ref r = Some name \<and> rs_target r = Some commit \<and> basis_backed v r auth \<and>
      bt_get (v_refs v) name = prev \<and> v_refs v' = bt_insert name commit (v_refs v) \<and>
      v_reviews v' = v_reviews v"
proof -
  obtain r where r: "bt_get (v_reviews v) review = Some r" "rs_status r = Live"
    "rs_target_ref r = Some name" "rs_target r = Some commit"
    "rederived_approvers v review r (au_basis auth) = Inr (au_approvers auth)"
    and p: "bt_get (v_refs v) name = prev"
    using assms(2,3) by (auto simp: apply_view_Inr validate_kind_def op_simps)
  have v': "v_refs v' = bt_insert name commit (v_refs v)" "v_reviews v' = v_reviews v"
    using assms(2,3) by (auto simp: apply_view_Inr apply_kind_def apply_submit_def)
  have "basis_backed v r auth"
  proof (cases "au_basis auth")
    case (OwnerLanded owner)
    then show ?thesis using r(5) by (auto simp: basis_backed_def rederived_approvers_def split: if_splits)
  next
    case (OwnerApproved owner)
    then obtain at key where "standing_approval_at r owner = Some at"
      "bound_actor_at v owner at = Inr key" "[key] = au_approvers auth"
      using r(5) by (auto simp: rederived_approvers_def)
    then show ?thesis
      using OwnerApproved bound_actor_approver [OF assms(1)] unfolding basis_backed_def by force
  next
    case (ApprovalWeight required met)
    then show ?thesis using r(5) weight_basis_backed [OF assms(1) r(2), of "au_approvers auth"]
      by (auto simp: basis_backed_def rederived_approvers_def Let_def not_less split: if_splits)
  qed
  then show ?thesis using r p v' by blast
qed

definition sample_landing_ops :: "op_kind list" where
  "sample_landing_ops =
     [BindKey ''ana'' sample_a (Some ''ana''), RequestReview ''r'' sample_b [''ana''] (Some ''main''),
      PostVerdict ''r'' ''ana'' Approve []]"

lemma submit_authorized_witness:
  "\<exists>v v' r. apply_kinds (table_externals []) default_view sample_landing_ops = Some v \<and>
     apply_view (table_externals []) v (new_view_op (Submit ''r'' ''main'' sample_b None
       (new_authorization (ApprovalWeight 1 1) [sample_a]))) = Some (Inr (), v') \<and>
     bt_get (v_reviews v) ''r'' = Some r \<and>
     basis_backed v r (new_authorization (ApprovalWeight 1 1) [sample_a])"
proof -
  let ?X = "table_externals []"
  let ?auth = "new_authorization (ApprovalWeight 1 1) [sample_a]"
  let ?k = "Submit ''r'' ''main'' sample_b None ?auth"
  have hex: "from_hex (to_hex sample_a) = Some sample_a"
    by (rule from_hex_to_hex) (simp add: sample_a_def)
  obtain v where v: "apply_kinds ?X default_view sample_landing_ops = Some v"
    and e: "\<exists>v'. apply_view ?X v (new_view_op ?k) = Some (Inr (), v')"
    by (simp add: view_eval sample_landing_ops_def review_eval new_authorization_def
        rederived_approvers_def u32_max_def bound_actor_at_def binding_claims_def
        binding_live_at_def hex)
  then obtain v' where v': "apply_view ?X v (new_view_op ?k) = Some (Inr (), v')" by blast
  show ?thesis
    using submit_authorized [OF apply_kinds_reachable [OF v] v', of "''r''" "''main''" sample_b None ?auth]
      v v' by (auto simp: new_view_op_def)
qed

end
