(* ===== verification/View_Refs.thy ===== *)
theory View_Refs
  imports View_History
begin

text \<open>
  Refs, ref-state attestations and check reports in \<open>crates/choir-view/src/lib.rs\<close>: the
  compare-and-swap of a ref, the one snapshot a view admits, and the range scan of \<open>checks_for\<close>
  against the map it reads.
\<close>

section \<open>Refs\<close>

text \<open>
  C27: no lost update on a ref. An applied \<open>SetRef\<close> found the value it names, sets that ref and
  touches nothing else of the refs; and a second writer that read the same old value is refused,
  told the value that is there now, as long as the write moved the ref at all.
\<close>

theorem set_ref_no_lost_update:
  assumes "apply_view X v vop = Some (Inr (), v')" "vo_kind vop = SetRef name commit prev"
  shows "bt_get (v_refs v) name = prev \<and> bt_get (v_refs v') name = Some commit \<and>
      (\<forall>other. other \<noteq> name \<longrightarrow> bt_get (v_refs v') other = bt_get (v_refs v) other) \<and>
      (prev \<noteq> Some commit \<longrightarrow>
         apply_view X v' (new_view_op (SetRef name commit2 prev)) =
           Some (Inl (StaleHead name prev (Some commit)), v') \<and>
         apply_view X v' (new_view_op (DeleteRef name prev)) =
           Some (Inl (StaleHead name prev (Some commit)), v'))"
  using assms
  by (auto simp: apply_view_Inr apply_view_Inl apply_kind_def apply_set_ref_def validate_kind_def
      op_simps new_view_op_def validate_ref_cas_def cas_def)

lemma set_ref_no_lost_update_witness:
  "\<exists>v'. apply_view (table_externals []) default_view (new_view_op (SetRef ''main'' sample_a None)) =
       Some (Inr (), v') \<and>
     apply_view (table_externals []) v' (new_view_op (SetRef ''main'' sample_b None)) =
       Some (Inl (StaleHead ''main'' None (Some sample_a)), v')"
proof -
  obtain v' where v': "apply_view (table_externals []) default_view
      (new_view_op (SetRef ''main'' sample_a None)) = Some (Inr (), v')"
    by (simp add: view_eval)
  show ?thesis
    using set_ref_no_lost_update [OF v', of "''main''" sample_a None sample_b] v'
    by (simp add: new_view_op_def)
qed

section \<open>Attestations\<close>

text \<open>
  A view admits one attestation of its ref-state and no other: \<open>RecordRefSnapshot\<close> is applied
  exactly for the snapshot \<open>View::snapshot\<close> takes of this view, whatever version number it carries.
\<close>

theorem snapshot_admitted_iff:
  "(\<exists>v'. apply_view X v (new_view_op (RecordRefSnapshot s)) = Some (Inr (), v')) \<longleftrightarrow>
     s\<lparr>sn_format_version := view_format_version\<rparr> = take_snapshot X v"
  by (cases s) (auto simp: apply_view_Inr new_view_op_def validate_kind_def op_simps apply_kind_def
      take_snapshot_def)

text \<open>
  An attestation is of one position. A snapshot taken of a view is refused by every later view
  that any operation was applied to in between, even when the refs are again what they were.
\<close>

theorem snapshot_stale_refused:
  assumes "later X v v'" "v_next_seq v \<noteq> v_next_seq v'"
  shows "\<exists>e. apply_view X v' (new_view_op (RecordRefSnapshot (take_snapshot X v))) = Some (Inl (SnapshotErr e), v')"
  using assms
  by (auto simp: apply_view_Inl new_view_op_def validate_kind_def validate_record_ref_snapshot_def
      take_snapshot_def)

lemma snapshot_stale_refused_witness:
  "\<exists>v' e. apply_kinds (table_externals []) default_view
       [SetRef ''main'' sample_a None, DeleteRef ''main'' (Some sample_a)] = Some v' \<and>
     v_refs v' = v_refs default_view \<and>
     apply_view (table_externals []) v'
       (new_view_op (RecordRefSnapshot (take_snapshot (table_externals []) default_view))) =
       Some (Inl (SnapshotErr e), v')"
proof -
  obtain v' where v': "apply_kinds (table_externals []) default_view
      [SetRef ''main'' sample_a None, DeleteRef ''main'' (Some sample_a)] = Some v'"
    "v_next_seq v' = 2" "v_refs v' = bt_remove ''main'' (bt_insert ''main'' sample_a bt_empty)"
    by (simp add: view_eval)
  moreover have "bt_remove ''main'' (bt_insert ''main'' sample_a bt_empty) = v_refs default_view"
    by (rule bt_eqI) (simp add: bt_get_remove bt_get_insert default_view_def)
  ultimately show ?thesis
    using snapshot_stale_refused [OF apply_kinds_later [OF v'(1) later_refl]]
    by (simp add: default_view_def)
qed

section \<open>Checks\<close>

lemma is_prefix_Cons [simp]: "is_prefix (a # p) (b # s) \<longleftrightarrow> a = b \<and> is_prefix p s"
  by (auto simp: is_prefix_def)

lemma is_prefix_Nil [simp]: "is_prefix [] s" "is_prefix (a # p) [] \<longleftrightarrow> False"
  by (auto simp: is_prefix_def)

text \<open>In the order of strings, what lies between a prefix and a string it starts has the prefix.\<close>

lemma prefix_convex:
  fixes p :: "'a :: linorder list"
  shows "p \<le> k \<Longrightarrow> k \<le> k' \<Longrightarrow> is_prefix p k' \<Longrightarrow> is_prefix p k"
proof (induction p arbitrary: k k')
  case (Cons a p)
  then obtain b ks c ks' where k: "k = b # ks" "k' = c # ks'" by (cases k; cases k') auto
  then have "a = b" using Cons.prems by auto
  then show ?case using Cons.IH [of ks ks'] Cons.prems k by auto
qed simp

lemma prefix_le: "is_prefix p k \<Longrightarrow> (p :: 'a :: linorder list) \<le> k"
proof (induction p arbitrary: k)
  case (Cons a p)
  then show ?case by (cases k) auto
qed simp

lemma takeWhile_prefix_sorted:
  fixes p :: "'a :: linorder list"
  assumes "sorted_wrt (<) (map fst al)" "\<forall>x \<in> set al. p \<le> fst x"
  shows "takeWhile (\<lambda>x. is_prefix p (fst x)) al = filter (\<lambda>x. is_prefix p (fst x)) al"
  using assms
proof (induction al)
  case (Cons x al)
  have "filter (\<lambda>x. is_prefix p (fst x)) al = []" if "\<not> is_prefix p (fst x)"
  proof -
    have "\<not> is_prefix p (fst y)" if y: "y \<in> set al" for y
      using prefix_convex [of p "fst x" "fst y"] Cons.prems y \<open>\<not> is_prefix p (fst x)\<close>
      by (auto simp: less_imp_le)
    then show ?thesis by (simp add: filter_empty_conv)
  qed
  then show ?case using Cons by simp
qed simp

lemma dropWhile_sorted_filter:
  fixes p :: "'a :: linorder"
  shows "sorted_wrt (<) (map fst al) \<Longrightarrow> dropWhile (\<lambda>x. fst x < p) al = filter (\<lambda>x. p \<le> fst x) al"
proof (induction al)
  case (Cons x al)
  have "filter (\<lambda>x. p \<le> fst x) al = al" if "p \<le> fst x"
    using Cons.prems that by (intro filter_True) (auto intro: order_trans less_imp_le)
  then show ?case using Cons by (auto simp: not_less)
qed simp

lemma prefix_scan:
  fixes p :: "'a :: linorder list"
  assumes "sorted_wrt (<) (map fst al)"
  shows "takeWhile (\<lambda>x. is_prefix p (fst x)) (dropWhile (\<lambda>x. fst x < p) al) =
    filter (\<lambda>x. is_prefix p (fst x)) al"
proof -
  have "sorted_wrt (<) (map fst (filter (\<lambda>x. p \<le> fst x) al))"
    using assms by (simp add: sorted_wrt_filter sorted_wrt_map)
  then have "takeWhile (\<lambda>x. is_prefix p (fst x)) (filter (\<lambda>x. p \<le> fst x) al) =
      filter (\<lambda>x. is_prefix p (fst x)) (filter (\<lambda>x. p \<le> fst x) al)"
    by (intro takeWhile_prefix_sorted) auto
  then show ?thesis
    using prefix_le by (auto simp: dropWhile_sorted_filter [OF assms] intro: filter_cong)
qed

lemma map_filter_cons_key:
  "CHR '':'' \<notin> set h \<Longrightarrow> \<forall>x \<in> set al. is_prefix (h @ [CHR '':'']) (fst x) \<Longrightarrow>
     List.map_filter (\<lambda>(key, state). map_option (\<lambda>(_, name). (name, state)) (split_once (CHR '':'') key)) al =
     map (\<lambda>x. (drop (Suc (length h)) (fst x), snd x)) al"
proof (induction al)
  case (Cons x al)
  then obtain t where "fst x = h @ CHR '':'' # t" by (auto simp: is_prefix_iff)
  then show ?case
    using Cons split_once_append [of "CHR '':''" h t] by (cases x) (simp add: List.map_filter_simps)
qed (simp add: List.map_filter_simps)

lemma checks_for_filter:
  "checks_for v subject =
     map (\<lambda>x. (drop (Suc (length (to_hex subject))) (fst x), snd x))
       (filter (\<lambda>x. is_prefix (to_hex subject @ [CHR '':'']) (fst x)) (bt_items (v_checks v)))"
proof -
  have "sorted_wrt (<) (map fst (bt_items (v_checks v)))"
    using bt_keys_sorted [of "v_checks v"] by (simp add: bt_keys_def)
  note scan = prefix_scan [OF this, of "to_hex subject @ [CHR '':'']"]
  show ?thesis
    using scan map_filter_cons_key [OF to_hex_no_colon [of subject],
        of "filter (\<lambda>x. is_prefix (to_hex subject @ [CHR '':'']) (fst x)) (bt_items (v_checks v))"]
    unfolding checks_for_def Let_def case_prod_unfold by simp
qed

lemma checks_for_iff:
  "(name, st) \<in> set (checks_for v subject) \<longleftrightarrow> bt_get (v_checks v) (check_key subject name) = Some st"
proof -
  have "(name, st) \<in> set (checks_for v subject) \<longleftrightarrow>
      (\<exists>key. bt_get (v_checks v) key = Some st \<and> is_prefix (to_hex subject @ [CHR '':'']) key \<and>
         name = drop (Suc (length (to_hex subject))) key)"
    by (auto simp: checks_for_filter bt_items_iff image_iff Bex_def)
  also have "\<dots> \<longleftrightarrow> bt_get (v_checks v) (check_key subject name) = Some st"
    by (auto simp: is_prefix_iff check_key_def)
  finally show ?thesis .
qed

lemma sorted_drop_prefix:
  fixes h :: "'a :: linorder list"
  assumes "sorted_wrt (<) xs" "\<forall>x \<in> set xs. is_prefix h x"
  shows "sorted_wrt (<) (map (drop (length h)) xs)"
proof -
  have less: "h @ a < h @ b \<longleftrightarrow> a < b" for a b by (induction h) auto
  show ?thesis
    unfolding sorted_wrt_map
    using assms(1)
  proof (rule sorted_wrt_mono_rel [rotated])
    fix x y assume "x \<in> set xs" "y \<in> set xs" "x < y"
    moreover from this obtain a b where "x = h @ a" "y = h @ b"
      using assms(2) unfolding is_prefix_iff by blast
    ultimately show "drop (length h) x < drop (length h) y" using less by simp
  qed
qed

text \<open>
  C29: \<open>checks_for\<close> finds a commit's checks and no others. The range scan from the prefix, cut at
  the first key without it, gives exactly the rows whose key is this subject's, each once, in the
  order of the check names.
\<close>

theorem checks_for_exact:
  "set (checks_for v subject) = {(name, st). bt_get (v_checks v) (check_key subject name) = Some st} \<and>
   sorted_wrt (<) (map fst (checks_for v subject))"
proof
  let ?h = "to_hex subject @ [CHR '':'']"
  let ?l = "filter (\<lambda>x. is_prefix ?h (fst x)) (bt_items (v_checks v))"
  have "map fst (checks_for v subject) = map (drop (length ?h)) (map fst ?l)"
    unfolding checks_for_filter map_map by (rule map_cong) auto
  moreover have "sorted_wrt (<) (map fst ?l)"
    using bt_keys_sorted [of "v_checks v"] by (simp add: bt_keys_def sorted_wrt_filter sorted_wrt_map)
  moreover have "\<forall>x \<in> set (map fst ?l). is_prefix ?h x" by auto
  ultimately show "sorted_wrt (<) (map fst (checks_for v subject))"
    using sorted_drop_prefix [of "map fst ?l" ?h] by (simp only:)
qed (auto simp: checks_for_iff)

text \<open>
  The one answer for a commit is the worst thing reported. \<open>checks_verdict\<close> is \<open>None\<close> exactly
  when nothing was reported, and it is a state only if some check of the commit is in it and none is
  in a state that ranks above it: a failure, then an error, then a run in flight.
\<close>

theorem checks_verdict_worst:
  "checks_verdict v subject =
     (let states = {ck_status st | name st. bt_get (v_checks v) (check_key subject name) = Some st} in
      if states = {} then None
      else if Failed \<in> states then Some Failed
      else if Errored \<in> states then Some Errored
      else if Running \<in> states then Some Running
      else Some Passed)"
proof -
  let ?S = "{ck_status st | name st. bt_get (v_checks v) (check_key subject name) = Some st}"
  have S: "?S = (\<lambda>x. ck_status (snd x)) ` set (checks_for v subject)"
    unfolding checks_for_iff [symmetric] by (auto simp: image_iff Bex_def) blast+
  have ex: "list_ex (\<lambda>(_, s). ck_status s = c) (checks_for v subject) \<longleftrightarrow> c \<in> ?S" for c
    unfolding S by (auto simp: list_ex_iff image_iff case_prod_unfold)
  have "checks_for v subject = [] \<longleftrightarrow> ?S = {}" unfolding S by simp
  then show ?thesis unfolding checks_verdict_def Let_def ex by simp
qed

end
