(* ===== verification/Commits.thy ===== *)
theory Commits
  imports View_Replay
begin

text \<open>
  Commits of \<open>crates/choir-view/src/lib.rs\<close>: \<open>TreeEntry\<close>, \<open>Commit\<close>, the cone that splits a
  commit's conflicts, the resolution link and the admission policy \<open>append_op_with_store\<close>. A store
  is its \<open>get\<close>; \<open>None\<close> is a panic of the store.
\<close>

section \<open>Definitions\<close>

datatype tree_entry =
    FileEntry content_hash
  | ConflictEntry "content_hash option" content_hash content_hash  \<comment> \<open>\<open>base\<close>, \<open>left\<close>, \<open>right\<close>\<close>

record commit =
  co_format_version :: nat
  co_parents :: "content_hash list"
  co_tree :: "(string, tree_entry) btmap"
  co_author :: string
  co_message :: string
  co_resolves :: "content_hash option"

record conflict_report =
  cr_inside :: "string list"
  cr_outside :: "string list"

definition default_report :: conflict_report where
  "default_report = \<lparr>cr_inside = [], cr_outside = []\<rparr>"

definition report_is_empty :: "conflict_report \<Rightarrow> bool" where
  "report_is_empty r = (cr_inside r = [] \<and> cr_outside r = [])"

text \<open>\<open>prefix.trim_end_matches('/')\<close>\<close>

definition trim_end :: "char \<Rightarrow> string \<Rightarrow> string" where
  "trim_end c s = rev (dropWhile (\<lambda>x. x = c) (rev s))"

definition cone_covers :: "string list \<Rightarrow> string \<Rightarrow> bool" where
  "cone_covers cone path =
     (if cone = [] then True
      else list_ex (\<lambda>raw.
        let prefix = trim_end (CHR ''/'') raw in
        prefix = [] \<or> path = prefix \<or>
        (case strip_prefix prefix path of
           None \<Rightarrow> False
         | Some rest \<Rightarrow> (case rest of [] \<Rightarrow> False | c # _ \<Rightarrow> c = CHR ''/''))) cone)"

fun is_conflict :: "tree_entry \<Rightarrow> bool" where
  "is_conflict (FileEntry b) = False"
| "is_conflict (ConflictEntry b l r) = True"

definition push_conflict :: "string list \<Rightarrow> string \<times> tree_entry \<Rightarrow> conflict_report \<Rightarrow> conflict_report" where
  "push_conflict cone row report =
     (case row of (path, entry) \<Rightarrow>
        if \<not> is_conflict entry then report
        else if cone_covers cone path then report\<lparr>cr_inside := cr_inside report @ [path]\<rparr>
        else report\<lparr>cr_outside := cr_outside report @ [path]\<rparr>)"

definition conflicts_for_cone :: "commit \<Rightarrow> string list \<Rightarrow> conflict_report" where
  "conflicts_for_cone c cone =
     fold (push_conflict cone) (bt_items (co_tree c)) default_report"

definition is_conflicted :: "commit \<Rightarrow> bool" where
  "is_conflicted c = list_ex is_conflict (bt_values (co_tree c))"

text \<open>What the commit functions use of \<open>serde_json\<close>, and the \<open>Debug\<close> text of an error.\<close>

record commit_externals = view_externals +
  x_commit_json :: "commit \<Rightarrow> bytes"
  x_commit_parse :: "bytes \<Rightarrow> string + commit"
  x_error_debug :: "view_error \<Rightarrow> string"

definition commit_put ::
  "('a) commit_externals_scheme \<Rightarrow> ('s \<Rightarrow> bytes \<Rightarrow> ((store_error + content_hash) \<times> 's) option) \<Rightarrow>
   's \<Rightarrow> commit \<Rightarrow> ((view_error + content_hash) \<times> 's) option" where
  "commit_put X put s c =
     (case put s (x_commit_json X c) of
        None \<Rightarrow> None
      | Some (r, s') \<Rightarrow> Some (map_err StoreErr r, s'))"

definition commit_get ::
  "('a) commit_externals_scheme \<Rightarrow> (content_hash \<Rightarrow> (store_error + bytes) option) \<Rightarrow> content_hash \<Rightarrow>
   (view_error + commit) option" where
  "commit_get X get i =
     (case get i of
        None \<Rightarrow> None
      | Some r \<Rightarrow>
          Some (and_then (map_err StoreErr r) (\<lambda>b. map_err DecodeErr (x_commit_parse X b))))"

definition validate_resolves ::
  "('a) commit_externals_scheme \<Rightarrow> (content_hash \<Rightarrow> (store_error + bytes) option) \<Rightarrow> commit \<Rightarrow>
   (view_error + unit) option" where
  "validate_resolves X get c =
     (case co_resolves c of
        None \<Rightarrow> Some (Inr ())
      | Some tgt \<Rightarrow>
          (case commit_get X get tgt of
             None \<Rightarrow> None
           | Some (Inl e) \<Rightarrow>
               Some (Inl (ResolutionErr (''resolves names '' @ to_hex tgt @
                 '' which the store cannot supply: '' @ x_error_debug X e)))
           | Some (Inr resolved) \<Rightarrow>
               Some (if \<not> is_conflicted resolved
                     then Inl (ResolutionErr (''resolves names '' @ to_hex tgt @
                            '' which holds no unresolved conflict''))
                     else Inr ())))"

definition named_commit :: "op_kind \<Rightarrow> content_hash option" where
  "named_commit k =
     (case k of
        SetWorkspaceHead workspace commit prev \<Rightarrow> Some commit
      | SetRef name commit prev \<Rightarrow> Some commit
      | _ \<Rightarrow> None)"

definition append_op_with_store ::
  "('a) commit_externals_scheme \<Rightarrow> ('l \<Rightarrow> op_entry \<Rightarrow> (log_error + content_hash) \<times> 'l) \<Rightarrow>
   ('l \<Rightarrow> content_hash option) \<Rightarrow> ('l \<Rightarrow> nat) \<Rightarrow> ('l \<Rightarrow> nat \<Rightarrow> op_entry option) \<Rightarrow>
   'l \<Rightarrow> (content_hash \<Rightarrow> (store_error + bytes) option) \<Rightarrow> string \<Rightarrow> view_op \<Rightarrow>
   ((view_error + content_hash) \<times> 'l) option" where
  "append_op_with_store X app hd_of len nth_of log get submitter vop =
     (let continue = append_op X app hd_of len nth_of log submitter vop in
      case named_commit (vo_kind vop) of
        None \<Rightarrow> continue
      | Some i \<Rightarrow>
          (case commit_get X get i of
             None \<Rightarrow> None
           | Some (Inl _) \<Rightarrow> continue
           | Some (Inr c) \<Rightarrow>
               (case validate_resolves X get c of
                  None \<Rightarrow> None
                | Some (Inl e) \<Rightarrow> Some (Inl e, log)
                | Some (Inr _) \<Rightarrow> continue)))"

section \<open>Paths as segments\<close>

text \<open>The segments of a path, and a path from its segments.\<close>

fun segments :: "string \<Rightarrow> string list" where
  "segments [] = [[]]"
| "segments (c # cs) =
     (if c = CHR ''/'' then [] # segments cs
      else (case segments cs of [] \<Rightarrow> [[c]] | s # ss \<Rightarrow> (c # s) # ss))"

fun join_segments :: "string list \<Rightarrow> string" where
  "join_segments [] = []"
| "join_segments [s] = s"
| "join_segments (s # t # ss) = s @ CHR ''/'' # join_segments (t # ss)"

lemma segments_nonempty [simp]: "segments p \<noteq> []"
  by (induction p) (auto split: list.splits)

lemma segments_append: "segments (a @ CHR ''/'' # b) = segments a @ segments b"
  by (induction a) (auto split: list.splits simp: neq_Nil_conv)

lemma join_segments_Cons: "ss \<noteq> [] \<Longrightarrow> join_segments (s # ss) = s @ CHR ''/'' # join_segments ss"
  by (cases ss) auto

lemma join_char: "join_segments ((c # s) # ss) = c # join_segments (s # ss)"
  by (cases ss) auto

lemma join_segments_segments [simp]: "join_segments (segments p) = p"
proof (induction p)
  case (Cons c p)
  obtain s ss where "segments p = s # ss" by (cases "segments p") auto
  then show ?case using Cons by (auto simp: join_char join_segments_Cons)
qed simp

lemma join_segments_append:
  "as \<noteq> [] \<Longrightarrow> bs \<noteq> [] \<Longrightarrow> join_segments (as @ bs) = join_segments as @ CHR ''/'' # join_segments bs"
proof (induction as)
  case (Cons a as)
  then show ?case by (cases "as = []") (auto simp: join_segments_Cons)
qed simp

lemma segments_prefix_iff:
  "is_prefix (segments p) (segments path) \<longleftrightarrow> path = p \<or> (\<exists>rest. path = p @ CHR ''/'' # rest)"
proof
  assume "is_prefix (segments p) (segments path)"
  then obtain ss where ss: "segments path = segments p @ ss" by (auto simp: is_prefix_iff)
  then have "path = join_segments (segments p @ ss)" by (metis join_segments_segments)
  then show "path = p \<or> (\<exists>rest. path = p @ CHR ''/'' # rest)"
    using join_segments_append [of "segments p" ss] by (cases "ss = []") auto
qed (auto simp: is_prefix_iff segments_append)

section \<open>Properties\<close>

text \<open>
  A cone matches whole path segments. A prefix of a cone, trailing slashes aside, covers a path
  exactly when its segments are the first segments of the path, so \<open>services/api\<close> never covers
  \<open>services/apiary\<close>; the empty cone and the empty prefix cover everything.
\<close>

theorem cone_covers_segments:
  "cone_covers cone path \<longleftrightarrow>
     cone = [] \<or> (\<exists>raw \<in> set cone.
       trim_end (CHR ''/'') raw = [] \<or>
       is_prefix (segments (trim_end (CHR ''/'') raw)) (segments path))"
proof -
  have "(case strip_prefix p path of None \<Rightarrow> False
         | Some rest \<Rightarrow> (case rest of [] \<Rightarrow> False | c # _ \<Rightarrow> c = CHR ''/'')) \<longleftrightarrow>
      (\<exists>rest. path = p @ CHR ''/'' # rest)" for p
    by (auto simp: strip_prefix_def is_prefix_iff split: list.splits)
  then show ?thesis by (auto simp: cone_covers_def Let_def list_ex_iff segments_prefix_iff)
qed

lemma cone_covers_segments_witness:
  "cone_covers [''services/api/''] ''services/api/main.rs'' \<and>
   \<not> cone_covers [''services/api''] ''services/apiary/main.rs''"
  using cone_covers_segments [of "[''services/api/'']" "''services/api/main.rs''"]
    cone_covers_segments [of "[''services/api'']" "''services/apiary/main.rs''"]
  by (simp add: trim_end_def is_prefix_def)

lemma conflict_fold:
  "fold (push_conflict cone) al \<lparr>cr_inside = a, cr_outside = b\<rparr> =
   \<lparr>cr_inside = a @ map fst (filter (\<lambda>(p, e). is_conflict e \<and> cone_covers cone p) al),
    cr_outside = b @ map fst (filter (\<lambda>(p, e). is_conflict e \<and> \<not> cone_covers cone p) al)\<rparr>"
proof (induction al arbitrary: a b)
  case (Cons x al)
  then show ?case
    by (cases x; cases "is_conflict (snd x)"; cases "cone_covers cone (fst x)")
       (simp_all add: push_conflict_def)
qed simp

text \<open>
  The conflict report names every conflicted path once, on the side of the cone it is on, in
  path order, and nothing else; it is empty exactly when the commit is not conflicted.
\<close>

theorem conflicts_for_cone_splits:
  "set (cr_inside (conflicts_for_cone c cone)) =
     {p. (\<exists>e. bt_get (co_tree c) p = Some e \<and> is_conflict e) \<and> cone_covers cone p} \<and>
   set (cr_outside (conflicts_for_cone c cone)) =
     {p. (\<exists>e. bt_get (co_tree c) p = Some e \<and> is_conflict e) \<and> \<not> cone_covers cone p} \<and>
   sorted_wrt (<) (cr_inside (conflicts_for_cone c cone)) \<and>
   sorted_wrt (<) (cr_outside (conflicts_for_cone c cone)) \<and>
   (report_is_empty (conflicts_for_cone c cone) \<longleftrightarrow> \<not> is_conflicted c)"
proof -
  let ?side = "\<lambda>P. map fst (filter (\<lambda>(p, e). is_conflict e \<and> P p) (bt_items (co_tree c)))"
  have r: "conflicts_for_cone c cone = \<lparr>cr_inside = ?side (cone_covers cone),
      cr_outside = ?side (\<lambda>p. \<not> cone_covers cone p)\<rparr>"
    by (simp add: conflicts_for_cone_def conflict_fold default_report_def)
  have s: "set (?side P) = {p. (\<exists>e. bt_get (co_tree c) p = Some e \<and> is_conflict e) \<and> P p}" for P
    by (force simp: bt_items_iff)
  have o: "sorted_wrt (<) (?side P)" for P
    using bt_keys_sorted [of "co_tree c"] by (simp add: bt_keys_def sorted_wrt_map sorted_wrt_filter)
  have "is_conflicted c \<longleftrightarrow> (\<exists>p e. bt_get (co_tree c) p = Some e \<and> is_conflict e)"
    by (auto simp: is_conflicted_def list_ex_iff Bex_def bt_values_iff)
  moreover have "report_is_empty (conflicts_for_cone c cone) \<longleftrightarrow>
      set (?side (cone_covers cone)) = {} \<and> set (?side (\<lambda>p. \<not> cone_covers cone p)) = {}"
    unfolding r report_is_empty_def by (simp only: conflict_report.simps set_empty)
  ultimately have "report_is_empty (conflicts_for_cone c cone) \<longleftrightarrow> \<not> is_conflicted c"
    unfolding s by auto
  then show ?thesis unfolding r using s o by simp
qed

text \<open>
  A commit that was put is got back, from the same address, whatever else is put or refused
  later in the store's files: nothing held under its address before is assumed beyond its own bytes.
\<close>

theorem commit_put_get:
  assumes "commit_put X (mem_put b3) s c = Some (Inr h, s')"
    and "x_commit_parse X (x_commit_json X c) = Inr c"
    and "\<And>d. s (blake3 b3 (x_commit_json X c)) = Some d \<Longrightarrow> d = x_commit_json X c"
  shows "commit_get X (mem_store_get b3 s') h = Some (Inr c)"
proof -
  have "mem_put b3 s (x_commit_json X c) = Some (Inr h, s')"
    using assms(1) by (auto simp: commit_put_def split: option.splits prod.splits elim: map_err.elims)
  moreover have "mem_cs.fresh b3 s (x_commit_json X c)"
    using assms(3) by (simp add: mem_cs.fresh_def)
  ultimately have "mem_store_get b3 s' h = Some (Inr (x_commit_json X c))"
    using mem_cs.put_get by blast
  then show ?thesis using assms(2) by (simp add: commit_get_def)
qed

definition sample_commit :: "content_hash option \<Rightarrow> commit" where
  "sample_commit link =
     \<lparr>co_format_version = 1, co_parents = [],
      co_tree = bt_insert ''a'' (ConflictEntry None \<lparr>codec = 0, digest = []\<rparr> \<lparr>codec = 0, digest = []\<rparr>) bt_empty,
      co_author = ''ana'', co_message = [], co_resolves = link\<rparr>"

definition sample_link :: content_hash where
  "sample_link = \<lparr>codec = 0x1e, digest = [1]\<rparr>"

definition sample_commit_externals :: commit_externals where
  "sample_commit_externals =
     \<lparr>x_blake3 = \<lambda>b. b, x_entry_json = \<lambda>e. [of_nat (e_seq e)], x_entry_parse = \<lambda>_. Inl ''entry'',
      x_signed_json = \<lambda>(_, b). b, x_op_json = \<lambda>_. [1], x_op_parse = \<lambda>_. Inl ''op'',
      x_snapshot_json = \<lambda>s. [of_nat (sn_at_seq s)],
      x_commit_json = \<lambda>c. (if co_resolves c = None then [1] else [2]),
      x_commit_parse = \<lambda>b. Inr (sample_commit
        (if b = [1] then None else Some sample_link)),
      x_error_debug = \<lambda>_. ''error''\<rparr>"

lemma commit_put_get_witness:
  "\<exists>h s'. commit_put sample_commit_externals (mem_put (\<lambda>b. b)) mem_store_new (sample_commit None) =
       Some (Inr h, s') \<and>
     commit_get sample_commit_externals (mem_store_get (\<lambda>b. b) s') h = Some (Inr (sample_commit None))"
proof -
  obtain h s' where p: "commit_put sample_commit_externals (mem_put (\<lambda>b. b)) mem_store_new
      (sample_commit None) = Some (Inr h, s')"
    by (simp add: commit_put_def mem_put_def Let_def)
  show ?thesis
    using commit_put_get [OF p] p
    by (simp add: sample_commit_externals_def mem_store_new_def sample_commit_def)
qed

text \<open>
  C31: a head never moves to a commit with a bad resolution link. When \<open>append_op_with_store\<close>
  appends a \<open>SetWorkspaceHead\<close> or a \<open>SetRef\<close> whose commit the store supplies, a link of that commit
  names a commit the store supplies too, and that one is conflicted.
\<close>

theorem append_with_store_links:
  assumes "append_op_with_store X app hd_of len nth_of log get s vop = Some (Inr h, log')"
    and "named_commit (vo_kind vop) = Some i" "commit_get X get i = Some (Inr c)"
    and "co_resolves c = Some tgt"
  shows "\<exists>resolved. commit_get X get tgt = Some (Inr resolved) \<and> is_conflicted resolved"
  using assms
  by (auto simp: append_op_with_store_def validate_resolves_def Let_def
      split: option.splits sum.splits if_splits)

lemma append_with_store_links_witness:
  "\<exists>h l' resolved. append_op_with_store sample_commit_externals (mem_append sample_commit_externals)
       m_head mem_len mem_get mem_new
       (\<lambda>i. Some (Inr (if i = sample_link then [1] else [2]))) ''ana''
       (new_view_op (SetRef ''main'' \<lparr>codec = 0x1e, digest = [2]\<rparr> None)) = Some (Inr h, l') \<and>
     commit_get sample_commit_externals (\<lambda>i. Some (Inr (if i = sample_link then [1] else [2])))
       sample_link = Some (Inr resolved) \<and> is_conflicted resolved"
proof -
  let ?get = "\<lambda>i. Some (Inr (if i = sample_link then [1] else [2 :: u8]))"
  let ?X = sample_commit_externals
  let ?c = "\<lparr>codec = 0x1e, digest = [2]\<rparr>"
  have g: "commit_get ?X ?get ?c = Some (Inr (sample_commit (Some sample_link)))"
    "commit_get ?X ?get sample_link = Some (Inr (sample_commit None))"
    by (simp_all add: commit_get_def sample_commit_externals_def sample_link_def)
  have n: "named_commit (vo_kind (new_view_op (SetRef ''main'' ?c None))) = Some ?c"
    by (simp add: named_commit_def new_view_op_def)
  have "is_conflicted (sample_commit None)"
    by (simp add: is_conflicted_def sample_commit_def bt_values_def)
  then obtain h l' where a: "append_op_with_store ?X (mem_append ?X) m_head mem_len mem_get mem_new
      ?get ''ana'' (new_view_op (SetRef ''main'' ?c None)) = Some (Inr h, l')"
    using g n
    by (simp add: append_op_with_store_def validate_resolves_def sample_commit_def [of "Some _"]
        append_op_def materialize_def view_at_def mem_len_def mem_new_def apply_view_def validate_def
        validate_kind_def validate_ref_cas_def cas_def default_view_def new_view_op_def
        apply_kind_def mem_append_def op_entry_of_def Let_def)
  show ?thesis
    using append_with_store_links [OF a n g(1), of sample_link] a
    by (simp add: sample_commit_def [of "Some _"])
qed

text \<open>
  The policy only refuses. What \<open>append_op_with_store\<close> does is what \<open>append_op\<close> does, or a
  refusal that leaves the log alone, or a panic of the store.
\<close>

theorem append_with_store_refines:
  "append_op_with_store X app hd_of len nth_of log get s vop \<in>
     {append_op X app hd_of len nth_of log s vop, None} \<union>
     {Some (Inl (ResolutionErr e), log) | e. True}"
proof (cases "named_commit (vo_kind vop)")
  case (Some i)
  have "validate_resolves X get c = Some (Inl e) \<Longrightarrow> \<exists>m. e = ResolutionErr m" for c e
    by (auto simp: validate_resolves_def split: option.splits sum.splits if_splits)
  then show ?thesis
    using Some by (auto simp: append_op_with_store_def Let_def split: option.splits sum.splits)
qed (simp add: append_op_with_store_def)

end
