(* ===== verification/File_Log.thy ===== *)
theory File_Log
  imports View_Replay "HOL-Library.Countable"
begin

text \<open>
  \<open>FileLog\<close> of \<open>crates/choir-oplog/src/lib.rs\<close> and \<open>repair.rs\<close>: the JSON-lines log, with the
  \<open>BufWriter\<close> it appends through, the in-memory queue of entries that are not yet in the file, the
  sync that makes them durable and the recovery of \<open>open\<close>. The disk is the bytes of the file, how
  many of them are durable, the room left on the device, whether a sync fails, and which calls of a
  repair the file system refuses; opening and reading the file succeed. A crash keeps the durable
  bytes, any further prefix of the file, and may add a run of NUL bytes, as \<open>FileLog::open\<close> describes it.
\<close>

section \<open>The disk and the buffered writer\<close>

text \<open>The calls of a repair that can fail on their own, beside the write of the saved bytes.\<close>

datatype io_call = CreateSidecar | SyncSidecar | SyncParent | SetLength | SyncLog | OpenReader | OpenForRepair

record disk =
  d_file :: bytes
  d_synced :: nat
  d_space :: "nat option"
  d_sync_fails :: bool
  d_faults :: "io_call \<Rightarrow> string option"
  d_sidecars :: "string \<Rightarrow> bytes option"

fun is_sync_call :: "io_call \<Rightarrow> bool" where
  "is_sync_call SyncSidecar = True"
| "is_sync_call SyncParent = True"
| "is_sync_call SyncLog = True"
| "is_sync_call _ = False"

definition io_fault :: "disk \<Rightarrow> io_call \<Rightarrow> log_error option" where
  "io_fault d c =
     (case d_faults d c of
        Some e \<Rightarrow> Some (Io e)
      | None \<Rightarrow> if d_sync_fails d \<and> is_sync_call c then Some (Io ''sync failed'') else None)"

fun first_fault :: "disk \<Rightarrow> io_call list \<Rightarrow> log_error option" where
  "first_fault d [] = None"
| "first_fault d (c # cs) = (case io_fault d c of Some e \<Rightarrow> Some e | None \<Rightarrow> first_fault d cs)"

text \<open>A write stores what there is room for and returns the bytes it could not store.\<close>

definition disk_write :: "disk \<Rightarrow> bytes \<Rightarrow> bytes \<times> disk" where
  "disk_write d b =
     (let n = (case d_space d of None \<Rightarrow> length b | Some s \<Rightarrow> min s (length b)) in
      (drop n b, d\<lparr>d_file := d_file d @ take n b, d_space := map_option (\<lambda>s. s - n) (d_space d)\<rparr>))"

definition no_space :: log_error where
  "no_space = Io ''no space left on device''"

text \<open>\<open>BufWriter\<close> with its default capacity: \<open>flush_buf\<close> and \<open>write_all\<close>.\<close>

definition buf_capacity :: nat where
  "buf_capacity = 8 * 1024"

definition buf_flush :: "disk \<Rightarrow> bytes \<Rightarrow> (log_error + unit) \<times> disk \<times> bytes" where
  "buf_flush d buf =
     (case disk_write d buf of
        (rest, d') \<Rightarrow> (if rest = [] then Inr () else Inl no_space, d', rest))"

definition buf_write_all :: "disk \<Rightarrow> bytes \<Rightarrow> bytes \<Rightarrow> (log_error + unit) \<times> disk \<times> bytes" where
  "buf_write_all d buf line =
     (if length line < buf_capacity - length buf then (Inr (), d, buf @ line)
      else (case (if length line > buf_capacity - length buf then buf_flush d buf else (Inr (), d, buf)) of
              (Inl e, d', buf') \<Rightarrow> (Inl e, d', buf')
            | (Inr _, d', buf') \<Rightarrow>
                if length line \<ge> buf_capacity
                then (case disk_write d' line of
                        (rest, d'') \<Rightarrow> (if rest = [] then Inr () else Inl no_space, d'', buf'))
                else (Inr (), d', buf' @ line)))"

section \<open>The log\<close>

record file_log =
  fl_disk :: disk
  fl_buf :: bytes
  fl_offsets :: "nat list"
  fl_write_pos :: nat
  fl_pending :: "op_entry list"
  fl_head :: "content_hash option"
  fl_torn_tail_bytes :: nat
  fl_torn_tail_quarantine :: "string option"

definition newline :: u8 where
  "newline = 10"

definition record_of :: "('a) externals_scheme \<Rightarrow> op_entry \<Rightarrow> bytes" where
  "record_of X e = x_entry_json X e @ [newline]"

definition fl_append ::
  "('a) externals_scheme \<Rightarrow> file_log \<Rightarrow> op_entry \<Rightarrow> (log_error + content_hash) \<times> file_log" where
  "fl_append X l e =
     (if e_parent e \<noteq> fl_head l then (Inl HeadMismatch, l)
      else (let line = record_of X e in
        case buf_write_all (fl_disk l) (fl_buf l) line of
          (Inl err, d, buf) \<Rightarrow> (Inl err, l\<lparr>fl_disk := d, fl_buf := buf\<rparr>)
        | (Inr _, d, buf) \<Rightarrow>
            (let h = entry_hash X e in
             (Inr h, l\<lparr>fl_disk := d, fl_buf := buf, fl_offsets := fl_offsets l @ [fl_write_pos l],
                       fl_write_pos := fl_write_pos l + length line,
                       fl_pending := fl_pending l @ [e], fl_head := Some h\<rparr>))))"

definition fl_len :: "file_log \<Rightarrow> nat" where
  "fl_len l = length (fl_offsets l)"

definition strip_newline :: "bytes \<Rightarrow> bytes" where
  "strip_newline b = (if b \<noteq> [] \<and> last b = newline then butlast b else b)"

definition fl_get :: "('a) externals_scheme \<Rightarrow> file_log \<Rightarrow> nat \<Rightarrow> op_entry option" where
  "fl_get X l seq =
     (let len = length (fl_offsets l) in
      if seq \<ge> len then None
      else (let pending_start = len - length (fl_pending l) in
        if seq \<ge> pending_start
        then (if seq - pending_start < length (fl_pending l)
              then Some (fl_pending l ! (seq - pending_start)) else None)
        else (let start = fl_offsets l ! seq;
                  stop = (if seq + 1 < len then fl_offsets l ! (seq + 1) else fl_write_pos l);
                  file = d_file (fl_disk l) in
              if length file < stop then None
              else (case x_entry_parse X (strip_newline (take (stop - start) (drop start file))) of
                      Inl _ \<Rightarrow> None | Inr e \<Rightarrow> Some e))))"

definition fl_last :: "file_log \<Rightarrow> op_entry option" where
  "fl_last l = (if fl_pending l = [] then None else Some (last (fl_pending l)))"

definition fl_sync :: "file_log \<Rightarrow> (log_error + unit) \<times> file_log" where
  "fl_sync l =
     (case buf_flush (fl_disk l) (fl_buf l) of
        (Inl err, d, buf) \<Rightarrow> (Inl err, l\<lparr>fl_disk := d, fl_buf := buf\<rparr>)
      | (Inr _, d, buf) \<Rightarrow>
          (let l' = l\<lparr>fl_disk := d, fl_buf := buf, fl_pending := []\<rparr> in
           if d_sync_fails d then (Inl (Io ''sync failed''), l')
           else (Inr (), l'\<lparr>fl_disk := d\<lparr>d_synced := length (d_file d)\<rparr>\<rparr>)))"

section \<open>Opening\<close>

text \<open>The replay loop of \<open>open\<close>: offsets, head, position after the last record, torn tail.\<close>

function open_scan ::
  "('a) externals_scheme \<Rightarrow> bytes \<Rightarrow> nat list \<Rightarrow> content_hash option \<Rightarrow> nat \<Rightarrow>
   log_error + (nat list \<times> content_hash option \<times> nat \<times> bytes)" where
  "open_scan X rest offsets head write_pos =
     (if rest = [] then Inr (offsets, head, write_pos, [])
      else (case split_once newline rest of
              None \<Rightarrow> Inr (offsets, head, write_pos, rest)
            | Some (body, rest') \<Rightarrow>
                (case x_entry_parse X body of
                   Inl err \<Rightarrow> Inl (Corrupt err)
                 | Inr entry \<Rightarrow>
                     (let position = length offsets in
                      if e_format_version entry \<noteq> format_version_1
                      then Inl (Corrupt (''record '' @ show_nat position @
                             '' uses unsupported format version '' @ show_nat (e_format_version entry) @
                             ''; this build supports '' @ show_nat format_version_1))
                      else if e_seq entry \<noteq> position
                      then Inl (Corrupt (''record at position '' @ show_nat position @
                             '' carries seq '' @ show_nat (e_seq entry)))
                      else if e_parent entry \<noteq> head
                      then Inl (Corrupt (''record '' @ show_nat position @
                             '' does not chain to the previous entry''))
                      else open_scan X rest' (offsets @ [write_pos]) (Some (entry_hash X entry))
                             (write_pos + length body + 1)))))"
  by pat_completeness auto
termination
  by (relation "measure (\<lambda>(_, rest, _, _, _). length rest)")
     (auto dest: split_once_SomeD)

declare open_scan.simps [simp del]

definition quarantine_path :: "string \<Rightarrow> nat \<Rightarrow> string" where
  "quarantine_path name offset = name @ ''.torn-'' @ show_nat offset"

text \<open>
  The repair of a torn tail. Its bytes are saved in a sidecar, which is created empty, written as far as
  there is room and synced with its directory; only then is the log cut and its length synced. Every
  one of these calls can fail, and leaves what the calls before it did.
\<close>

definition quarantine_tail :: "string \<Rightarrow> bytes \<Rightarrow> nat \<Rightarrow> disk \<Rightarrow> (log_error + string) \<times> disk" where
  "quarantine_tail name torn offset d =
     (let q = quarantine_path name offset in
      case io_fault d CreateSidecar of
        Some e \<Rightarrow> (Inl e, d)
      | None \<Rightarrow>
          (let freed = (case d_sidecars d q of None \<Rightarrow> 0 | Some old \<Rightarrow> length old);
               room = map_option (\<lambda>s. s + freed) (d_space d);
               n = (case room of None \<Rightarrow> length torn | Some s \<Rightarrow> min s (length torn));
               d1 = d\<lparr>d_sidecars := (d_sidecars d)(q \<mapsto> take n torn), d_space := map_option (\<lambda>s. s - n) room\<rparr>
           in if n < length torn then (Inl no_space, d1)
              else case first_fault d1 [SyncSidecar, SyncParent] of
                     Some e \<Rightarrow> (Inl e, d1)
                   | None \<Rightarrow> (Inr q, d1)))"

definition cut_file :: "nat \<Rightarrow> disk \<Rightarrow> (log_error + unit) \<times> disk" where
  "cut_file keep d =
     (case io_fault d SetLength of
        Some e \<Rightarrow> (Inl e, d)
      | None \<Rightarrow>
          (let d1 = d\<lparr>d_file := take keep (d_file d), d_synced := min keep (d_synced d),
                      d_space := map_option (\<lambda>s. s + (length (d_file d) - keep)) (d_space d)\<rparr>
           in case io_fault d1 SyncLog of
                Some e \<Rightarrow> (Inl e, d1)
              | None \<Rightarrow> (Inr (), d1\<lparr>d_synced := keep\<rparr>)))"

definition repair_tail :: "string \<Rightarrow> bytes \<Rightarrow> nat \<Rightarrow> disk \<Rightarrow> (log_error + string) \<times> disk" where
  "repair_tail name torn write_pos d =
     (case quarantine_tail name torn write_pos d of
        (Inl e, d1) \<Rightarrow> (Inl e, d1)
      | (Inr q, d1) \<Rightarrow>
          (case cut_file write_pos d1 of
             (Inl e, d2) \<Rightarrow> (Inl e, d2)
           | (Inr _, d2) \<Rightarrow> (Inr q, d2)))"

text \<open>
  \<open>open\<close> of the file \<open>name\<close> on a disk: replay, repair of a torn tail, the sync of the directory and the
  second handle. The disk it leaves is returned with every outcome.
\<close>

definition fl_open ::
  "('a) externals_scheme \<Rightarrow> string \<Rightarrow> disk \<Rightarrow> (log_error + file_log) \<times> disk" where
  "fl_open X name d =
     (case open_scan X (d_file d) [] None 0 of
        Inl err \<Rightarrow> (Inl err, d)
      | Inr (offsets, head, write_pos, torn) \<Rightarrow>
          (case (if length torn > 0
                 then (case repair_tail name torn write_pos d of
                         (Inl e, d1) \<Rightarrow> (Inl e, d1)
                       | (Inr q, d1) \<Rightarrow> (Inr (Some q), d1))
                 else (Inr None, d)) of
             (Inl e, d1) \<Rightarrow> (Inl e, d1)
           | (Inr quarantine, d1) \<Rightarrow>
               (case first_fault d1 [SyncParent, OpenReader] of
                  Some e \<Rightarrow> (Inl e, d1)
                | None \<Rightarrow>
                    (Inr \<lparr>fl_disk = d1, fl_buf = [], fl_offsets = offsets, fl_write_pos = write_pos,
                          fl_pending = [], fl_head = head, fl_torn_tail_bytes = length torn,
                          fl_torn_tail_quarantine = quarantine\<rparr>, d1))))"

section \<open>Inspection\<close>

datatype fault =
    Undecodable nat string
  | UnsupportedFormat nat nat
  | BrokenChain nat "content_hash option" "content_hash option"
  | SeqMismatch nat nat

fun fault_position :: "fault \<Rightarrow> nat" where
  "fault_position (Undecodable p d) = p"
| "fault_position (UnsupportedFormat p v) = p"
| "fault_position (BrokenChain p x y) = p"
| "fault_position (SeqMismatch p s) = p"

record chain_report =
  ch_intact_records :: nat
  ch_fault :: "fault option"
  ch_torn_tail_bytes :: nat
  ch_head :: "content_hash option"

definition is_usable :: "chain_report \<Rightarrow> bool" where
  "is_usable r = (ch_fault r = None)"

definition is_repairable :: "chain_report \<Rightarrow> bool" where
  "is_repairable r = (ch_fault r = None \<and> ch_torn_tail_bytes r > 0)"

function verify_scan ::
  "('a) externals_scheme \<Rightarrow> bytes \<Rightarrow> content_hash option \<Rightarrow> nat \<Rightarrow> chain_report" where
  "verify_scan X rest head position =
     (let report = (\<lambda>fault torn. \<lparr>ch_intact_records = position, ch_fault = fault,
                                 ch_torn_tail_bytes = torn, ch_head = head\<rparr>) in
      if rest = [] then report None 0
      else (case split_once newline rest of
              None \<Rightarrow> report None (length rest)
            | Some (body, rest') \<Rightarrow>
                (case x_entry_parse X body of
                   Inl err \<Rightarrow> report (Some (Undecodable position err)) 0
                 | Inr entry \<Rightarrow>
                     if e_format_version entry \<noteq> format_version_1
                     then report (Some (UnsupportedFormat position (e_format_version entry))) 0
                     else if e_parent entry \<noteq> head
                     then report (Some (BrokenChain position head (e_parent entry))) 0
                     else if e_seq entry \<noteq> position
                     then report (Some (SeqMismatch position (e_seq entry))) 0
                     else verify_scan X rest' (Some (entry_hash X entry)) (position + 1))))"
  by pat_completeness auto
termination
  by (relation "measure (\<lambda>(_, rest, _, _). length rest)")
     (auto dest: split_once_SomeD)

declare verify_scan.simps [simp del]

definition verify_file :: "('a) externals_scheme \<Rightarrow> bytes \<Rightarrow> chain_report" where
  "verify_file X file = verify_scan X file None 0"

text \<open>\<open>Display\<close> of a fault, and \<open>truncate_tail\<close>.\<close>

definition show_parent :: "content_hash option \<Rightarrow> string" where
  "show_parent h = (case h of None \<Rightarrow> ''none'' | Some x \<Rightarrow> to_hex x)"

fun show_fault :: "fault \<Rightarrow> string" where
  "show_fault (Undecodable p d) = ''record '' @ show_nat p @ '' does not decode: '' @ d"
| "show_fault (UnsupportedFormat p v) =
     ''record '' @ show_nat p @ '' uses unsupported format version '' @ show_nat v @
     ''; this build supports '' @ show_nat format_version_1"
| "show_fault (BrokenChain p x y) =
     ''record '' @ show_nat p @ '' names parent '' @ show_parent y @
     '' but the record before it hashes to '' @ show_parent x"
| "show_fault (SeqMismatch p q) =
     ''record at position '' @ show_nat p @ '' carries seq '' @ show_nat q"

record repaired =
  rp_quarantine :: string
  rp_bytes :: nat
  rp_length :: nat

definition truncate_tail ::
  "('a) externals_scheme \<Rightarrow> string \<Rightarrow> disk \<Rightarrow> (log_error + repaired option) \<times> disk" where
  "truncate_tail X name d =
     (let report = verify_file X (d_file d) in
      case ch_fault report of
        Some f \<Rightarrow>
          (Inl (Corrupt (''refusing to truncate: the damage is not a torn tail ('' @ show_fault f @
             ''). Truncating would drop acknowledged ops. Restore from backup.'')), d)
      | None \<Rightarrow>
          if ch_torn_tail_bytes report = 0 then (Inr None, d)
          else
            case io_fault d OpenForRepair of
              Some e \<Rightarrow> (Inl e, d)
            | None \<Rightarrow>
                (let keep = length (d_file d) - ch_torn_tail_bytes report in
                 case repair_tail name (drop keep (d_file d)) keep d of
                   (Inl e, d1) \<Rightarrow> (Inl e, d1)
                 | (Inr quarantine, d1) \<Rightarrow>
                     (Inr (Some \<lparr>rp_quarantine = quarantine, rp_bytes = ch_torn_tail_bytes report,
                                 rp_length = keep\<rparr>), d1)))"

section \<open>The buffered writer keeps the stream\<close>

text \<open>What the file and the buffer hold together is the stream of the bytes handed to the writer.\<close>

lemma disk_write_stream:
  assumes "disk_write d b = (rest, d')"
  shows "d_file d' @ rest = d_file d @ b" "d_synced d' = d_synced d"
    "length (d_file d) \<le> length (d_file d')" "length rest \<le> length b"
    "d_sync_fails d' = d_sync_fails d" "d_sidecars d' = d_sidecars d"
  using assms by (auto simp: disk_write_def Let_def)

lemma buf_flush_Inr:
  assumes "buf_flush d buf = (Inr u, d', buf')"
  shows "d_file d' = d_file d @ buf" "buf' = []" "d_synced d' = d_synced d"
proof -
  obtain rest where "disk_write d buf = (rest, d')" "rest = []" "buf' = rest"
    using assms by (auto simp: buf_flush_def split: prod.splits if_splits)
  then show "d_file d' = d_file d @ buf" "buf' = []" "d_synced d' = d_synced d"
    using disk_write_stream [of d buf rest d'] by auto
qed

lemma buf_write_all_Inr:
  assumes "buf_write_all d buf line = (Inr u, d', buf')" "length buf \<le> buf_capacity"
  shows "d_file d' @ buf' = d_file d @ buf @ line \<and> length buf' \<le> buf_capacity \<and>
    d_synced d' = d_synced d \<and> length (d_file d) \<le> length (d_file d')"
proof (cases "length line < buf_capacity - length buf")
  case True
  then show ?thesis using assms by (auto simp: buf_write_all_def)
next
  case False
  let ?step = "if length line > buf_capacity - length buf then buf_flush d buf else (Inr (), d, buf)"
  obtain r d1 buf1 where f: "?step = (r, d1, buf1)" by (cases ?step rule: prod_cases3)
  have "buf_write_all d buf line = (case r of Inl e \<Rightarrow> (Inl e, d1, buf1)
      | Inr _ \<Rightarrow> if length line \<ge> buf_capacity
          then (case disk_write d1 line of
                  (rest, d'') \<Rightarrow> (if rest = [] then Inr () else Inl no_space, d'', buf1))
          else (Inr (), d1, buf1 @ line))"
    unfolding buf_write_all_def if_not_P [OF False] f by (simp split: sum.split)
  then have r: "r = Inr ()" and
    rest: "(if length line \<ge> buf_capacity
            then (case disk_write d1 line of
                    (rest, d'') \<Rightarrow> (if rest = [] then Inr () else Inl no_space, d'', buf1))
            else (Inr (), d1, buf1 @ line)) = (Inr u, d', buf')"
    using assms(1) by (auto split: sum.splits)
  have s1: "d_file d1 @ buf1 = d_file d @ buf \<and> d_synced d1 = d_synced d \<and>
      length (d_file d) \<le> length (d_file d1) \<and>
      (length line > buf_capacity - length buf \<longrightarrow> buf1 = []) \<and>
      (\<not> length line > buf_capacity - length buf \<longrightarrow> buf1 = buf)"
    using f r buf_flush_Inr [of d buf "()" d1 buf1] by (auto split: if_splits)
  show ?thesis
  proof (cases "length line \<ge> buf_capacity")
    case True
    then obtain d2 where w: "disk_write d1 line = ([], d2)" "d' = d2" "buf' = buf1"
      using rest by (auto split: prod.splits if_splits)
    have "buf1 = []"
    proof (cases "length line > buf_capacity - length buf")
      case f: False
      then have "length buf = 0" using True unfolding buf_capacity_def by linarith
      then show ?thesis using s1 f by auto
    qed (use s1 in simp)
    then show ?thesis using disk_write_stream [OF w(1)] s1 w by auto
  next
    case small: False
    then show ?thesis using rest s1 False assms(2) by auto
  qed
qed

section \<open>The invariant\<close>

text \<open>
  \<open>fl_inv X l es\<close>: the log \<open>l\<close> holds the entries \<open>es\<close>. The stream is their records, the offsets are
  where each starts, and the entries that are not pending lie inside the file.
\<close>

definition stream_of :: "('a) externals_scheme \<Rightarrow> op_entry list \<Rightarrow> bytes" where
  "stream_of X es = concat (map (record_of X) es)"

definition serde_entries :: "('a) externals_scheme \<Rightarrow> bool" where
  "serde_entries X \<longleftrightarrow>
     (\<forall>e. x_entry_parse X (x_entry_json X e) = Inr e \<and> newline \<notin> set (x_entry_json X e))"

definition fl_inv :: "('a) externals_scheme \<Rightarrow> file_log \<Rightarrow> op_entry list \<Rightarrow> bool" where
  "fl_inv X l es \<longleftrightarrow>
     d_file (fl_disk l) @ fl_buf l = stream_of X es \<and>
     fl_write_pos l = length (stream_of X es) \<and>
     fl_offsets l = map (\<lambda>i. length (stream_of X (take i es))) [0..<length es] \<and>
     fl_head l = chain_head (entry_hash X) es \<and>
     length (fl_buf l) \<le> buf_capacity \<and>
     d_synced (fl_disk l) \<le> length (d_file (fl_disk l)) \<and>
     (\<exists>p \<le> length es. fl_pending l = drop p es \<and>
        length (stream_of X (take p es)) \<le> length (d_file (fl_disk l)))"

definition fl_entries :: "('a) externals_scheme \<Rightarrow> file_log \<Rightarrow> op_entry list" where
  "fl_entries X l = map (the \<circ> fl_get X l) [0..<fl_len l]"

definition fl_ok :: "('a) externals_scheme \<Rightarrow> file_log \<Rightarrow> bool" where
  "fl_ok X l \<longleftrightarrow> serde_entries X \<and> (\<exists>es. fl_inv X l es)"

lemma stream_of_simps [simp]:
  "stream_of X [] = []"
  "stream_of X (e # es) = record_of X e @ stream_of X es"
  "stream_of X (es @ fs) = stream_of X es @ stream_of X fs"
  by (simp_all add: stream_of_def)

lemma record_of_nonempty [simp]: "record_of X e \<noteq> []" "0 < length (record_of X e)"
  by (simp_all add: record_of_def)

lemma length_stream_take: "i \<le> j \<Longrightarrow> length (stream_of X (take i es)) \<le> length (stream_of X (take j es))"
  by (metis append_take_drop_id length_append le_add1 min.absorb1 stream_of_simps(3) take_take)

lemma stream_slice:
  assumes "i < length es"
  shows "take (length (stream_of X (take (Suc i) es)) - length (stream_of X (take i es)))
      (drop (length (stream_of X (take i es))) (stream_of X es)) = record_of X (es ! i)"
proof -
  have "es = take i es @ es ! i # drop (Suc i) es" using assms by (rule id_take_nth_drop)
  then have "stream_of X es = stream_of X (take i es) @ record_of X (es ! i) @ stream_of X (drop (Suc i) es)"
    by (metis stream_of_simps(2,3))
  moreover have "stream_of X (take (Suc i) es) = stream_of X (take i es) @ record_of X (es ! i)"
    using assms by (simp add: take_Suc_conv_app_nth)
  ultimately show ?thesis by simp
qed

lemma take_drop_prefix:
  "b \<le> length f \<Longrightarrow> take (b - a) (drop a (f @ g)) = take (b - a) (drop a f)"
  by (cases "a \<le> b") auto

lemma strip_record [simp]: "strip_newline (record_of X e) = x_entry_json X e"
  by (simp add: strip_newline_def record_of_def)

lemma fl_inv_len: "fl_inv X l es \<Longrightarrow> fl_len l = length es"
  by (simp add: fl_inv_def fl_len_def)

lemma fl_inv_get:
  assumes "serde_entries X" "fl_inv X l es"
  shows "fl_get X l i = (if i < length es then Some (es ! i) else None)"
proof (cases "i < length es")
  case False
  then show ?thesis using assms(2) by (simp add: fl_get_def fl_inv_def Let_def)
next
  case True
  obtain p where p: "p \<le> length es" "fl_pending l = drop p es"
    "length (stream_of X (take p es)) \<le> length (d_file (fl_disk l))"
    using assms(2) unfolding fl_inv_def by blast
  have off: "fl_offsets l = map (\<lambda>i. length (stream_of X (take i es))) [0..<length es]"
    and stream: "d_file (fl_disk l) @ fl_buf l = stream_of X es"
    and pos: "fl_write_pos l = length (stream_of X es)"
    using assms(2) unfolding fl_inv_def by auto
  have start: "length es - length (fl_pending l) = p" using p by simp
  show ?thesis
  proof (cases "p \<le> i")
    case pending: True
    then have "i - p < length (fl_pending l)" using p True by simp
    then show ?thesis
      using True p pending start off by (simp add: fl_get_def Let_def)
  next
    case flushed: False
    let ?a = "length (stream_of X (take i es))" and ?b = "length (stream_of X (take (Suc i) es))"
    have stop: "(if i + 1 < length es then fl_offsets l ! (i + 1) else fl_write_pos l) = ?b"
      using True off pos by (auto simp: not_less le_Suc_eq)
    have b: "?b \<le> length (d_file (fl_disk l))"
      using length_stream_take [of "Suc i" p X es] p(3) flushed by simp
    have "take (?b - ?a) (drop ?a (d_file (fl_disk l))) = record_of X (es ! i)"
      using stream_slice [OF True, of X] take_drop_prefix [OF b, of ?a "fl_buf l"] stream by simp
    then show ?thesis
      using True flushed start off stop b assms(1)
      by (simp add: fl_get_def Let_def serde_entries_def)
  qed
qed

lemma fl_inv_entries: "serde_entries X \<Longrightarrow> fl_inv X l es \<Longrightarrow> fl_entries X l = es"
  using fl_inv_get [of X l es] fl_inv_len [of X l es]
  by (auto simp: fl_entries_def intro!: nth_equalityI)

lemma fl_inv_append:
  assumes "fl_inv X l es" "fl_append X l e = (Inr h, l')"
  shows "h = entry_hash X e \<and> fl_inv X l' (es @ [e]) \<and> d_synced (fl_disk l') = d_synced (fl_disk l)"
proof -
  obtain d buf where w: "buf_write_all (fl_disk l) (fl_buf l) (record_of X e) = (Inr (), d, buf)"
    and h: "h = entry_hash X e"
    and l': "l' = l\<lparr>fl_disk := d, fl_buf := buf, fl_offsets := fl_offsets l @ [fl_write_pos l],
      fl_write_pos := fl_write_pos l + length (record_of X e),
      fl_pending := fl_pending l @ [e], fl_head := Some h\<rparr>"
    using assms(2)
    by (auto simp: fl_append_def Let_def split: if_splits prod.splits sum.splits)
  have cap: "length (fl_buf l) \<le> buf_capacity" using assms(1) by (simp add: fl_inv_def)
  note stream = buf_write_all_Inr [OF w cap]
  obtain p where p: "p \<le> length es" "fl_pending l = drop p es"
    "length (stream_of X (take p es)) \<le> length (d_file (fl_disk l))"
    using assms(1) unfolding fl_inv_def by blast
  have "\<exists>q \<le> length (es @ [e]). fl_pending l' = drop q (es @ [e]) \<and>
      length (stream_of X (take q (es @ [e]))) \<le> length (d_file (fl_disk l'))"
    using p stream l' by (intro exI [of _ p]) auto
  moreover have "fl_offsets l' = map (\<lambda>i. length (stream_of X (take i (es @ [e])))) [0..<length (es @ [e])]"
    using assms(1) l' by (simp add: fl_inv_def)
  moreover have "d_file d @ buf = stream_of X es @ record_of X e"
    using stream assms(1) by (metis append_assoc fl_inv_def)
  ultimately show ?thesis
    using assms(1) stream h l' unfolding fl_inv_def by simp
qed

interpretation flog: op_log
  "entry_hash X" "fl_append X" fl_head fl_len "fl_get X" "fl_entries X" "fl_ok X"
proof
  fix l :: file_log and e h l'
  assume ok: "fl_ok X l" and a: "fl_append X l e = (Inr h, l')"
  then obtain es where es: "serde_entries X" "fl_inv X l es" unfolding fl_ok_def by blast
  note s = fl_inv_append [OF es(2) a]
  then show "h = entry_hash X e \<and> fl_entries X l' = fl_entries X l @ [e] \<and> fl_ok X l'"
    using es fl_inv_entries [of X] unfolding fl_ok_def by auto
next
  fix l :: file_log and e
  show "fl_ok X l \<Longrightarrow> e_parent e \<noteq> fl_head l \<Longrightarrow> fl_append X l e = (Inl HeadMismatch, l)"
    by (simp add: fl_append_def)
next
  fix l :: file_log assume "fl_ok X l"
  then obtain es where es: "serde_entries X" "fl_inv X l es" unfolding fl_ok_def by blast
  then have e: "fl_entries X l = es" by (rule fl_inv_entries)
  show "fl_head l = chain_head (entry_hash X) (fl_entries X l)"
    using es e by (simp add: fl_inv_def)
  show "fl_len l = length (fl_entries X l)" using fl_inv_len [OF es(2)] e by simp
  show "fl_get X l i = (if i < length (fl_entries X l) then Some (fl_entries X l ! i) else None)" for i
    using fl_inv_get [OF es] e by simp
qed

section \<open>Reading a file back\<close>

text \<open>The entries \<open>open\<close> accepts: a chain, numbered from zero, of the version of this build.\<close>

fun replayable :: "('a) externals_scheme \<Rightarrow> nat \<Rightarrow> content_hash option \<Rightarrow> op_entry list \<Rightarrow> bool" where
  "replayable X n h [] = True"
| "replayable X n h (e # es) =
     (e_format_version e = format_version_1 \<and> e_seq e = n \<and> e_parent e = h \<and>
      replayable X (Suc n) (Some (entry_hash X e)) es)"

lemma replayable_append:
  "replayable X n h (es @ fs) \<longleftrightarrow>
     replayable X n h es \<and>
     replayable X (n + length es) (if es = [] then h else Some (entry_hash X (last es))) fs"
  by (induction es arbitrary: n h) auto

lemma replayable_take: "replayable X n h es \<Longrightarrow> replayable X n h (take i es)"
  using replayable_append [of X n h "take i es" "drop i es"] by simp

lemma split_once_record:
  "serde_entries X \<Longrightarrow> split_once newline (record_of X e @ rest) = Some (x_entry_json X e, rest)"
  using split_once_append [of newline "x_entry_json X e" rest]
  by (simp add: record_of_def serde_entries_def)

lemma open_scan_records:
  assumes "serde_entries X" "replayable X (length offs) h es"
  shows "open_scan X (stream_of X es @ rest) offs h pos =
    open_scan X rest (offs @ map (\<lambda>i. pos + length (stream_of X (take i es))) [0..<length es])
         (if es = [] then h else Some (entry_hash X (last es)))
         (pos + length (stream_of X es))"
  using assms(2)
proof (induction es arbitrary: offs h pos)
  case (Cons e es)
  let ?h = "Some (entry_hash X e)" and ?pos = "pos + length (x_entry_json X e) + 1"
  have "open_scan X (stream_of X (e # es) @ rest) offs h pos =
      open_scan X (stream_of X es @ rest) (offs @ [pos]) ?h ?pos"
    using Cons.prems assms(1) split_once_record [OF assms(1), of e "stream_of X es @ rest"]
    by (subst open_scan.simps) (simp add: serde_entries_def Let_def)
  also have "\<dots> = open_scan X rest
      ((offs @ [pos]) @ map (\<lambda>i. ?pos + length (stream_of X (take i es))) [0..<length es])
      (if es = [] then ?h else Some (entry_hash X (last es))) (?pos + length (stream_of X es))"
    using Cons.prems by (intro Cons.IH) simp
  also have "(offs @ [pos]) @ map (\<lambda>i. ?pos + length (stream_of X (take i es))) [0..<length es] =
      offs @ map (\<lambda>i. pos + length (stream_of X (take i (e # es)))) [0..<length (e # es)]"
    by (simp add: upt_conv_Cons map_Suc_upt [symmetric] record_of_def del: upt_Suc)
  finally show ?case by (cases "es = []") (simp_all add: record_of_def add.assoc del: upt_Suc)
qed simp

lemma open_scan_stream:
  assumes "serde_entries X" "replayable X (length offs) h es" "newline \<notin> set tail"
  shows "open_scan X (stream_of X es @ tail) offs h pos =
    Inr (offs @ map (\<lambda>i. pos + length (stream_of X (take i es))) [0..<length es],
         (if es = [] then h else Some (entry_hash X (last es))),
         pos + length (stream_of X es), tail)"
proof -
  have "split_once newline tail = None" using assms(3) by (simp add: split_once_None)
  then show ?thesis
    unfolding open_scan_records [OF assms(1,2)] by (simp add: open_scan.simps [of X tail])
qed

text \<open>A cut of the stream keeps whole records and a tail without a newline.\<close>

lemma stream_cut:
  assumes "serde_entries X"
  shows "\<exists>n tail. n \<le> length es \<and> take k (stream_of X es) = stream_of X (take n es) @ tail \<and>
    newline \<notin> set tail \<and> (\<forall>m \<le> length es. length (stream_of X (take m es)) \<le> k \<longrightarrow> m \<le> n)"
proof (induction es arbitrary: k)
  case (Cons e es)
  show ?case
  proof (cases "length (record_of X e) \<le> k")
    case True
    then obtain n tail where n: "n \<le> length es"
      "take (k - length (record_of X e)) (stream_of X es) = stream_of X (take n es) @ tail"
      "newline \<notin> set tail"
      "\<forall>m \<le> length es. length (stream_of X (take m es)) \<le> k - length (record_of X e) \<longrightarrow> m \<le> n"
      using Cons.IH by blast
    have "m \<le> Suc n" if "m \<le> length (e # es)" "length (stream_of X (take m (e # es))) \<le> k" for m
      using that n(4) by (cases m) auto
    then show ?thesis
      using n True by (intro exI [of _ "Suc n"] exI [of _ tail]) auto
  next
    case False
    have "m = 0" if "length (stream_of X (take m (e # es))) \<le> k" for m
      using that False by (cases m) auto
    moreover have "take k (record_of X e) = take k (x_entry_json X e)"
      using False by (simp add: record_of_def)
    moreover have "newline \<notin> set (take k (x_entry_json X e))"
      using assms by (auto simp: serde_entries_def dest: in_set_takeD)
    ultimately show ?thesis
      using False by (intro exI [of _ 0] exI [of _ "take k (x_entry_json X e)"]) auto
  qed
qed simp

text \<open>A crash: the durable bytes stay, a further prefix may, and a run of NUL bytes may follow.\<close>

definition crash :: "disk \<Rightarrow> nat \<Rightarrow> nat \<Rightarrow> disk" where
  "crash d k nuls =
     d\<lparr>d_file := take (max k (d_synced d)) (d_file d) @ replicate nuls 0\<rparr>"

text \<open>
  A power cut and what the machine is afterwards: the room left, the syncs and calls that fail, and what
  became of the sidecars. A restart is a power cut followed by an attempt to open; attempts may fail and
  follow each other.
\<close>

record device =
  dv_space :: "nat option"
  dv_sync_fails :: bool
  dv_faults :: "io_call \<Rightarrow> string option"
  dv_sidecars :: "string \<Rightarrow> bytes option"

type_synonym restart = "nat \<times> nat \<times> device"

definition on_device :: "device \<Rightarrow> disk \<Rightarrow> disk" where
  "on_device v d = d\<lparr>d_space := dv_space v, d_sync_fails := dv_sync_fails v, d_faults := dv_faults v,
                     d_sidecars := dv_sidecars v\<rparr>"

fun restart_disk :: "disk \<Rightarrow> restart \<Rightarrow> disk" where
  "restart_disk d (k, nuls, v) = on_device v (crash d k nuls)"

fun reopen_all :: "('a) externals_scheme \<Rightarrow> string \<Rightarrow> disk \<Rightarrow> restart list \<Rightarrow> disk" where
  "reopen_all X name d [] = d"
| "reopen_all X name d (r # rs) = reopen_all X name (snd (fl_open X name (restart_disk d r))) rs"

fun is_io :: "log_error \<Rightarrow> bool" where
  "is_io (Io e) = True"
| "is_io _ = False"

text \<open>Nothing on the device stands in the way of the repair \<open>open\<close> has to do.\<close>

definition torn_tail :: "('a) externals_scheme \<Rightarrow> disk \<Rightarrow> bytes" where
  "torn_tail X d = (case open_scan X (d_file d) [] None 0 of Inl _ \<Rightarrow> [] | Inr (_, _, _, torn) \<Rightarrow> torn)"

definition faultless :: "disk \<Rightarrow> bool" where
  "faultless d \<longleftrightarrow> \<not> d_sync_fails d \<and> (\<forall>c. d_faults d c = None)"

definition repair_possible :: "('a) externals_scheme \<Rightarrow> disk \<Rightarrow> bool" where
  "repair_possible X d \<longleftrightarrow>
     (case d_space d of None \<Rightarrow> True | Some s \<Rightarrow> length (torn_tail X d) \<le> s) \<and> faultless d"

text \<open>
  \<open>reopens X d P\<close>: after any number of power cuts and attempts to open, the next one opens a log with \<open>P\<close>
  or reports an I/O error, and it opens one when nothing on the device stands in the way.
\<close>

definition reopens :: "('a) externals_scheme \<Rightarrow> disk \<Rightarrow> (file_log \<Rightarrow> bool) \<Rightarrow> bool" where
  "reopens X d P \<longleftrightarrow>
     (\<forall>name rs r. let d' = restart_disk (reopen_all X name d rs) r in
        (case fst (fl_open X name d') of Inr l \<Rightarrow> P l | Inl err \<Rightarrow> is_io err) \<and>
        (repair_possible X d' \<longrightarrow> (\<exists>l. fst (fl_open X name d') = Inr l)))"

lemma reopensD:
  assumes "reopens X d P" "fl_open X name (restart_disk (reopen_all X name d rs) r) = (Inr l, d')"
  shows "P l"
  using assms unfolding reopens_def Let_def by (metis fst_conv old.sum.simps(6))

lemma reopens_mono: "reopens X d P \<Longrightarrow> (\<And>l. P l \<Longrightarrow> Q l) \<Longrightarrow> reopens X d Q"
  unfolding reopens_def Let_def by (auto split: sum.splits)

text \<open>A disk whose file begins with the first \<open>m\<close> of the entries \<open>es\<close>, all durable, and ends in a torn tail.\<close>

definition recoverable :: "('a) externals_scheme \<Rightarrow> nat \<Rightarrow> op_entry list \<Rightarrow> disk \<Rightarrow> bool" where
  "recoverable X m es d \<longleftrightarrow>
     (\<exists>n tail. m \<le> n \<and> n \<le> length es \<and> d_file d = stream_of X (take n es) @ tail \<and> newline \<notin> set tail) \<and>
     length (stream_of X (take m es)) \<le> d_synced d \<and> d_synced d \<le> length (d_file d)"

lemma take_min_append: "take j f = take (min j (length f)) (f @ g)"
  by (cases "j \<le> length f") simp_all

lemma recoverable_cut:
  assumes "serde_entries X" "newline \<notin> set junk" "d_file d = take c (stream_of X es @ junk) @ replicate nuls 0"
    and "m \<le> length es" "length (stream_of X (take m es)) \<le> c"
    and "length (stream_of X (take m es)) \<le> d_synced d" "d_synced d \<le> length (d_file d)"
  shows "recoverable X m es d"
proof -
  obtain n tail where n: "n \<le> length es" "take c (stream_of X es) = stream_of X (take n es) @ tail"
    "newline \<notin> set tail" "\<forall>j \<le> length es. length (stream_of X (take j es)) \<le> c \<longrightarrow> j \<le> n"
    using stream_cut [OF assms(1), of es c] by blast
  let ?tail = "tail @ take (c - length (stream_of X es)) junk @ replicate nuls 0"
  have "d_file d = stream_of X (take n es) @ ?tail" using assms(3) n(2) by simp
  moreover have "newline \<notin> set ?tail" using n(3) assms(2) by (auto simp: newline_def dest: in_set_takeD)
  moreover have "m \<le> n" using n(4) assms(4,5) by simp
  ultimately show ?thesis using n(1) assms(6,7) unfolding recoverable_def by blast
qed

lemma recoverable_log:
  assumes "serde_entries X" "d_file d @ buf = stream_of X es @ junk" "newline \<notin> set junk" "m \<le> length es"
    and "length (stream_of X (take m es)) \<le> d_synced d" "d_synced d \<le> length (d_file d)"
  shows "recoverable X m es d"
proof -
  have "d_file d = take (length (d_file d)) (stream_of X es @ junk) @ replicate 0 0"
    unfolding assms(2) [symmetric] by simp
  from recoverable_cut [OF assms(1,3) this assms(4) _ assms(5,6)] assms(5,6) show ?thesis by simp
qed

lemma recoverable_restart:
  assumes "serde_entries X" "recoverable X m es d"
  shows "recoverable X m es (restart_disk d r)"
proof -
  obtain k nuls v where r: "r = (k, nuls, v)" by (cases r)
  obtain n tail where n: "m \<le> n" "n \<le> length es" "d_file d = stream_of X (take n es) @ tail" "newline \<notin> set tail"
    and s: "length (stream_of X (take m es)) \<le> d_synced d" "d_synced d \<le> length (d_file d)"
    using assms(2) unfolding recoverable_def by blast
  have m: "take m (take n es) = take m es" using n(1) by simp
  have "recoverable X m (take n es) (restart_disk d r)"
    using n(1,2) s unfolding m [symmetric]
    by (intro recoverable_cut [OF assms(1) n(4), where c = "max k (d_synced d)" and nuls = nuls])
       (simp_all add: r on_device_def crash_def n(3))
  then obtain n' tail' where "m \<le> n'" "n' \<le> n" "d_file (restart_disk d r) = stream_of X (take n' es) @ tail'" "newline \<notin> set tail'"
      "length (stream_of X (take m es)) \<le> d_synced (restart_disk d r)"
      "d_synced (restart_disk d r) \<le> length (d_file (restart_disk d r))"
    using n(1,2) unfolding recoverable_def by (auto simp: min_absorb1)
  then show ?thesis using n(2) unfolding recoverable_def by (meson le_trans)
qed

text \<open>What a repair does, failed or not: the file is as it was or cut at the torn tail.\<close>

lemma io_fault_is_io: "io_fault d c = Some e \<Longrightarrow> is_io e \<and> \<not> faultless d"
  by (auto simp: io_fault_def faultless_def split: option.splits if_splits)

lemma first_fault_is_io: "first_fault d cs = Some e \<Longrightarrow> is_io e \<and> \<not> faultless d"
  by (induction cs) (auto split: option.splits dest: io_fault_is_io)

lemma faultless_cong: "d_faults d' = d_faults d \<Longrightarrow> d_sync_fails d' = d_sync_fails d \<Longrightarrow> faultless d' = faultless d"
  by (simp add: faultless_def)

lemma quarantine_tail_effect:
  assumes "quarantine_tail name torn offset d = (r, d')"
  shows "d_file d' = d_file d \<and> d_synced d' = d_synced d \<and> d_faults d' = d_faults d \<and> d_sync_fails d' = d_sync_fails d \<and>
    (case r of
       Inl e \<Rightarrow> is_io e \<and> (faultless d \<longrightarrow> (\<exists>s. d_space d = Some s \<and> s < length torn))
     | Inr q \<Rightarrow> q = quarantine_path name offset \<and> d_sidecars d' q = Some torn)"
proof (cases "io_fault d CreateSidecar")
  case (Some e)
  then show ?thesis using assms io_fault_is_io [OF Some] by (auto simp: quarantine_tail_def Let_def)
next
  case None
  show ?thesis
  proof (cases r)
    case (Inl e)
    have "\<not> faultless d" if "first_fault (d\<lparr>d_sidecars := sc, d_space := sp\<rparr>) cs = Some e'" for sc sp cs e'
      using first_fault_is_io [OF that] faultless_cong [of "d\<lparr>d_sidecars := sc, d_space := sp\<rparr>" d] by simp
    then show ?thesis
      using assms None Inl
      by (auto simp: quarantine_tail_def Let_def no_space_def simp del: first_fault.simps
          split: if_splits option.splits dest: first_fault_is_io)
  next
    case (Inr q)
    then show ?thesis
      using assms None by (auto simp: quarantine_tail_def Let_def split: if_splits option.splits)
  qed
qed

lemma cut_file_effect:
  assumes "cut_file keep d = (r, d')"
  shows "d_faults d' = d_faults d \<and> d_sync_fails d' = d_sync_fails d \<and> d_sidecars d' = d_sidecars d \<and>
    (case r of
       Inl e \<Rightarrow> is_io e \<and> \<not> faultless d \<and>
         (d_file d' = d_file d \<and> d_synced d' = d_synced d \<or>
          d_file d' = take keep (d_file d) \<and> d_synced d' = min keep (d_synced d))
     | Inr _ \<Rightarrow> d_file d' = take keep (d_file d) \<and> d_synced d' = keep)"
  using assms
  by (auto simp: cut_file_def Let_def faultless_def io_fault_def split: option.splits if_splits)

lemma repair_tail_effect:
  assumes "repair_tail name torn offset d = (r, d')"
  shows "d_faults d' = d_faults d \<and> d_sync_fails d' = d_sync_fails d \<and>
    (case r of
       Inl e \<Rightarrow> is_io e \<and> (faultless d \<longrightarrow> (\<exists>s. d_space d = Some s \<and> s < length torn)) \<and>
         (d_file d' = d_file d \<and> d_synced d' = d_synced d \<or>
          d_file d' = take offset (d_file d) \<and> d_synced d' = min offset (d_synced d))
     | Inr q \<Rightarrow> q = quarantine_path name offset \<and> d_sidecars d' q = Some torn \<and>
         d_file d' = take offset (d_file d) \<and> d_synced d' = offset)"
proof -
  obtain q d1 where q: "quarantine_tail name torn offset d = (q, d1)" by (cases "quarantine_tail name torn offset d")
  note qe = quarantine_tail_effect [OF q]
  show ?thesis
  proof (cases q)
    case (Inl e)
    then have "r = Inl e" "d' = d1" using assms q by (simp_all add: repair_tail_def)
    then show ?thesis using qe Inl by simp
  next
    case (Inr path)
    obtain c d2 where c: "cut_file offset d1 = (c, d2)" by (cases "cut_file offset d1")
    show ?thesis
      using assms q qe Inr c cut_file_effect [OF c] faultless_cong [of d1 d]
      by (cases c) (auto simp: repair_tail_def)
  qed
qed

lemma open_scan_held:
  assumes "serde_entries X" "replayable X 0 None es" "newline \<notin> set tail"
  shows "open_scan X (stream_of X es @ tail) [] None 0 =
    Inr (map (\<lambda>i. length (stream_of X (take i es))) [0..<length es], chain_head (entry_hash X) es,
         length (stream_of X es), tail)"
  using open_scan_stream [OF assms(1) _ assms(3), of "[]" None es 0] assms(2) by (cases es) simp_all

lemma fl_inv_opened:
  assumes "d_file (fl_disk l) = stream_of X es" "d_synced (fl_disk l) \<le> length (d_file (fl_disk l))"
    and "fl_buf l = []" "fl_pending l = []" "fl_write_pos l = length (stream_of X es)"
    and "fl_offsets l = map (\<lambda>i. length (stream_of X (take i es))) [0..<length es]"
    and "fl_head l = chain_head (entry_hash X) es"
  shows "fl_inv X l es"
  using assms unfolding fl_inv_def by (auto intro!: exI [of _ "length es"])

lemma fl_open_recoverable:
  assumes X: "serde_entries X" and es: "replayable X 0 None es" and rec: "recoverable X m es d"
    and out: "fl_open X name d = (r, d')"
  shows "recoverable X m es d' \<and>
    (case r of Inl e \<Rightarrow> is_io e \<and> \<not> repair_possible X d
     | Inr l \<Rightarrow> \<exists>n. m \<le> n \<and> n \<le> length es \<and> fl_inv X l (take n es))"
proof -
  obtain n tail where n: "m \<le> n" "n \<le> length es" "d_file d = stream_of X (take n es) @ tail" "newline \<notin> set tail"
    and s: "length (stream_of X (take m es)) \<le> d_synced d" "d_synced d \<le> length (d_file d)"
    using rec unfolding recoverable_def by blast
  let ?off = "length (stream_of X (take n es))"
  have scan: "open_scan X (d_file d) [] None 0 =
      Inr (map (\<lambda>i. length (stream_of X (take i (take n es)))) [0..<length (take n es)],
           chain_head (entry_hash X) (take n es), ?off, tail)"
    using open_scan_held [OF X replayable_take [OF es, of n] n(4)] unfolding n(3) .
  then have torn: "torn_tail X d = tail" by (simp add: torn_tail_def)
  have m: "length (stream_of X (take m es)) \<le> ?off" using length_stream_take [OF n(1)] .
  let ?step = "if length tail > 0
      then (case repair_tail name tail ?off d of
              (Inl e, d1) \<Rightarrow> (Inl e, d1)
            | (Inr q, d1) \<Rightarrow> (Inr (Some q), d1))
      else (Inr None, d)"
  obtain a d1 where a: "?step = (a, d1)" by (cases ?step)
  have open': "fl_open X name d = (case a of Inl e \<Rightarrow> (Inl e, d1)
      | Inr quarantine \<Rightarrow> (case first_fault d1 [SyncParent, OpenReader] of
          Some e \<Rightarrow> (Inl e, d1)
        | None \<Rightarrow> (Inr \<lparr>fl_disk = d1, fl_buf = [],
              fl_offsets = map (\<lambda>i. length (stream_of X (take i (take n es)))) [0..<length (take n es)],
              fl_write_pos = ?off, fl_pending = [], fl_head = chain_head (entry_hash X) (take n es),
              fl_torn_tail_bytes = length tail, fl_torn_tail_quarantine = quarantine\<rparr>, d1)))"
    unfolding fl_open_def scan sum.case prod.case a by (cases a) simp_all
  have eff: "d_faults d1 = d_faults d \<and> d_sync_fails d1 = d_sync_fails d \<and> recoverable X m es d1 \<and>
    (case a of Inl e \<Rightarrow> is_io e \<and> \<not> repair_possible X d
     | Inr _ \<Rightarrow> d_file d1 = stream_of X (take n es) \<and> d_synced d1 \<le> length (d_file d1))"
  proof (cases "tail = []")
    case True
    then show ?thesis using a rec n(3) s by auto
  next
    case False
    obtain q d2 where q: "repair_tail name tail ?off d = (q, d2)" by (cases "repair_tail name tail ?off d")
    note e = repair_tail_effect [OF q]
    have cut: "take ?off (d_file d) = stream_of X (take n es)" using n(3) by simp
    have keeps: "recoverable X m es d1" if "d_file d1 = d_file d \<and> d_synced d1 = d_synced d \<or>
        d_file d1 = stream_of X (take n es) \<and> (d_synced d1 = min ?off (d_synced d) \<or> d_synced d1 = ?off)"
      using that
    proof
      assume "d_file d1 = d_file d \<and> d_synced d1 = d_synced d"
      then show ?thesis using rec by (simp add: recoverable_def)
    next
      assume c: "d_file d1 = stream_of X (take n es) \<and> (d_synced d1 = min ?off (d_synced d) \<or> d_synced d1 = ?off)"
      then have "length (stream_of X (take m es)) \<le> d_synced d1" "d_synced d1 \<le> length (d_file d1)" using m s by auto
      then show ?thesis using c n(1,2) unfolding recoverable_def by (intro conjI exI [of _ n] exI [of _ "[]"]) simp_all
    qed
    show ?thesis
    proof (cases q)
      case (Inl err)
      then have "a = Inl err" "d1 = d2" using a q False by auto
      moreover have "\<not> repair_possible X d" using e Inl torn by (auto simp: repair_possible_def)
      ultimately show ?thesis using e Inl keeps cut by auto
    next
      case (Inr path)
      then have "a = Inr (Some path)" "d1 = d2" using a q False by auto
      then show ?thesis using e Inr keeps cut by auto
    qed
  qed
  show ?thesis
  proof (cases a)
    case (Inl e)
    then show ?thesis using out open' eff by auto
  next
    case (Inr quarantine)
    show ?thesis
    proof (cases "first_fault d1 [SyncParent, OpenReader]")
      case (Some e)
      then have "r = Inl e" "d' = d1" using out open' Inr by auto
      then show ?thesis using eff first_fault_is_io [OF Some] faultless_cong [of d1 d] by (simp add: repair_possible_def)
    next
      case None
      then obtain l where l: "r = Inr l" "d' = d1" "fl_disk l = d1" "fl_buf l = []" "fl_pending l = []"
          "fl_offsets l = map (\<lambda>i. length (stream_of X (take i (take n es)))) [0..<length (take n es)]"
          "fl_write_pos l = ?off" "fl_head l = chain_head (entry_hash X) (take n es)"
        using out open' Inr by auto
      have "fl_inv X l (take n es)"
        by (rule fl_inv_opened) (use l(3-8) eff Inr in auto)
      then show ?thesis using l(1,2) n(1,2) eff by auto
    qed
  qed
qed

lemma reopens_recoverable:
  assumes X: "serde_entries X" and es: "replayable X 0 None es" and rec: "recoverable X m es d"
    and P: "\<And>l n. m \<le> n \<Longrightarrow> n \<le> length es \<Longrightarrow> fl_inv X l (take n es) \<Longrightarrow> P l"
  shows "reopens X d P"
proof -
  have all: "recoverable X m es (reopen_all X name d' rs)" if "recoverable X m es d'" for name d' rs
    using that
  proof (induction rs arbitrary: d')
    case (Cons r rs)
    have "recoverable X m es (snd (fl_open X name (restart_disk d' r)))"
      using fl_open_recoverable [OF X es recoverable_restart [OF X Cons.prems]] by (metis surjective_pairing)
    then show ?case using Cons.IH by simp
  qed simp
  have "(case fst (fl_open X name d') of Inr l \<Rightarrow> P l | Inl err \<Rightarrow> is_io err) \<and>
      (repair_possible X d' \<longrightarrow> (\<exists>l. fst (fl_open X name d') = Inr l))"
    if "recoverable X m es d'" for name d'
  proof (cases "fl_open X name d'")
    case (Pair q d'')
    show ?thesis using fl_open_recoverable [OF X es that Pair] P Pair by (cases q) auto
  qed
  then show ?thesis
    unfolding reopens_def Let_def using recoverable_restart [OF X all [OF rec]] by blast
qed

section \<open>Sync and recovery\<close>

lemma fl_inv_sync:
  assumes "fl_inv X l es" "fl_sync l = (r, l')"
  shows "fl_inv X l' es \<and> fl_head l' = fl_head l \<and>
    (r = Inr () \<longrightarrow> fl_pending l' = [] \<and> d_file (fl_disk l') = stream_of X es \<and>
       d_synced (fl_disk l') = length (stream_of X es))"
proof -
  obtain rest d where w: "disk_write (fl_disk l) (fl_buf l) = (rest, d)" by (cases "disk_write (fl_disk l) (fl_buf l)")
  note s = disk_write_stream [OF w]
  have stream: "d_file d @ rest = stream_of X es"
    using s(1) assms(1) by (simp add: fl_inv_def)
  show ?thesis
  proof (cases "rest = []")
    case False
    then have "r = Inl no_space" "l' = l\<lparr>fl_disk := d, fl_buf := rest\<rparr>"
      using assms(2) w by (auto simp: fl_sync_def buf_flush_def)
    moreover have "\<exists>p \<le> length es. fl_pending l = drop p es \<and>
        length (stream_of X (take p es)) \<le> length (d_file d)"
      using assms(1) s(3) order_trans unfolding fl_inv_def by blast
    ultimately show ?thesis
      using assms(1) stream s unfolding fl_inv_def by simp
  next
    case True
    then have l': "l' = l\<lparr>fl_disk := (if d_sync_fails d then d else d\<lparr>d_synced := length (d_file d)\<rparr>),
        fl_buf := [], fl_pending := []\<rparr>"
      "r = (if d_sync_fails d then Inl (Io ''sync failed'') else Inr ())"
      using assms(2) w by (auto simp: fl_sync_def buf_flush_def Let_def split: if_splits)
    have "fl_inv X l' es"
      using assms(1) stream s True l' unfolding fl_inv_def
      by (auto intro!: exI [of _ "length es"])
    then show ?thesis using stream True l' by auto
  qed
qed

text \<open>Appends that all succeed.\<close>

fun fl_append_all :: "('a) externals_scheme \<Rightarrow> file_log \<Rightarrow> op_entry list \<Rightarrow> file_log option" where
  "fl_append_all X l [] = Some l"
| "fl_append_all X l (e # es) =
     (case fl_append X l e of (Inl _, _) \<Rightarrow> None | (Inr _, l') \<Rightarrow> fl_append_all X l' es)"

lemma fl_inv_append_all:
  "fl_inv X l es \<Longrightarrow> fl_append_all X l fs = Some l' \<Longrightarrow>
     fl_inv X l' (es @ fs) \<and> d_synced (fl_disk l') = d_synced (fl_disk l)"
proof (induction fs arbitrary: l es)
  case (Cons e fs)
  then obtain h l1 where a: "fl_append X l e = (Inr h, l1)" "fl_append_all X l1 fs = Some l'"
    by (auto split: prod.splits sum.splits)
  then show ?case using Cons.IH [of l1 "es @ [e]"] fl_inv_append [OF Cons.prems(1) a(1)] by simp
qed simp

section \<open>Externals for concrete evaluation\<close>

text \<open>
  Entries are countable, so a run of equal bytes as long as an entry's number encodes it: a
  serialization that parses back and has no newline.
\<close>

instance content_hash_ext :: (countable) countable
  by (rule countable_classI [of "\<lambda>r. to_nat (codec r, digest r, content_hash.more r)"]) simp

instance witness_ext :: (countable) countable
  by (rule countable_classI [of "\<lambda>r. to_nat (w_key_id r, w_signature r, w_scheme r,
        w_authenticator_data r, w_client_data_json r, w_credential_key r, witness.more r)"]) simp

instance op_entry_ext :: (countable) countable
  by (rule countable_classI [of "\<lambda>r. to_nat (e_format_version r, e_parent r, e_seq r, e_channel r,
        e_payload r, e_witnesses r, e_author_sig r, op_entry.more r)"]) simp

definition counted_externals :: "view_op \<Rightarrow> view_externals" where
  "counted_externals vop =
     \<lparr>x_blake3 = \<lambda>b. [of_nat (length b)], x_entry_json = \<lambda>e. replicate (to_nat e) 1,
      x_entry_parse = \<lambda>b. Inr (from_nat (length b)), x_signed_json = \<lambda>(_, b). b,
      x_op_json = \<lambda>_. [7], x_op_parse = \<lambda>_. Inr vop, x_snapshot_json = \<lambda>_. []\<rparr>"

definition sample_op :: view_op where
  "sample_op = new_view_op (DeleteWorkspace ''w'')"

lemma serde_counted [simp]: "serde_entries (counted_externals vop)" "serde_op (counted_externals vop) vop"
  by (auto simp: serde_entries_def counted_externals_def newline_def serde_op_def from_payload_def)

definition empty_disk :: disk where
  "empty_disk = \<lparr>d_file = [], d_synced = 0, d_space = None, d_sync_fails = False,
                 d_faults = (\<lambda>_. None), d_sidecars = Map.empty\<rparr>"

definition empty_log :: file_log where
  "empty_log = \<lparr>fl_disk = empty_disk, fl_buf = [], fl_offsets = [], fl_write_pos = 0,
                fl_pending = [], fl_head = None, fl_torn_tail_bytes = 0,
                fl_torn_tail_quarantine = None\<rparr>"

lemma fl_inv_empty: "fl_inv X empty_log []"
  by (simp add: fl_inv_def empty_log_def empty_disk_def)

lemma fl_ok_empty: "serde_entries X \<Longrightarrow> fl_ok X empty_log"
  using fl_inv_empty by (auto simp: fl_ok_def)

lemma fl_entries_empty [simp]: "fl_entries X empty_log = []"
  by (simp add: fl_entries_def fl_len_def empty_log_def)

lemma disk_write_unlimited: "d_space d = None \<Longrightarrow> disk_write d b = ([], d\<lparr>d_file := d_file d @ b\<rparr>)"
  by (cases d) (simp add: disk_write_def)

lemma buf_write_all_unlimited:
  "d_space d = None \<Longrightarrow>
     \<exists>d' buf'. buf_write_all d buf line = (Inr (), d', buf') \<and> d_space d' = None \<and>
       d_sync_fails d' = d_sync_fails d"
  by (simp add: buf_write_all_def buf_flush_def disk_write_unlimited)

lemma fl_append_unlimited:
  assumes "d_space (fl_disk l) = None" "e_parent e = fl_head l"
  shows "\<exists>l'. fl_append X l e = (Inr (entry_hash X e), l') \<and> d_space (fl_disk l') = None \<and>
    d_sync_fails (fl_disk l') = d_sync_fails (fl_disk l)"
  using buf_write_all_unlimited [OF assms(1), of "fl_buf l" "record_of X e"] assms(2)
  by (auto simp: fl_append_def Let_def)

lemma fl_sync_unlimited:
  assumes "d_space (fl_disk l) = None" "\<not> d_sync_fails (fl_disk l)"
  shows "\<exists>l'. fl_sync l = (Inr (), l')"
  using assms by (simp add: fl_sync_def buf_flush_def disk_write_unlimited Let_def)

definition intact_device :: device where
  "intact_device = \<lparr>dv_space = None, dv_sync_fails = False, dv_faults = (\<lambda>_. None), dv_sidecars = Map.empty\<rparr>"

lemma reopens_intact:
  assumes "reopens X d P"
  shows "\<exists>l d'. fl_open X name (restart_disk d (k, nuls, intact_device)) = (Inr l, d') \<and> P l"
proof -
  let ?d = "restart_disk d (k, nuls, intact_device)"
  have "repair_possible X ?d"
    by (simp add: repair_possible_def faultless_def on_device_def intact_device_def)
  then obtain l where "fst (fl_open X name ?d) = Inr l"
    using assms unfolding reopens_def Let_def by (metis reopen_all.simps(1))
  then have o: "fl_open X name ?d = (Inr l, snd (fl_open X name ?d))" by (metis prod.collapse)
  then have "fl_open X name (restart_disk (reopen_all X name d []) (k, nuls, intact_device)) = (Inr l, snd (fl_open X name ?d))"
    by simp
  then show ?thesis using reopensD [OF assms] o by blast
qed

lemma synced_survive:
  assumes "fl_ok X l" "fl_sync l = (Inr u, l1)" "fl_append_all X l1 newer = Some l2"
    and "replayable X 0 None (fl_entries X l @ newer)"
  shows "reopens X (fl_disk l2) (\<lambda>l3. fl_ok X l3 \<and> (\<exists>n. fl_entries X l3 = fl_entries X l @ take n newer) \<and>
    fl_head l3 = chain_head (entry_hash X) (fl_entries X l3))"
proof -
  obtain es where es: "serde_entries X" "fl_inv X l es" using assms(1) by (auto simp: fl_ok_def)
  have e: "fl_entries X l = es" using fl_inv_entries [OF es] .
  have l1: "fl_inv X l1 es" "d_synced (fl_disk l1) = length (stream_of X es)"
    using fl_inv_sync [OF es(2) assms(2)] by auto
  have l2: "fl_inv X l2 (es @ newer)" "d_synced (fl_disk l2) = length (stream_of X es)"
    using fl_inv_append_all [OF l1(1) assms(3)] l1(2) by auto
  have "recoverable X (length es) (es @ newer) (fl_disk l2)"
    using l2 by (intro recoverable_log [OF es(1), where buf = "fl_buf l2" and junk = "[]"]) (simp_all add: fl_inv_def)
  then show ?thesis
  proof (rule reopens_recoverable [OF es(1) assms(4) [unfolded e]])
    fix l3 n
    assume n: "length es \<le> n" "fl_inv X l3 (take n (es @ newer))"
    have "fl_entries X l3 = es @ take (n - length es) newer"
      using fl_inv_entries [OF es(1) n(2)] n(1) by simp
    moreover have "fl_head l3 = chain_head (entry_hash X) (fl_entries X l3)"
      using fl_inv_entries [OF es(1) n(2)] n(2) by (simp add: fl_inv_def)
    ultimately show "fl_ok X l3 \<and> (\<exists>n. fl_entries X l3 = fl_entries X l @ take n newer) \<and>
        fl_head l3 = chain_head (entry_hash X) (fl_entries X l3)"
      using es(1) n(2) e by (auto simp: fl_ok_def)
  qed
qed

section \<open>Properties\<close>

text \<open>
  A sync never loses an entry. Whether the flush runs out of room, the sync of the device fails
  or everything succeeds, the log reads the same entries with the same head afterwards; and when it
  succeeds, every byte of every entry is in the file and durable.
\<close>

theorem sync_keeps_entries:
  assumes "fl_ok X l" "fl_sync l = (r, l')"
  shows "fl_ok X l' \<and> fl_entries X l' = fl_entries X l \<and> fl_head l' = fl_head l \<and>
    (r = Inr () \<longrightarrow> d_file (fl_disk l') = stream_of X (fl_entries X l) \<and>
       d_synced (fl_disk l') = length (d_file (fl_disk l')))"
proof -
  obtain es where es: "serde_entries X" "fl_inv X l es" using assms(1) by (auto simp: fl_ok_def)
  note s = fl_inv_sync [OF es(2) assms(2)]
  then have "fl_entries X l' = es" "fl_entries X l = es"
    using fl_inv_entries [OF es(1)] es(2) by auto
  then show ?thesis using s es(1) by (auto simp: fl_ok_def)
qed

lemma sync_keeps_entries_witness:
  "\<exists>l'. fl_sync empty_log = (Inr (), l') \<and>
     fl_entries (counted_externals sample_op) l' = []"
proof -
  obtain l' where l': "fl_sync empty_log = (Inr (), l')"
    using fl_sync_unlimited [of empty_log] by (auto simp: empty_log_def empty_disk_def)
  show ?thesis
    using sync_keeps_entries [OF fl_ok_empty l', of "counted_externals sample_op"] l'
    by simp
qed

text \<open>
  \<open>last\<close> answers nothing after a sync. The entries a successful sync flushed leave the queue
  \<open>last\<close> reads, so it is \<open>None\<close> however many entries the log has and whatever its head is.
\<close>

theorem last_empty_after_sync:
  assumes "fl_sync l = (Inr u, l')"
  shows "fl_last l' = None \<and> fl_head l' = fl_head l \<and> fl_len l' = fl_len l"
  using assms
  by (auto simp: fl_sync_def fl_last_def fl_len_def Let_def split: prod.splits sum.splits if_splits)

lemma last_empty_after_sync_witness:
  "\<exists>l h l'. fl_append (counted_externals sample_op) empty_log
       (op_entry_of (counted_externals sample_op) None 0 ''ana''
          sample_op) = (Inr h, l) \<and>
     fl_sync l = (Inr (), l') \<and> fl_last l' = None \<and> fl_head l' = Some h"
proof -
  let ?X = "counted_externals sample_op"
  let ?e = "op_entry_of ?X None 0 ''ana'' sample_op"
  obtain l where l: "fl_append ?X empty_log ?e = (Inr (entry_hash ?X ?e), l)"
    "d_space (fl_disk l) = None" "\<not> d_sync_fails (fl_disk l)"
    using fl_append_unlimited [of empty_log ?e ?X] by (auto simp: empty_log_def empty_disk_def op_entry_of_def)
  obtain l' where l': "fl_sync l = (Inr (), l')" using fl_sync_unlimited [OF l(2,3)] by blast
  have "fl_head l = Some (entry_hash ?X ?e)"
    using flog.app_head [OF fl_ok_empty l(1)] by simp
  then show ?thesis using last_empty_after_sync [OF l'] l(1) l' by auto
qed

definition file_append_op ::
  "('a) view_externals_scheme \<Rightarrow> file_log \<Rightarrow> string \<Rightarrow> view_op \<Rightarrow>
   ((view_error + content_hash) \<times> file_log) option" where
  "file_append_op X = append_op X (fl_append X) fl_head fl_len (fl_get X)"

definition file_view :: "('a) view_externals_scheme \<Rightarrow> file_log \<Rightarrow> (view_error + view) option" where
  "file_view X l = materialize X (fl_len l) (fl_get X l)"

text \<open>
  C8: a log built by \<open>append_op\<close> replays. On a \<open>MemLog\<close>, whatever operations are submitted from its
  creation on, in whatever order and however many of them are refused, \<open>append_op\<close> never panics, the
  log it leaves is a hash chain from an entry without a parent, materializing it succeeds, and the fold
  position of the view is the length of the log. On a \<open>FileLog\<close> the same holds from any chained log
  that materializes, as long as no append failed on the device: after one that did, the file may not
  even open (\<open>refused_append_can_break_log\<close>).
\<close>

theorem append_op_history_replays:
  assumes "\<forall>(s, vop) \<in> set subs. serde_op X vop"
  shows "(\<exists>l v. submit_all (mem_append_op X) mem_new subs = Some l \<and>
      chained (entry_hash X) (m_entries l) \<and> mem_view X l = Some (Inr v) \<and> v_next_seq v = mem_len l) \<and>
    (\<forall>l0 v0. fl_ok X l0 \<and> chained (entry_hash X) (fl_entries X l0) \<and> file_view X l0 = Some (Inr v0) \<and>
        no_failed_append (file_append_op X) l0 subs \<longrightarrow>
      (\<exists>l v. submit_all (file_append_op X) l0 subs = Some l \<and> fl_ok X l \<and>
         chained (entry_hash X) (fl_entries X l) \<and> file_view X l = Some (Inr v) \<and> v_next_seq v = fl_len l))"
  using mem_history_replays [OF assms] flog.clean_history_replays [where X = X and Xa = X, OF _ _ assms]
  unfolding file_append_op_def file_view_def by blast

lemma append_op_history_replays_witness:
  "\<exists>l v. submit_all (file_append_op (counted_externals sample_op)) empty_log [(''ana'', sample_op)] = Some l \<and>
     fl_ok (counted_externals sample_op) l \<and>
     chained (entry_hash (counted_externals sample_op)) (fl_entries (counted_externals sample_op) l) \<and>
     file_view (counted_externals sample_op) l = Some (Inr v) \<and> v_next_seq v = fl_len l \<and> fl_len l = 1"
proof -
  let ?X = "counted_externals sample_op" and ?subs = "[(''ana'', sample_op)]"
  obtain l where l: "fl_append ?X empty_log (op_entry_of ?X None 0 ''ana'' sample_op) =
      (Inr (entry_hash ?X (op_entry_of ?X None 0 ''ana'' sample_op)), l)"
    using fl_append_unlimited [of empty_log "op_entry_of ?X None 0 ''ana'' sample_op" ?X]
    by (auto simp: empty_log_def empty_disk_def op_entry_of_def)
  have a: "file_append_op ?X empty_log ''ana'' sample_op =
      Some (Inr (entry_hash ?X (op_entry_of ?X None 0 ''ana'' sample_op)), l)"
    using l by (simp add: file_append_op_def append_op_def materialize_def view_at_def fl_len_def empty_log_def
        sample_op_def new_view_op_def apply_view_def validate_def validate_kind_def apply_kind_def)
  have "file_view ?X empty_log = Some (Inr default_view)"
    by (simp add: file_view_def materialize_def view_at_def fl_len_def empty_log_def)
  moreover have "no_failed_append (file_append_op ?X) empty_log ?subs" "submit_all (file_append_op ?X) empty_log ?subs = Some l"
    using a by simp_all
  moreover have "fl_len l = 1"
    using flog.app_len [OF fl_ok_empty l] by (simp add: fl_len_def empty_log_def)
  moreover have "\<forall>(s, vop) \<in> set ?subs. serde_op ?X vop" by simp
  ultimately show ?thesis
    using append_op_history_replays [of ?subs ?X] fl_ok_empty [of ?X] by fastforce
qed

text \<open>
  C7: what was acknowledged survives. A log of entries that are numbered, chained and of the format
  version of this build is synced and then appended more such entries; after any number of power cuts, each at any byte and with any run of NUL bytes behind it, and of attempts to open that fail
  half way through their repair, the next \<open>open\<close> gives every entry of the sync and some of the later
  ones, in order, and nothing else. It reports an I/O error instead only when the device has no room
  for the torn tail or refuses a call of the repair, and it never reports the log as corrupt.
\<close>

theorem synced_entries_survive_crash:
  assumes "fl_ok X l" "fl_sync l = (Inr u, l1)" "fl_append_all X l1 newer = Some l2"
    and "replayable X 0 None (fl_entries X l @ newer)"
  shows "reopens X (fl_disk l2) (\<lambda>l3. fl_ok X l3 \<and> (\<exists>n. fl_entries X l3 = fl_entries X l @ take n newer) \<and>
    fl_head l3 = chain_head (entry_hash X) (fl_entries X l3))"
  using assms by (rule synced_survive)

lemma synced_entries_survive_crash_witness:
  "\<exists>l1 l2 l3 d3 n. fl_sync empty_log = (Inr (), l1) \<and>
     fl_append_all (counted_externals sample_op) l1
       [op_entry_of (counted_externals sample_op) None 0 ''ana'' sample_op] = Some l2 \<and>
     fl_open (counted_externals sample_op) ''log'' (restart_disk (fl_disk l2) (5, 3, intact_device)) = (Inr l3, d3) \<and>
     fl_entries (counted_externals sample_op) l3 =
       take n [op_entry_of (counted_externals sample_op) None 0 ''ana'' sample_op]"
proof -
  let ?X = "counted_externals sample_op"
  let ?e = "op_entry_of ?X None 0 ''ana'' sample_op"
  obtain l1 where l1: "fl_sync empty_log = (Inr (), l1)"
    using fl_sync_unlimited [of empty_log] by (auto simp: empty_log_def empty_disk_def)
  then have "d_space (fl_disk l1) = None" "fl_head l1 = None"
    by (auto simp: fl_sync_def buf_flush_def disk_write_def empty_log_def empty_disk_def Let_def)
  then obtain l2 where l2: "fl_append_all ?X l1 [?e] = Some l2"
    using fl_append_unlimited [of l1 ?e ?X] by (auto simp: op_entry_of_def)
  have "replayable ?X 0 None (fl_entries ?X empty_log @ [?e])"
    by (simp add: op_entry_of_def)
  from reopens_intact [OF synced_entries_survive_crash [OF fl_ok_empty l1 l2 this], of "''log''" 5 3] l1 l2
  show ?thesis by auto
qed

text \<open>
  C6: \<open>append_op\<close> on a \<open>FileLog\<close> is durable once synced. After an admitted operation on a log of entries
  that are numbered, chained and of the format version of this build, a successful sync, and any power cuts and failed attempts to open since, the next \<open>open\<close> materializes to the old
  view with that operation applied, or reports an I/O error because the device has no room for the
  torn tail or refuses a call of its repair: the writer, the buffer, the recovery scan, the repair and
  the fold agree end to end.
\<close>

theorem append_op_durable:
  assumes "fl_ok X l" "replayable X 0 None (fl_entries X l)" "serde_op X vop"
    and "append_op X (fl_append X) fl_head fl_len (fl_get X) l s vop = Some (Inr h, l1)"
    and "fl_sync l1 = (Inr u, l2)"
  shows "\<exists>v v'. materialize X (fl_len l) (fl_get X l) = Some (Inr v) \<and>
    apply_view X v vop = Some (Inr (), v') \<and>
    reopens X (fl_disk l2) (\<lambda>l3. materialize X (fl_len l3) (fl_get X l3) = Some (Inr v') \<and> fl_head l3 = Some h)"
proof -
  let ?e = "op_entry_of X (fl_head l) (fl_len l) s vop"
  obtain v v' where v: "materialize X (fl_len l) (fl_get X l) = Some (Inr v)"
    "apply_view X v vop = Some (Inr (), v')" "materialize X (fl_len l1) (fl_get X l1) = Some (Inr v')"
    and l1: "fl_ok X l1" "fl_entries X l1 = fl_entries X l @ [?e]" "fl_head l1 = Some h"
    using flog.app_op_replays [OF assms(1,3,4)] by blast
  have "replayable X 0 None (fl_entries X l1)"
    using assms(2) flog.hd_es [OF assms(1)] flog.len_es [OF assms(1)]
    by (cases "fl_entries X l") (auto simp: l1(2) replayable_append op_entry_of_def)
  then have "reopens X (fl_disk l2) (\<lambda>l3. fl_ok X l3 \<and> (\<exists>n. fl_entries X l3 = fl_entries X l1 @ take n []) \<and>
      fl_head l3 = chain_head (entry_hash X) (fl_entries X l3))"
    by (intro synced_survive [OF l1(1) assms(5)]) simp_all
  then have "reopens X (fl_disk l2) (\<lambda>l3. materialize X (fl_len l3) (fl_get X l3) = Some (Inr v') \<and> fl_head l3 = Some h)"
  proof (rule reopens_mono)
    fix l3
    assume "fl_ok X l3 \<and> (\<exists>n. fl_entries X l3 = fl_entries X l1 @ take n []) \<and>
      fl_head l3 = chain_head (entry_hash X) (fl_entries X l3)"
    then have l3: "fl_ok X l3" "fl_entries X l3 = fl_entries X l1" "fl_head l3 = chain_head (entry_hash X) (fl_entries X l1)"
      by auto
    have "fl_head l3 = Some h" using flog.hd_es [OF l1(1)] l3(3) l1(3) by simp
    moreover have "materialize X (fl_len l3) (fl_get X l3) = materialize X (fl_len l1) (fl_get X l1)"
      using flog.mat_eq_entries [OF l1(1) l3(1,2)] .
    ultimately show "materialize X (fl_len l3) (fl_get X l3) = Some (Inr v') \<and> fl_head l3 = Some h"
      using v(3) by simp
  qed
  then show ?thesis using v by blast
qed

lemma append_op_durable_witness:
  "\<exists>h l1 l2 l3 d3. append_op (counted_externals sample_op) (fl_append (counted_externals sample_op))
       fl_head fl_len (fl_get (counted_externals sample_op)) empty_log ''ana'' sample_op = Some (Inr h, l1) \<and>
     fl_sync l1 = (Inr (), l2) \<and>
     fl_open (counted_externals sample_op) ''log'' (restart_disk (fl_disk l2) (0, 8, intact_device)) = (Inr l3, d3) \<and>
     fl_head l3 = Some h"
proof -
  let ?X = "counted_externals sample_op"
  let ?e = "op_entry_of ?X None 0 ''ana'' sample_op"
  obtain l1 where l1: "fl_append ?X empty_log ?e = (Inr (entry_hash ?X ?e), l1)"
    "d_space (fl_disk l1) = None" "\<not> d_sync_fails (fl_disk l1)"
    using fl_append_unlimited [of empty_log ?e ?X] by (auto simp: empty_log_def empty_disk_def op_entry_of_def)
  have a: "append_op ?X (fl_append ?X) fl_head fl_len (fl_get ?X) empty_log ''ana'' sample_op =
      Some (Inr (entry_hash ?X ?e), l1)"
    using l1(1) by (simp add: append_op_def materialize_def view_at_def fl_len_def empty_log_def
        sample_op_def new_view_op_def apply_view_def validate_def validate_kind_def apply_kind_def)
  obtain l2 where l2: "fl_sync l1 = (Inr (), l2)" using fl_sync_unlimited [OF l1(2,3)] by blast
  have r: "replayable ?X 0 None (fl_entries ?X empty_log)" by simp
  obtain v' where "reopens ?X (fl_disk l2)
      (\<lambda>l3. materialize ?X (fl_len l3) (fl_get ?X l3) = Some (Inr v') \<and> fl_head l3 = Some (entry_hash ?X ?e))"
    using append_op_durable [OF fl_ok_empty r _ a l2] by auto
  from reopens_intact [OF this, of "''log''" 0 8] show ?thesis using a l2 by blast
qed

section \<open>Inspection against recovery\<close>

lemma verify_open_scan:
  "case open_scan X rest offs head pos of
     Inl err \<Rightarrow> ch_fault (verify_scan X rest head (length offs)) \<noteq> None \<and> (\<exists>msg. err = Corrupt msg)
   | Inr (offs', head', pos', tail) \<Rightarrow>
       verify_scan X rest head (length offs) =
         \<lparr>ch_intact_records = length offs', ch_fault = None, ch_torn_tail_bytes = length tail,
          ch_head = head'\<rparr> \<and>
       (\<exists>pre. rest = pre @ tail \<and> pos' = pos + length pre)"
proof (induction X rest offs head pos rule: open_scan.induct)
  case (1 X rest offs head pos)
  show ?case
  proof (cases "rest = []")
    case True
    then show ?thesis by (simp add: open_scan.simps verify_scan.simps)
  next
    case False
    show ?thesis
    proof (cases "split_once newline rest")
      case None
      then show ?thesis using False by (simp add: open_scan.simps verify_scan.simps)
    next
      case (Some p)
      then obtain body rest' where p: "split_once newline rest = Some (body, rest')" by (cases p) auto
      then have cut: "rest = (body @ [newline]) @ rest'"
        using split_once_SomeD by fastforce
      show ?thesis
      proof (cases "x_entry_parse X body")
        case (Inl err)
        then show ?thesis using False p by (simp add: open_scan.simps verify_scan.simps)
      next
        case (Inr e)
        let ?ok = "e_format_version e = format_version_1 \<and> e_seq e = length offs \<and> e_parent e = head"
        show ?thesis
        proof (cases ?ok)
          case bad: False
          then show ?thesis
            using False p Inr by (auto simp: open_scan.simps verify_scan.simps Let_def)
        next
          case ok: True
          have step: "open_scan X rest offs head pos =
              open_scan X rest' (offs @ [pos]) (Some (entry_hash X e)) (pos + length body + 1)"
            "verify_scan X rest head (length offs) =
              verify_scan X rest' (Some (entry_hash X e)) (length (offs @ [pos]))"
            using False p Inr ok
            by (simp_all add: open_scan.simps [of X rest] verify_scan.simps [of X rest] Let_def)
          note IH = 1 [OF False p refl Inr refl]
          let ?next = "open_scan X rest' (offs @ [pos]) (Some (entry_hash X e)) (pos + length body + 1)"
          show ?thesis
          proof (cases ?next)
            case (Inl err)
            then show ?thesis unfolding step using IH ok by simp
          next
            case (Inr q)
            obtain a b c t where q: "q = (a, b, c, t)" by (cases q)
            obtain pre where "rest' = pre @ t" "c = pos + length body + 1 + length pre"
              using IH ok Inr q by auto
            then have "rest = (body @ [newline] @ pre) @ t \<and> c = pos + length (body @ [newline] @ pre)"
              using cut by simp
            then have "\<exists>pre. rest = pre @ t \<and> c = pos + length pre" by blast
            then show ?thesis unfolding step using IH ok Inr q by simp
          qed
        qed
      qed
    qed
  qed
qed

lemma repair_succeeds:
  assumes "repair_possible X d" "torn_tail X d = torn"
  shows "\<exists>q d'. repair_tail name torn offset d = (Inr q, d') \<and> first_fault d' cs = None"
proof -
  obtain r d' where r: "repair_tail name torn offset d = (r, d')" by (cases "repair_tail name torn offset d")
  note e = repair_tail_effect [OF r]
  then have f: "faultless d'" using assms(1) by (auto simp: repair_possible_def faultless_def)
  have "first_fault d' cs = None" using first_fault_is_io f by (cases "first_fault d' cs") auto
  moreover obtain q where "r = Inr q" using e assms by (cases r) (auto simp: repair_possible_def)
  ultimately show ?thesis using r by blast
qed

text \<open>
  C33: \<open>verify\<close> and \<open>open\<close> agree. A log \<open>open\<close> opens is one \<open>verify\<close> finds usable, and they report the
  same number of entries, head and torn bytes. A log \<open>verify\<close> finds damaged is one \<open>open\<close> refuses as
  corrupt, and \<open>open\<close> fails on a usable one only with an I/O error, which it does not report when the
  device has room for the torn tail and refuses no call of the repair.
\<close>

theorem verify_agrees_with_open:
  "case fst (fl_open X name d) of
     Inl err \<Rightarrow>
       (if is_usable (verify_file X (d_file d)) then is_io err \<and> \<not> repair_possible X d
        else (\<exists>msg. err = Corrupt msg))
   | Inr l \<Rightarrow> is_usable (verify_file X (d_file d)) \<and>
       ch_intact_records (verify_file X (d_file d)) = fl_len l \<and>
       ch_head (verify_file X (d_file d)) = fl_head l \<and>
       ch_torn_tail_bytes (verify_file X (d_file d)) = fl_torn_tail_bytes l"
proof (cases "open_scan X (d_file d) [] None 0")
  case (Inl err)
  then show ?thesis
    using verify_open_scan [where X = X and rest = "d_file d" and offs = "[]" and head = None and pos = 0]
    by (auto simp: fl_open_def verify_file_def is_usable_def)
next
  case (Inr p)
  then obtain offs head pos tail where p: "open_scan X (d_file d) [] None 0 = Inr (offs, head, pos, tail)"
    by (cases p) auto
  then have v: "verify_scan X (d_file d) None 0 =
      \<lparr>ch_intact_records = length offs, ch_fault = None, ch_torn_tail_bytes = length tail, ch_head = head\<rparr>"
    using verify_open_scan [where X = X and rest = "d_file d" and offs = "[]" and head = None and pos = 0]
    by simp
  have torn: "torn_tail X d = tail" using p by (simp add: torn_tail_def)
  obtain q d1 where q: "repair_tail name tail pos d = (q, d1)" by (cases "repair_tail name tail pos d")
  have io: "is_io e" if "q = Inl e" for e using repair_tail_effect [OF q] that by simp
  have ok: "\<exists>path. q = Inr path" "first_fault d1 cs = None" if "repair_possible X d" for cs
    using repair_succeeds [OF that torn, of name pos] q by auto
  have "first_fault d cs = None" if "repair_possible X d" for cs
    using that first_fault_is_io by (cases "first_fault d cs") (auto simp: repair_possible_def)
  then show ?thesis
    using p v q io ok first_fault_is_io
    by (auto simp: fl_open_def verify_file_def is_usable_def fl_len_def simp del: first_fault.simps
        split: sum.splits option.splits)
qed

definition blind_externals :: view_externals where
  "blind_externals = (counted_externals sample_op)\<lparr>x_entry_parse := \<lambda>_. Inl ''bad record''\<rparr>"

lemma verify_agrees_with_open_witness:
  "\<not> is_usable (verify_file blind_externals [2, 10]) \<and>
   (\<exists>msg. fst (fl_open blind_externals ''log'' (empty_disk\<lparr>d_file := [2, 10]\<rparr>)) = Inl (Corrupt msg)) \<and>
   is_usable (verify_file blind_externals [1, 2]) \<and>
   (\<exists>e. fst (fl_open blind_externals ''log'' (empty_disk\<lparr>d_file := [1, 2], d_space := Some 1\<rparr>)) = Inl (Io e)) \<and>
   (\<exists>l. fst (fl_open blind_externals ''log'' (empty_disk\<lparr>d_file := [1, 2]\<rparr>)) = Inr l \<and> fl_torn_tail_bytes l = 2)"
proof -
  let ?X = blind_externals
  have v: "\<not> is_usable (verify_file ?X [2, 10])" "is_usable (verify_file ?X [1, 2])"
    "ch_torn_tail_bytes (verify_file ?X [1, 2]) = 2"
    by (simp_all add: verify_file_def verify_scan.simps newline_def is_usable_def blind_externals_def)
  have full: "fst (fl_open ?X ''log'' (empty_disk\<lparr>d_file := [1, 2], d_space := Some 1\<rparr>)) = Inl no_space"
    by (simp add: fl_open_def open_scan.simps newline_def repair_tail_def quarantine_tail_def io_fault_def
        empty_disk_def Let_def)
  have possible: "repair_possible ?X (empty_disk\<lparr>d_file := [1, 2]\<rparr>)"
    by (simp add: repair_possible_def faultless_def empty_disk_def)
  have "\<exists>l. fst (fl_open ?X ''log'' (empty_disk\<lparr>d_file := [1, 2]\<rparr>)) = Inr l \<and> fl_torn_tail_bytes l = 2"
    using verify_agrees_with_open [of ?X "empty_disk\<lparr>d_file := [1, 2]\<rparr>" "''log''"] v possible
    by (auto split: sum.splits)
  moreover have "\<exists>msg. fst (fl_open ?X ''log'' (empty_disk\<lparr>d_file := [2, 10]\<rparr>)) = Inl (Corrupt msg)"
    using verify_agrees_with_open [of ?X "empty_disk\<lparr>d_file := [2, 10]\<rparr>" "''log''"] v
    by (auto split: sum.splits)
  ultimately show ?thesis using v full by (auto simp: no_space_def)
qed

text \<open>
  The offline repair is the repair \<open>open\<close> does. On a file \<open>verify\<close> calls repairable, when the device
  lets the repair through, \<open>truncate_tail\<close> saves and cuts the same bytes \<open>open\<close> saves and cuts, to the
  same sidecar; and on a file with any other damage it refuses and changes nothing.
\<close>

theorem truncate_tail_as_open:
  "(is_repairable (verify_file X (d_file d)) \<and> repair_possible X d \<longrightarrow>
      (\<exists>r l. truncate_tail X name d = (Inr (Some r), snd (fl_open X name d)) \<and>
        fst (fl_open X name d) = Inr l \<and> fl_torn_tail_quarantine l = Some (rp_quarantine r))) \<and>
   (\<not> is_usable (verify_file X (d_file d)) \<longrightarrow>
      (\<exists>e. truncate_tail X name d = (Inl (Corrupt e), d)))"
proof (cases "open_scan X (d_file d) [] None 0")
  case (Inl err)
  then show ?thesis
    using verify_open_scan [where X = X and rest = "d_file d" and offs = "[]" and head = None and pos = 0]
    by (auto simp: verify_file_def is_repairable_def is_usable_def truncate_tail_def Let_def)
next
  case (Inr p)
  then obtain offs head pos tail where p: "open_scan X (d_file d) [] None 0 = Inr (offs, head, pos, tail)"
    by (cases p) auto
  then have v: "verify_scan X (d_file d) None 0 =
      \<lparr>ch_intact_records = length offs, ch_fault = None, ch_torn_tail_bytes = length tail, ch_head = head\<rparr>"
    and pre: "\<exists>pre. d_file d = pre @ tail \<and> pos = length pre"
    using verify_open_scan [where X = X and rest = "d_file d" and offs = "[]" and head = None and pos = 0]
    by simp_all
  have torn: "torn_tail X d = tail" using p by (simp add: torn_tail_def)
  have "\<exists>r l. truncate_tail X name d = (Inr (Some r), snd (fl_open X name d)) \<and>
        fst (fl_open X name d) = Inr l \<and> fl_torn_tail_quarantine l = Some (rp_quarantine r)"
    if tail: "tail \<noteq> []" and possible: "repair_possible X d"
  proof -
    obtain q d1 where q: "repair_tail name tail pos d = (Inr q, d1)" "first_fault d1 [SyncParent, OpenReader] = None"
      using repair_succeeds [OF possible torn] by blast
    have "io_fault d OpenForRepair = None"
      using possible io_fault_is_io by (cases "io_fault d OpenForRepair") (auto simp: repair_possible_def)
    then show ?thesis
      using p v pre q tail
      by (auto simp: truncate_tail_def verify_file_def fl_open_def Let_def simp del: first_fault.simps)
  qed
  then show ?thesis
    using v by (auto simp: verify_file_def is_repairable_def is_usable_def)
qed

lemma truncate_tail_as_open_witness:
  "(\<exists>r l. truncate_tail blind_externals ''log'' (empty_disk\<lparr>d_file := [1, 2]\<rparr>) =
        (Inr (Some r), snd (fl_open blind_externals ''log'' (empty_disk\<lparr>d_file := [1, 2]\<rparr>))) \<and>
      fst (fl_open blind_externals ''log'' (empty_disk\<lparr>d_file := [1, 2]\<rparr>)) = Inr l \<and>
      fl_torn_tail_quarantine l = Some (rp_quarantine r)) \<and>
   (\<exists>e. truncate_tail blind_externals ''log'' (empty_disk\<lparr>d_file := [2, 10]\<rparr>) =
      (Inl (Corrupt e), empty_disk\<lparr>d_file := [2, 10]\<rparr>))"
proof -
  let ?X = blind_externals
  have "is_repairable (verify_file ?X (d_file (empty_disk\<lparr>d_file := [1, 2]\<rparr>)))"
    by (simp add: verify_file_def verify_scan.simps newline_def is_repairable_def)
  moreover have "repair_possible ?X (empty_disk\<lparr>d_file := [1, 2]\<rparr>)"
    by (simp add: repair_possible_def faultless_def empty_disk_def)
  moreover have "\<not> is_usable (verify_file ?X (d_file (empty_disk\<lparr>d_file := [2, 10]\<rparr>)))"
    by (simp add: verify_file_def verify_scan.simps newline_def is_usable_def blind_externals_def)
  ultimately show ?thesis
    using truncate_tail_as_open [of ?X "empty_disk\<lparr>d_file := [1, 2]\<rparr>" "''log''"]
      truncate_tail_as_open [of ?X "empty_disk\<lparr>d_file := [2, 10]\<rparr>" "''log''"]
    by blast
qed

section \<open>A refused append\<close>

text \<open>
  An append the device refuses is not without effect. When the device fills up inside a record
  longer than the writer's buffer, \<open>append\<close> returns an error and the log keeps its head and length,
  but the start of the record stays in the file; an append and a sync that then succeed leave a file
  that \<open>open\<close> refuses as corrupt.
\<close>

theorem refused_append_can_break_log:
  assumes X: "serde_entries X" and inv: "fl_inv X l es" "replayable X 0 None es" "fl_buf l = []"
    and full: "d_space (fl_disk l) = Some s" "s \<le> length (x_entry_json X e1)"
    and big: "buf_capacity \<le> length (x_entry_json X e1)"
    and heads: "e_parent e1 = fl_head l" "e_parent e2 = fl_head l"
    and glued: "x_entry_parse X (take s (x_entry_json X e1) @ x_entry_json X e2) = Inl err"
    and ok: "\<not> d_sync_fails (fl_disk l)"
  shows "\<exists>l1 h l2 l3. fl_append X l e1 = (Inl no_space, l1) \<and> fl_head l1 = fl_head l \<and>
    fl_len l1 = fl_len l \<and>
    d_file (fl_disk l1) = d_file (fl_disk l) @ take s (x_entry_json X e1) \<and>
    fl_append X (l1\<lparr>fl_disk := (fl_disk l1)\<lparr>d_space := None\<rparr>\<rparr>) e2 = (Inr h, l2) \<and>
    fl_sync l2 = (Inr (), l3) \<and>
    fl_open X name (fl_disk l3) = (Inl (Corrupt err), fl_disk l3)"
proof -
  let ?j1 = "x_entry_json X e1" and ?d = "fl_disk l"
  have "d_file ?d = stream_of X es" using inv by (simp add: fl_inv_def)
  define d1 where "d1 = ?d\<lparr>d_file := d_file ?d @ take s ?j1, d_space := Some 0\<rparr>"
  define l1 where "l1 = l\<lparr>fl_disk := d1, fl_buf := []\<rparr>"
  have "disk_write ?d (record_of X e1) = (drop s (record_of X e1), d1)"
    using full by (simp add: disk_write_def d1_def record_of_def min_def)
  moreover have "length (record_of X e1) > buf_capacity" "drop s (record_of X e1) \<noteq> []"
    using big full(2) by (simp_all add: record_of_def)
  ultimately have a1: "fl_append X l e1 = (Inl no_space, l1)"
    using inv(3) heads(1) full
    by (simp add: fl_append_def Let_def buf_write_all_def buf_flush_def disk_write_def l1_def)
  let ?l1 = "l1\<lparr>fl_disk := d1\<lparr>d_space := None\<rparr>\<rparr>"
  have "d_space (fl_disk ?l1) = None" "e_parent e2 = fl_head ?l1"
    using heads(2) by (simp_all add: l1_def)
  obtain d2 b2 where w: "buf_write_all (d1\<lparr>d_space := None\<rparr>) [] (record_of X e2) = (Inr (), d2, b2)"
    "d_space d2 = None" "d_sync_fails d2 = d_sync_fails d1"
    using buf_write_all_unlimited [of "d1\<lparr>d_space := None\<rparr>" "[]" "record_of X e2"] by auto
  define l2 where "l2 = ?l1\<lparr>fl_disk := d2, fl_buf := b2, fl_offsets := fl_offsets l1 @ [fl_write_pos l1],
      fl_write_pos := fl_write_pos l1 + length (record_of X e2),
      fl_pending := fl_pending l1 @ [e2], fl_head := Some (entry_hash X e2)\<rparr>"
  have a2: "fl_append X ?l1 e2 = (Inr (entry_hash X e2), l2)"
    using w heads(2) by (simp add: fl_append_def l1_def l2_def Let_def)
  have stream: "d_file d2 @ b2 = d_file ?d @ take s ?j1 @ record_of X e2"
    using buf_write_all_Inr [OF w(1)] by (simp add: d1_def)
  have "\<not> d_sync_fails d2" using ok w(3) by (simp add: d1_def)
  then have a3: "fl_sync l2 = (Inr (), l2\<lparr>fl_disk := d2\<lparr>d_file := d_file d2 @ b2,
      d_synced := length (d_file d2 @ b2)\<rparr>, fl_buf := [], fl_pending := []\<rparr>)" (is "_ = (_, ?l3)")
    using w(2) by (simp add: fl_sync_def buf_flush_def disk_write_unlimited l2_def Let_def)
  have f: "d_file (fl_disk ?l3) = stream_of X es @ (take s ?j1 @ x_entry_json X e2) @ newline # []"
    using stream \<open>d_file ?d = stream_of X es\<close> by (simp add: record_of_def)
  have "newline \<notin> set (take s ?j1 @ x_entry_json X e2)"
    using X by (auto simp: serde_entries_def dest: in_set_takeD)
  note split = split_once_append [OF this, of "[]"]
  have stop: "open_scan X ((take s ?j1 @ x_entry_json X e2) @ newline # []) offs hd pos = Inl (Corrupt err)"
    for offs hd pos
    by (subst open_scan.simps) (simp only: split glued prod.case option.case sum.case, simp)
  have "open_scan X (d_file (fl_disk ?l3)) [] None 0 = Inl (Corrupt err)"
    unfolding f using open_scan_records [OF X, of "[]" None es] inv(2) stop by (simp only: list.size)
  then have "fl_open X name (fl_disk ?l3) = (Inl (Corrupt err), fl_disk ?l3)"
    by (simp add: fl_open_def)
  moreover have "fl_head l1 = fl_head l" "fl_len l1 = fl_len l" "fl_disk l1 = d1"
    by (simp_all add: l1_def fl_len_def)
  ultimately show ?thesis
    using a1 a2 a3 by (intro exI [of _ l1] exI [of _ "entry_hash X e2"] exI [of _ l2] exI [of _ ?l3])
      (simp add: d1_def)
qed

text \<open>The counted encoding, framed and padded past the capacity of the buffer.\<close>

definition padded_code :: "nat \<Rightarrow> bytes" where
  "padded_code n = 2 # replicate n 1 @ 3 # replicate buf_capacity 4"

definition padded_externals :: view_externals where
  "padded_externals =
     \<lparr>x_blake3 = \<lambda>b. [of_nat (length b)], x_entry_json = \<lambda>e. padded_code (to_nat e),
      x_entry_parse = \<lambda>b. (let n = length (takeWhile (\<lambda>x. x = 1) (tl b)) in
        if b = padded_code n then Inr (from_nat n) else Inl ''bad record''),
      x_signed_json = \<lambda>(_, b). b, x_op_json = \<lambda>_. [7], x_op_parse = \<lambda>_. Inl ''op'',
      x_snapshot_json = \<lambda>_. []\<rparr>"

lemma takeWhile_padded [simp]: "takeWhile (\<lambda>x. x = 1) (tl (padded_code n)) = replicate n 1"
  by (simp add: padded_code_def takeWhile_append)

lemma serde_padded: "serde_entries padded_externals"
  by (auto simp: serde_entries_def padded_externals_def Let_def) (auto simp: padded_code_def newline_def)

lemma refused_append_can_break_log_witness:
  "\<exists>l1 h l2 l3. fl_append padded_externals (empty_log\<lparr>fl_disk := empty_disk\<lparr>d_space := Some 1\<rparr>\<rparr>)
       (op_entry_of padded_externals None 0 ''ana'' sample_op) = (Inl no_space, l1) \<and>
     fl_append padded_externals (l1\<lparr>fl_disk := (fl_disk l1)\<lparr>d_space := None\<rparr>\<rparr>)
       (op_entry_of padded_externals None 0 ''ana'' sample_op) = (Inr h, l2) \<and>
     fl_sync l2 = (Inr (), l3) \<and>
     fl_open padded_externals ''log'' (fl_disk l3) = (Inl (Corrupt ''bad record''), fl_disk l3)"
proof -
  let ?X = padded_externals and ?l = "empty_log\<lparr>fl_disk := empty_disk\<lparr>d_space := Some 1\<rparr>\<rparr>"
  let ?e = "op_entry_of ?X None 0 ''ana'' sample_op"
  have json: "x_entry_json ?X ?e = padded_code (to_nat ?e)" by (simp add: padded_externals_def)
  have "x_entry_parse ?X (take 1 (x_entry_json ?X ?e) @ x_entry_json ?X ?e) = Inl ''bad record''"
    unfolding json by (simp add: padded_externals_def Let_def padded_code_def)
  moreover have "fl_inv ?X ?l []" by (simp add: fl_inv_def empty_log_def empty_disk_def)
  moreover have "buf_capacity \<le> length (x_entry_json ?X ?e)" "1 \<le> length (x_entry_json ?X ?e)"
    unfolding json by (simp_all add: padded_code_def)
  ultimately show ?thesis
    using refused_append_can_break_log [OF serde_padded, of ?l "[]" 1 ?e ?e "''bad record''" "''log''"]
    by (auto simp: empty_log_def empty_disk_def op_entry_of_def)
qed

end
