(* ===== verification/Durable_Log.thy ===== *)
theory Durable_Log
  imports File_Log
begin

text \<open>
  What the sequencer relies on in a log backend beyond \<open>op_log\<close>: a successful append shows its entry
  through \<open>last\<close>, \<open>sync\<close> keeps the entries, and entries that a successful sync covered survive. The
  locale \<open>durable_log\<close> states it; it is interpreted by \<open>MemLog\<close>, whose entries are gone with the
  process and safe for as long as it lives, and by \<open>FileLog\<close>, where safe means that the records of
  those entries are durable at the start of a file of whole records and a torn tail. When the entries
  the log holds are also of the format version of this build, which \<open>append\<close> does not check and \<open>open\<close>
  does, such a file opens again after every crash.
\<close>

section \<open>Sequenced entries\<close>

text \<open>A list of entries numbered from \<open>n\<close> and chained on \<open>h\<close>.\<close>

fun sequenced :: "(op_entry \<Rightarrow> content_hash) \<Rightarrow> nat \<Rightarrow> content_hash option \<Rightarrow> op_entry list \<Rightarrow> bool" where
  "sequenced H n h [] = True"
| "sequenced H n h (e # es) =
     (e_seq e = n \<and> e_parent e = h \<and> sequenced H (Suc n) (Some (H e)) es)"

text \<open>The entries \<open>open\<close> accepts are the sequenced ones of the version of this build.\<close>

definition own_entries :: "op_entry list \<Rightarrow> bool" where
  "own_entries es \<longleftrightarrow> (\<forall>e \<in> set es. e_format_version e = format_version_1)"

lemma own_entries_simps [simp]:
  "own_entries []"
  "own_entries (e # es) \<longleftrightarrow> e_format_version e = format_version_1 \<and> own_entries es"
  "own_entries (es @ fs) \<longleftrightarrow> own_entries es \<and> own_entries fs"
  by (auto simp: own_entries_def)

lemma replayable_sequenced: "replayable X n h es \<longleftrightarrow> sequenced (entry_hash X) n h es \<and> own_entries es"
  by (induction es arbitrary: n h) auto

lemma sequenced_append:
  "sequenced H n h (es @ fs) \<longleftrightarrow>
     sequenced H n h es \<and> sequenced H (n + length es) (if es = [] then h else Some (H (last es))) fs"
  by (induction es arbitrary: n h) auto

lemma sequenced_snoc:
  "sequenced H 0 None (es @ [e]) \<longleftrightarrow>
     sequenced H 0 None es \<and> e_seq e = length es \<and> e_parent e = chain_head H es"
  by (cases es) (auto simp: sequenced_append)

lemma sequenced_chained: "sequenced H n h es \<Longrightarrow> chain_from H h es"
  by (induction es arbitrary: n h) auto

section \<open>The contract\<close>

text \<open>
  \<open>stuck l xs\<close>: the log holds the entries \<open>xs\<close>, but an append of it may have failed half way.
  \<open>safe l xs\<close>: whatever happens to the process or the device now, \<open>xs\<close> is there.
\<close>

locale durable_log = op_log H app hd_of len nth_of es ok
  for H :: "op_entry \<Rightarrow> content_hash"
    and app :: "'l \<Rightarrow> op_entry \<Rightarrow> (log_error + content_hash) \<times> 'l"
    and hd_of :: "'l \<Rightarrow> content_hash option"
    and len :: "'l \<Rightarrow> nat"
    and nth_of :: "'l \<Rightarrow> nat \<Rightarrow> op_entry option"
    and es :: "'l \<Rightarrow> op_entry list"
    and ok :: "'l \<Rightarrow> bool" +
  fixes last_of :: "'l \<Rightarrow> op_entry option"
    and sync :: "'l \<Rightarrow> (log_error + unit) \<times> 'l"
    and stuck :: "'l \<Rightarrow> op_entry list \<Rightarrow> bool"
    and safe :: "'l \<Rightarrow> op_entry list \<Rightarrow> bool"
  assumes last_new: "ok l \<Longrightarrow> app l e = (Inr h, l') \<Longrightarrow> last_of l' = Some e"
    and ok_stuck: "ok l \<Longrightarrow> stuck l (es l)"
    and app_Inl: "ok l \<Longrightarrow> app l e = (Inl err, l') \<Longrightarrow> stuck l' (es l) \<and> len l' = len l"
    and sync_ok: "ok l \<Longrightarrow> sync l = (r, l') \<Longrightarrow> ok l' \<and> es l' = es l"
    and stuck_sync: "stuck l xs \<Longrightarrow> sync l = (r, l') \<Longrightarrow> stuck l' xs \<and> len l' = len l"
    and sync_safe: "stuck l xs \<Longrightarrow> sequenced H 0 None xs \<Longrightarrow> sync l = (Inr u, l') \<Longrightarrow> safe l' xs"
    and safe_append: "ok l \<Longrightarrow> safe l xs \<Longrightarrow> es l = xs @ ys \<Longrightarrow> sequenced H 0 None (es l) \<Longrightarrow>
      e_seq e = len l \<Longrightarrow> app l e = (ra, l') \<Longrightarrow> safe l' xs"
    and safe_sync: "safe l xs \<Longrightarrow> sync l = (r, l') \<Longrightarrow> safe l' xs"
begin

lemma safe_prefix_append:
  assumes "ok l" "sequenced H 0 None (es l)" "e_seq e = len l"
    and "app l e = (Inr h, l')"
  shows "sequenced H 0 None (es l')"
  using app_Inr [OF assms(1,4)] app_Inr_parent [OF assms(1,4)] hd_es [OF assms(1)] len_es [OF assms(1)] assms(2,3)
  by (simp add: sequenced_snoc)

end

section \<open>MemLog\<close>

definition mem_sync :: "mem_log \<Rightarrow> (log_error + unit) \<times> mem_log" where
  "mem_sync l = (Inr (), l)"

interpretation mem_dur: durable_log "entry_hash X" "mem_append X" m_head mem_len mem_get m_entries "mem_ok X"
    mem_last mem_sync "\<lambda>l xs. m_entries l = xs" "\<lambda>l xs. \<exists>ys. m_entries l = xs @ ys"
  by unfold_locales
     (auto simp: mem_append_def mem_last_def mem_sync_def mem_len_def Let_def split: if_splits)

section \<open>FileLog\<close>

text \<open>A failed write leaves a proper prefix of its line in the stream.\<close>

lemma buf_flush_stream:
  assumes "buf_flush d buf = (r, d', buf')"
  shows "d_file d' @ buf' = d_file d @ buf \<and> d_synced d' = d_synced d \<and> length (d_file d) \<le> length (d_file d')"
  using assms disk_write_stream [of d buf "fst (disk_write d buf)" "snd (disk_write d buf)"]
  by (auto simp: buf_flush_def split: prod.splits if_splits)

lemma buf_write_all_Inl:
  assumes "buf_write_all d buf line = (Inl e, d', buf')"
  shows "\<exists>n < length line. d_file d' @ buf' = d_file d @ buf @ take n line \<and>
    d_synced d' = d_synced d \<and> length (d_file d) \<le> length (d_file d')"
proof -
  let ?step = "if length line > buf_capacity - length buf then buf_flush d buf else (Inr (), d, buf)"
  have big: "\<not> length line < buf_capacity - length buf" using assms by (auto simp: buf_write_all_def)
  obtain r d1 buf1 where f: "?step = (r, d1, buf1)" by (cases ?step rule: prod_cases3)
  have s1: "d_file d1 @ buf1 = d_file d @ buf \<and> d_synced d1 = d_synced d \<and> length (d_file d) \<le> length (d_file d1)"
    using f buf_flush_stream [of d buf r d1 buf1] by (auto split: if_splits)
  have eq: "buf_write_all d buf line = (case r of Inl e \<Rightarrow> (Inl e, d1, buf1)
      | Inr _ \<Rightarrow> if length line \<ge> buf_capacity
          then (case disk_write d1 line of
                  (rest, d'') \<Rightarrow> (if rest = [] then Inr () else Inl no_space, d'', buf1))
          else (Inr (), d1, buf1 @ line))"
    unfolding buf_write_all_def if_not_P [OF big] f by (simp split: sum.split)
  show ?thesis
  proof (cases r)
    case (Inl err)
    then have "d' = d1" "buf' = buf1" using assms eq by auto
    moreover have "line \<noteq> []"
    proof
      assume "line = []"
      then have "?step = (Inr (), d, buf)" by simp
      then show False using f Inl by simp
    qed
    ultimately show ?thesis using s1 by (intro exI [of _ 0]) simp
  next
    case (Inr u)
    then obtain rest where w: "disk_write d1 line = (rest, d')" "rest \<noteq> []" "buf' = buf1" "length line \<ge> buf_capacity"
      using assms eq by (auto split: prod.splits if_splits)
    have rest: "rest = drop (length line - length rest) line" "d_file d' = d_file d1 @ take (length line - length rest) line"
      using w(1) by (auto simp: disk_write_def Let_def split: option.splits)
    have "buf1 = []"
    proof (cases "length line > buf_capacity - length buf")
      case True
      then show ?thesis using f Inr buf_flush_Inr [of d buf u d1 buf1] by simp
    next
      case False
      then have "length buf = 0" using w(4) unfolding buf_capacity_def by linarith
      then show ?thesis using f False by auto
    qed
    then have "d_file d' @ buf' = d_file d @ buf @ take (length line - length rest) line"
      using s1 w(3) rest(2) by simp
    moreover have "length line - length rest < length line"
      using w(2) disk_write_stream(4) [OF w(1)] by (cases rest) auto
    ultimately show ?thesis
      using s1 disk_write_stream(2,3) [OF w(1)] by (intro exI [of _ "length line - length rest"]) auto
  qed
qed

definition fl_stuck :: "('a) externals_scheme \<Rightarrow> file_log \<Rightarrow> op_entry list \<Rightarrow> bool" where
  "fl_stuck X l xs \<longleftrightarrow>
     serde_entries X \<and> d_synced (fl_disk l) \<le> length (d_file (fl_disk l)) \<and>
     (\<exists>junk. d_file (fl_disk l) @ fl_buf l = stream_of X xs @ junk \<and> newline \<notin> set junk)"

definition fl_safe :: "('a) externals_scheme \<Rightarrow> file_log \<Rightarrow> op_entry list \<Rightarrow> bool" where
  "fl_safe X l xs \<longleftrightarrow>
     serde_entries X \<and> d_synced (fl_disk l) \<le> length (d_file (fl_disk l)) \<and>
     length (stream_of X xs) \<le> d_synced (fl_disk l) \<and>
     (\<exists>ys junk. d_file (fl_disk l) @ fl_buf l = stream_of X (xs @ ys) @ junk \<and> newline \<notin> set junk \<and>
        sequenced (entry_hash X) 0 None (xs @ ys))"

lemma fl_sync_stream:
  assumes "fl_sync l = (r, l')"
  shows "d_file (fl_disk l') @ fl_buf l' = d_file (fl_disk l) @ fl_buf l"
    and "length (d_file (fl_disk l)) \<le> length (d_file (fl_disk l'))"
    and "d_synced (fl_disk l') = d_synced (fl_disk l) \<or> d_synced (fl_disk l') = length (d_file (fl_disk l'))"
    and "r = Inr () \<Longrightarrow> d_synced (fl_disk l') = length (d_file (fl_disk l')) \<and> fl_buf l' = []"
    and "fl_len l' = fl_len l"
proof -
  obtain q d buf where f: "buf_flush (fl_disk l) (fl_buf l) = (q, d, buf)" by (cases "buf_flush (fl_disk l) (fl_buf l)")
  note s = buf_flush_stream [OF f]
  have c: "fl_buf l' = buf \<and> fl_len l' = fl_len l \<and> d_file (fl_disk l') = d_file d \<and>
      (d_synced (fl_disk l') = d_synced d \<or> d_synced (fl_disk l') = length (d_file d)) \<and>
      (r = Inr () \<longrightarrow> d_synced (fl_disk l') = length (d_file d) \<and> q = Inr ())"
    using assms f by (auto simp: fl_sync_def fl_len_def Let_def split: sum.splits if_splits)
  show "d_file (fl_disk l') @ fl_buf l' = d_file (fl_disk l) @ fl_buf l"
    "length (d_file (fl_disk l)) \<le> length (d_file (fl_disk l'))"
    "d_synced (fl_disk l') = d_synced (fl_disk l) \<or> d_synced (fl_disk l') = length (d_file (fl_disk l'))"
    "fl_len l' = fl_len l"
    using s c by auto
  show "d_synced (fl_disk l') = length (d_file (fl_disk l')) \<and> fl_buf l' = []" if "r = Inr ()"
    using that c f buf_flush_Inr(2) [of "fl_disk l" "fl_buf l" "()" d buf] by auto
qed

lemma fl_append_Inl:
  assumes "fl_append X l e = (Inl err, l')"
  shows "\<exists>n < length (record_of X e).
      d_file (fl_disk l') @ fl_buf l' = d_file (fl_disk l) @ fl_buf l @ take n (record_of X e)"
    and "d_synced (fl_disk l') = d_synced (fl_disk l)"
    and "length (d_file (fl_disk l)) \<le> length (d_file (fl_disk l'))"
    and "fl_len l' = fl_len l"
proof -
  have "(\<exists>n < length (record_of X e).
        d_file (fl_disk l') @ fl_buf l' = d_file (fl_disk l) @ fl_buf l @ take n (record_of X e)) \<and>
      d_synced (fl_disk l') = d_synced (fl_disk l) \<and>
      length (d_file (fl_disk l)) \<le> length (d_file (fl_disk l')) \<and> fl_len l' = fl_len l"
  proof (cases "e_parent e = fl_head l")
    case False
    then have "l' = l" using assms by (simp add: fl_append_def)
    then show ?thesis by (auto intro!: exI [of _ 0])
  next
    case True
    obtain q d buf where w: "buf_write_all (fl_disk l) (fl_buf l) (record_of X e) = (q, d, buf)"
      by (cases "buf_write_all (fl_disk l) (fl_buf l) (record_of X e)")
    then obtain err' where "q = Inl err'" "l' = l\<lparr>fl_disk := d, fl_buf := buf\<rparr>"
      using assms True by (auto simp: fl_append_def Let_def split: sum.splits)
    then show ?thesis using buf_write_all_Inl [of "fl_disk l" "fl_buf l" "record_of X e" err' d buf] w
      by (auto simp: fl_len_def)
  qed
  then show "\<exists>n < length (record_of X e).
      d_file (fl_disk l') @ fl_buf l' = d_file (fl_disk l) @ fl_buf l @ take n (record_of X e)"
    "d_synced (fl_disk l') = d_synced (fl_disk l)"
    "length (d_file (fl_disk l)) \<le> length (d_file (fl_disk l'))" "fl_len l' = fl_len l" by auto
qed

lemma record_prefix_no_newline:
  "serde_entries X \<Longrightarrow> n < length (record_of X e) \<Longrightarrow> newline \<notin> set (take n (record_of X e))"
  by (auto simp: record_of_def serde_entries_def dest!: in_set_takeD)

lemma fl_ok_stream:
  assumes "fl_ok X l"
  shows "serde_entries X" "d_file (fl_disk l) @ fl_buf l = stream_of X (fl_entries X l)"
    "d_synced (fl_disk l) \<le> length (d_file (fl_disk l))"
proof -
  obtain es where "serde_entries X" "fl_inv X l es" using assms by (auto simp: fl_ok_def)
  then show "serde_entries X" "d_file (fl_disk l) @ fl_buf l = stream_of X (fl_entries X l)"
    "d_synced (fl_disk l) \<le> length (d_file (fl_disk l))"
    using fl_inv_entries [of X l es] by (auto simp: fl_inv_def)
qed

lemma fl_append_stuck:
  assumes "fl_ok X l" "fl_append X l e = (Inl err, l')"
  shows "fl_stuck X l' (fl_entries X l)"
proof -
  obtain n where "n < length (record_of X e)"
      "d_file (fl_disk l') @ fl_buf l' = d_file (fl_disk l) @ fl_buf l @ take n (record_of X e)"
    using fl_append_Inl(1) [OF assms(2)] by blast
  then show ?thesis
    using fl_ok_stream [OF assms(1)] fl_append_Inl(2,3) [OF assms(2)] record_prefix_no_newline [of X n e]
    unfolding fl_stuck_def by (auto intro!: exI [of _ "take n (record_of X e)"] simp: append_assoc [symmetric] simp del: append_assoc)
qed

lemma fl_append_safe:
  assumes "fl_ok X l" "fl_safe X l xs" "fl_entries X l = xs @ ys" "sequenced (entry_hash X) 0 None (fl_entries X l)"
    and "e_seq e = fl_len l" "fl_append X l e = (r, l')"
  shows "fl_safe X l' xs"
proof (cases r)
  case (Inl err)
  obtain n where n: "n < length (record_of X e)"
      "d_file (fl_disk l') @ fl_buf l' = d_file (fl_disk l) @ fl_buf l @ take n (record_of X e)"
    using fl_append_Inl(1) assms(6) Inl by blast
  have "d_file (fl_disk l') @ fl_buf l' = stream_of X (xs @ ys) @ take n (record_of X e)"
    using n(2) fl_ok_stream(2) [OF assms(1)] assms(3) by (metis append_assoc)
  moreover have "d_synced (fl_disk l') = d_synced (fl_disk l)" "length (d_file (fl_disk l)) \<le> length (d_file (fl_disk l'))"
    using fl_append_Inl(2,3) assms(6) Inl by blast+
  ultimately show ?thesis
    using assms(2-4) record_prefix_no_newline [OF fl_ok_stream(1) [OF assms(1)] n(1)]
    unfolding fl_safe_def by (auto intro!: exI [of _ ys])
next
  case (Inr h)
  note new = flog.app_Inr [OF assms(1), of e h l'] and parent = flog.app_Inr_parent [OF assms(1), of e h l']
  have entries: "fl_entries X l' = xs @ ys @ [e]" and ok: "fl_ok X l'"
    using new assms(3,6) Inr by auto
  have "sequenced (entry_hash X) 0 None (xs @ ys @ [e])"
    using assms(3-5) parent assms(6) Inr flog.hd_es [OF assms(1)] flog.len_es [OF assms(1)]
      sequenced_snoc [of "entry_hash X" "xs @ ys" e]
    by simp
  moreover have "d_synced (fl_disk l') = d_synced (fl_disk l)"
  proof -
    obtain es where "fl_inv X l es" using assms(1) by (auto simp: fl_ok_def)
    then show ?thesis using fl_inv_append assms(6) Inr by blast
  qed
  ultimately show ?thesis
    using assms(2) fl_ok_stream [OF ok] entries unfolding fl_safe_def
    by (intro conjI exI [of _ "ys @ [e]"] exI [of _ "[]"]) auto
qed

lemma fl_sync_safe:
  assumes "fl_stuck X l xs" "sequenced (entry_hash X) 0 None xs" "fl_sync l = (Inr u, l')"
  shows "fl_safe X l' xs"
proof -
  have s: "d_synced (fl_disk l') = length (d_file (fl_disk l'))" "fl_buf l' = []"
    using fl_sync_stream(4) [OF assms(3)] by auto
  obtain junk where j: "d_file (fl_disk l') @ fl_buf l' = stream_of X xs @ junk" "newline \<notin> set junk"
    using assms(1) fl_sync_stream(1) [OF assms(3)] unfolding fl_stuck_def by metis
  then have "length (stream_of X xs) \<le> d_synced (fl_disk l')" using s by simp
  then show ?thesis
    using s j assms(1,2) unfolding fl_safe_def fl_stuck_def
    by (intro conjI exI [of _ "[]"] exI [of _ junk]) simp_all
qed

lemma fl_sync_keeps_safe:
  assumes "fl_safe X l xs" "fl_sync l = (r, l')"
  shows "fl_safe X l' xs"
  using assms(1) fl_sync_stream(1-3) [OF assms(2)] unfolding fl_safe_def by auto

lemma fl_sync_keeps_stuck:
  assumes "fl_stuck X l xs" "fl_sync l = (r, l')"
  shows "fl_stuck X l' xs \<and> fl_len l' = fl_len l"
  using assms(1) fl_sync_stream(1-3,5) [OF assms(2)] unfolding fl_stuck_def by auto

interpretation fl_dur: durable_log "entry_hash X" "fl_append X" fl_head fl_len "fl_get X" "fl_entries X" "fl_ok X"
    fl_last fl_sync "fl_stuck X" "fl_safe X"
proof
  fix l l' :: file_log and e h xs ys err r u ra
  show "fl_last l' = Some e" if "fl_ok X l" "fl_append X l e = (Inr h, l')"
    using that(2) by (auto simp: fl_append_def fl_last_def Let_def split: if_splits prod.splits sum.splits)
  show "fl_stuck X l (fl_entries X l)" if "fl_ok X l"
    using fl_ok_stream [OF that] by (auto simp: fl_stuck_def)
  show "fl_stuck X l' (fl_entries X l) \<and> fl_len l' = fl_len l" if "fl_ok X l" "fl_append X l e = (Inl err, l')"
    using fl_append_stuck [OF that] fl_append_Inl(4) [OF that(2)] by simp
  show "fl_ok X l' \<and> fl_entries X l' = fl_entries X l" if ok: "fl_ok X l" and s: "fl_sync l = (r, l')"
  proof -
    obtain es where es: "serde_entries X" "fl_inv X l es" using ok by (auto simp: fl_ok_def)
    then show ?thesis
      using fl_inv_sync [OF es(2) s] fl_inv_entries [of X] by (auto simp: fl_ok_def)
  qed
  show "fl_stuck X l' xs \<and> fl_len l' = fl_len l" if "fl_stuck X l xs" "fl_sync l = (r, l')"
    using that by (rule fl_sync_keeps_stuck)
  show "fl_safe X l' xs" if "fl_stuck X l xs" "sequenced (entry_hash X) 0 None xs" "fl_sync l = (Inr u, l')"
    using that by (rule fl_sync_safe)
  show "fl_safe X l' xs"
    if "fl_ok X l" "fl_safe X l xs" "fl_entries X l = xs @ ys" "sequenced (entry_hash X) 0 None (fl_entries X l)"
      "e_seq e = fl_len l" "fl_append X l e = (ra, l')"
    using that by (rule fl_append_safe)
  show "fl_safe X l' xs" if "fl_safe X l xs" "fl_sync l = (r, l')"
    using that by (rule fl_sync_keeps_safe)
qed

text \<open>The records of a list of entries are durable, at the start of the file.\<close>

definition durable_prefix :: "('a) externals_scheme \<Rightarrow> disk \<Rightarrow> op_entry list \<Rightarrow> bool" where
  "durable_prefix X d es \<longleftrightarrow> (\<exists>rest. take (d_synced d) (d_file d) = stream_of X es @ rest)"

lemma durable_prefix_take: "durable_prefix X d es \<Longrightarrow> durable_prefix X d (take n es)"
  unfolding durable_prefix_def by (metis append.assoc append_take_drop_id stream_of_simps(3))

lemma fl_safe_durable:
  assumes "fl_safe X l xs"
  shows "durable_prefix X (fl_disk l) xs"
proof -
  let ?d = "fl_disk l"
  obtain ys junk where st: "d_file ?d @ fl_buf l = stream_of X (xs @ ys) @ junk"
      "length (stream_of X xs) \<le> d_synced ?d" "d_synced ?d \<le> length (d_file ?d)"
    using assms unfolding fl_safe_def by blast
  have "take (d_synced ?d) (d_file ?d) = take (d_synced ?d) (stream_of X (xs @ ys) @ junk)"
    unfolding st(1) [symmetric] using st(3) by simp
  then have "take (d_synced ?d) (d_file ?d) =
      stream_of X xs @ take (d_synced ?d - length (stream_of X xs)) (stream_of X ys @ junk)"
    using st(2) by simp
  then show ?thesis unfolding durable_prefix_def by blast
qed

text \<open>A durable prefix is there after every power cut, and after every attempt to open that cuts behind it.\<close>

lemma durable_prefix_crash: "durable_prefix X d es \<Longrightarrow> \<exists>rest. d_file (crash d k nuls) = stream_of X es @ rest"
proof -
  assume "durable_prefix X d es"
  then obtain rest where r: "take (d_synced d) (d_file d) = stream_of X es @ rest" by (auto simp: durable_prefix_def)
  have "take (max k (d_synced d)) (d_file d) =
      take (d_synced d) (d_file d) @ take (max k (d_synced d) - d_synced d) (drop (d_synced d) (d_file d))"
    by (metis le_add_diff_inverse max.cobounded2 take_add)
  then show ?thesis using r by (simp add: crash_def)
qed

text \<open>
  A log that holds \<open>es\<close>, of which \<open>xs\<close> is safe, opens again with \<open>xs\<close> first, when the entries are those
  \<open>open\<close> accepts.
\<close>

lemma fl_safe_reopens:
  assumes safe: "fl_safe X l xs" and stuck: "fl_stuck X l (xs @ ws)" and es: "replayable X 0 None (xs @ ws)"
    and P: "\<And>l3 ys. fl_ok X l3 \<Longrightarrow> fl_entries X l3 = xs @ ys \<Longrightarrow> P l3"
  shows "reopens X (fl_disk l) P"
proof -
  obtain junk where st: "serde_entries X" "d_file (fl_disk l) @ fl_buf l = stream_of X (xs @ ws) @ junk"
      "newline \<notin> set junk"
    using stuck unfolding fl_stuck_def by blast
  have "recoverable X (length xs) (xs @ ws) (fl_disk l)"
    using safe by (intro recoverable_log [OF st]) (simp_all add: fl_safe_def)
  then show ?thesis
  proof (rule reopens_recoverable [OF st(1) es])
    fix l3 n
    assume n: "length xs \<le> n" "fl_inv X l3 (take n (xs @ ws))"
    then have "fl_entries X l3 = xs @ take (n - length xs) ws"
      using fl_inv_entries [OF st(1) n(2)] by simp
    then show "P l3" using P [of l3] st(1) n(2) by (auto simp: fl_ok_def)
  qed
qed

end
