(* ===== verification/Fairness.thy ===== *)
theory Fairness
  imports Op_Log BTree_Map "HOL-Library.Multiset"
begin

text \<open>
  \<open>crates/choir-sequencer/src/fairness.rs\<close> and the \<open>round_robin\<close> of \<open>lib.rs\<close> beside it: the
  per-actor ceilings on operations that await a decision, with the interned key an admission hands
  out, and the order one drained batch is served in. An \<open>Arc<str>\<close> is its text and the number of
  its allocation: \<open>Arc::ptr_eq\<close> compares the numbers.
\<close>

section \<open>Submissions and keys\<close>

record submission =
  sub_channel :: string
  sub_payload :: bytes
  sub_author_sig :: "witness option"

record arc =
  a_str :: string
  a_ptr :: nat

section \<open>Quotas\<close>

definition default_quota :: nat where
  "default_quota = 512"

definition max_tracked :: nat where
  "max_tracked = 1024"

record quotas =
  q_inflight :: "(string, arc \<times> nat) btmap"
  q_limit :: nat
  q_allocs :: nat

definition quotas_new :: "nat \<Rightarrow> quotas" where
  "quotas_new limit = \<lparr>q_inflight = bt_empty, q_limit = limit, q_allocs = 0\<rparr>"

definition set_limit :: "quotas \<Rightarrow> nat \<Rightarrow> quotas" where
  "set_limit q limit = q\<lparr>q_limit := limit\<rparr>"

definition actor_of :: "submission \<Rightarrow> string" where
  "actor_of sub =
     (case sub_author_sig sub of Some w \<Rightarrow> w_key_id w | None \<Rightarrow> sub_channel sub)"

definition quota_admit :: "quotas \<Rightarrow> string \<Rightarrow> (string + arc) \<times> quotas" where
  "quota_admit q actor =
     (let limit = q_limit q in
      case bt_get (q_inflight q) actor of
        Some (key, held) \<Rightarrow>
          if held \<ge> limit
          then (Inl (''quota exhausted: '' @ show_nat held @ '' ops from this actor are already '' @
                     ''awaiting a decision (limit '' @ show_nat limit @ ''); retry when one completes''), q)
          else (Inr key, q\<lparr>q_inflight := bt_insert actor (key, held + 1) (q_inflight q)\<rparr>)
      | None \<Rightarrow>
          if limit = 0
          then (Inl ''quota exhausted: this sequencer is admitting nothing (limit 0)'', q)
          else (let key = \<lparr>a_str = actor, a_ptr = q_allocs q\<rparr> in
                (Inr key, q\<lparr>q_inflight := bt_insert actor (key, 1) (q_inflight q),
                            q_allocs := q_allocs q + 1\<rparr>)))"

definition quota_release :: "quotas \<Rightarrow> arc \<Rightarrow> quotas" where
  "quota_release q actor =
     (case bt_get (q_inflight q) (a_str actor) of
        None \<Rightarrow> q
      | Some (key, held) \<Rightarrow>
          (let left = held - 1;
               inflight = bt_insert (a_str actor) (key, left) (q_inflight q)
           in q\<lparr>q_inflight :=
                  (if left = 0 \<and> bt_size inflight > max_tracked
                   then bt_remove (a_str actor) inflight else inflight)\<rparr>))"

definition in_flight :: "quotas \<Rightarrow> string \<Rightarrow> nat" where
  "in_flight q actor = (case bt_get (q_inflight q) actor of None \<Rightarrow> 0 | Some (_, held) \<Rightarrow> held)"

section \<open>The order of one batch\<close>

text \<open>A drained command: the submission, the key of its slot, and the number of its reply channel.\<close>

record queued =
  qi_sub :: submission
  qi_actor :: arc
  qi_reply :: nat

fun lone_scan :: "nat option \<Rightarrow> queued list \<Rightarrow> bool" where
  "lone_scan first [] = True"
| "lone_scan None (x # xs) = lone_scan (Some (a_ptr (qi_actor x))) xs"
| "lone_scan (Some seen) (x # xs) =
     (if seen = a_ptr (qi_actor x) then lone_scan (Some seen) xs else False)"

fun push_bucket :: "(arc \<times> nat list) list \<Rightarrow> arc \<Rightarrow> nat \<Rightarrow> (arc \<times> nat list) list" where
  "push_bucket [] actor index = [(actor, [index])]"
| "push_bucket ((key, indexes) # bs) actor index =
     (if a_ptr key = a_ptr actor then (key, indexes @ [index]) # bs
      else (key, indexes) # push_bucket bs actor index)"

fun fill_buckets :: "(arc \<times> nat list) list \<Rightarrow> (nat \<times> queued option) list \<Rightarrow> (arc \<times> nat list) list" where
  "fill_buckets bs [] = bs"
| "fill_buckets bs ((index, None) # rest) = fill_buckets bs rest"
| "fill_buckets bs ((index, Some x) # rest) =
     fill_buckets (push_bucket bs (qi_actor x) index) rest"

text \<open>One pass of the inner loop pops the front of every bucket; the outer one stops when a pass adds nothing.\<close>

definition bucket_fronts :: "(arc \<times> nat list) list \<Rightarrow> nat list" where
  "bucket_fronts bs = concat (map (\<lambda>(_, indexes). take 1 indexes) bs)"

function rotate_turns :: "nat \<Rightarrow> (arc \<times> nat list) list \<Rightarrow> nat list \<Rightarrow> nat list" where
  "rotate_turns n bs turns =
     (if length turns < n
      then (let fronts = bucket_fronts bs in
            if fronts = [] then turns
            else rotate_turns n (map (\<lambda>(key, indexes). (key, drop 1 indexes)) bs) (turns @ fronts))
      else turns)"
  by pat_completeness auto
termination
  by (relation "measure (\<lambda>(n, _, turns). n - length turns)") (auto simp: neq_Nil_conv)

declare rotate_turns.simps [simp del]

definition round_robin :: "queued option list \<Rightarrow> nat list" where
  "round_robin queued =
     (if lone_scan None (List.map_filter id queued)
      then map fst (filter (\<lambda>(_, item). item \<noteq> None) (enumerate 0 queued))
      else rotate_turns (length queued) (fill_buckets [] (enumerate 0 queued)) [])"

section \<open>Counting\<close>

text \<open>
  The use of the table: a key is released once for every admission that handed it out (the writer
  releases it when it decides the operation), and the limit may change at any time. \<open>out\<close> holds the
  keys of the operations that await a decision; no limit that was ever set is above \<open>cap\<close>.
\<close>

inductive quota_run :: "nat \<Rightarrow> quotas \<Rightarrow> arc multiset \<Rightarrow> bool" for cap where
  start: "limit \<le> cap \<Longrightarrow> quota_run cap (quotas_new limit) {#}"
| admitted: "quota_run cap q out \<Longrightarrow> quota_admit q actor = (Inr key, q') \<Longrightarrow> quota_run cap q' (add_mset key out)"
| refused: "quota_run cap q out \<Longrightarrow> quota_admit q actor = (Inl e, q') \<Longrightarrow> quota_run cap q' out"
| released: "quota_run cap q out \<Longrightarrow> key \<in># out \<Longrightarrow> quota_run cap (quota_release q key) (out - {#key#})"
| limited: "quota_run cap q out \<Longrightarrow> limit \<le> cap \<Longrightarrow> quota_run cap (set_limit q limit) out"

definition actor_row :: "quotas \<Rightarrow> nat \<Rightarrow> arc multiset \<Rightarrow> string \<Rightarrow> bool" where
  "actor_row q cap out actor =
     (case bt_get (q_inflight q) actor of
        None \<Rightarrow> filter_mset (\<lambda>k. a_str k = actor) out = {#}
      | Some (key, held) \<Rightarrow> a_str key = actor \<and> a_ptr key < q_allocs q \<and> held \<le> cap \<and>
          filter_mset (\<lambda>k. a_str k = actor) out = replicate_mset held key)"

definition keys_distinct :: "quotas \<Rightarrow> bool" where
  "keys_distinct q \<longleftrightarrow>
     (\<forall>a b k l m n. bt_get (q_inflight q) a = Some (k, m) \<longrightarrow> bt_get (q_inflight q) b = Some (l, n) \<longrightarrow>
        a_ptr k = a_ptr l \<longrightarrow> a = b)"

lemma keys_distinctD:
  assumes "keys_distinct q" "bt_get (q_inflight q) a = Some (k, m)" "bt_get (q_inflight q) b = Some (l, n)"
    and "a_ptr k = a_ptr l"
  shows "a = b"
  by (rule assms(1) [unfolded keys_distinct_def, rule_format, OF assms(2-4)])

lemma actor_row_cong:
  "bt_get (q_inflight q) a = bt_get (q_inflight q') a \<Longrightarrow> q_allocs q \<le> q_allocs q' \<Longrightarrow>
   filter_mset (\<lambda>k. a_str k = a) out = filter_mset (\<lambda>k. a_str k = a) out' \<Longrightarrow>
   actor_row q cap out a \<Longrightarrow> actor_row q' cap out' a"
  by (auto simp: actor_row_def split: option.splits)

lemma quota_admit_cases:
  assumes "quota_admit q actor = (Inr key, q')" "actor_row q cap out actor" "q_limit q \<le> cap"
  obtains n where "q' = q\<lparr>q_inflight := bt_insert actor (key, n) (q_inflight q), q_allocs := q_allocs q'\<rparr>"
    "a_str key = actor" "a_ptr key < q_allocs q'" "n \<le> cap" "q_allocs q \<le> q_allocs q'"
    "add_mset key (filter_mset (\<lambda>k. a_str k = actor) out) = replicate_mset n key"
    "a_ptr key = q_allocs q \<or> (\<exists>m. bt_get (q_inflight q) actor = Some (key, m))"
proof (cases "bt_get (q_inflight q) actor")
  case None
  then show ?thesis
    using assms that [of 1] by (auto simp: quota_admit_def actor_row_def Let_def split: if_splits)
next
  case (Some p)
  then show ?thesis
    using assms that [of "snd p + 1"]
    by (cases p) (auto simp: quota_admit_def actor_row_def Let_def split: if_splits)
qed

lemma actor_row_admit:
  assumes "quota_admit q actor = (Inr key, q')" "\<forall>a. actor_row q cap out a" "q_limit q \<le> cap"
  shows "actor_row q' cap (add_mset key out) a"
proof -
  obtain n where n: "q' = q\<lparr>q_inflight := bt_insert actor (key, n) (q_inflight q), q_allocs := q_allocs q'\<rparr>"
    "a_str key = actor" "a_ptr key < q_allocs q'" "n \<le> cap" "q_allocs q \<le> q_allocs q'"
    "add_mset key (filter_mset (\<lambda>k. a_str k = actor) out) = replicate_mset n key"
    by (rule quota_admit_cases [OF assms(1) spec [OF assms(2)] assms(3)]) blast
  have get: "bt_get (q_inflight q') a = (if a = actor then Some (key, n) else bt_get (q_inflight q) a)"
    by (subst n(1)) (simp add: bt_get_insert)
  show ?thesis
  proof (cases "a = actor")
    case True
    then show ?thesis using get n by (simp add: actor_row_def)
  next
    case False
    then show ?thesis
      using get n assms(2) by (intro actor_row_cong [of q a q' out]) auto
  qed
qed

lemma keys_distinct_admit:
  assumes "quota_admit q actor = (Inr key, q')" "\<forall>a. actor_row q cap out a" "q_limit q \<le> cap" "keys_distinct q"
  shows "keys_distinct q'"
proof -
  obtain n where n: "q' = q\<lparr>q_inflight := bt_insert actor (key, n) (q_inflight q), q_allocs := q_allocs q'\<rparr>"
    "a_ptr key = q_allocs q \<or> (\<exists>m. bt_get (q_inflight q) actor = Some (key, m))"
    by (rule quota_admit_cases [OF assms(1) spec [OF assms(2)] assms(3)]) blast
  have get: "bt_get (q_inflight q') a = (if a = actor then Some (key, n) else bt_get (q_inflight q) a)" for a
    by (subst n(1)) (simp add: bt_get_insert)
  have other: "a_ptr k \<noteq> a_ptr key" if "a \<noteq> actor" "bt_get (q_inflight q) a = Some (k, m)" for a k m
    using that n(2) spec [OF assms(2), of a] assms(4)
    by (auto simp: actor_row_def keys_distinct_def)
  show ?thesis
    unfolding keys_distinct_def
  proof (intro allI impI)
    fix a b k l m n'
    assume ab: "bt_get (q_inflight q') a = Some (k, m)" "bt_get (q_inflight q') b = Some (l, n')" "a_ptr k = a_ptr l"
    show "a = b"
    proof (cases "a = actor \<or> b = actor")
      case True
      then show ?thesis using ab other [of a k m] other [of b l n'] by (auto simp: get split: if_splits)
    next
      case False
      then show ?thesis using ab assms(4) unfolding keys_distinct_def get by auto
    qed
  qed
qed

lemma quota_release_get:
  "bt_get (q_inflight (quota_release q key)) a =
     (if a = a_str key
      then (case bt_get (q_inflight q) a of
              None \<Rightarrow> None
            | Some (k, n) \<Rightarrow>
                if n - 1 = 0 \<and> bt_size (bt_insert a (k, n - 1) (q_inflight q)) > max_tracked
                then None else Some (k, n - 1))
      else bt_get (q_inflight q) a)"
  by (auto simp: quota_release_def Let_def bt_get_insert bt_get_remove split: option.splits)

lemma quota_release_same [simp]:
  "q_limit (quota_release q key) = q_limit q" "q_allocs (quota_release q key) = q_allocs q"
  by (auto simp: quota_release_def Let_def split: option.splits)

lemma actor_row_member:
  assumes "actor_row q cap out (a_str key)" "key \<in># out"
  obtains n where "bt_get (q_inflight q) (a_str key) = Some (key, n)" "0 < n" "n \<le> cap"
    "a_ptr key < q_allocs q" "filter_mset (\<lambda>k. a_str k = a_str key) out = replicate_mset n key"
proof -
  have m: "key \<in># filter_mset (\<lambda>k. a_str k = a_str key) out" using assms(2) by simp
  obtain k n where r: "bt_get (q_inflight q) (a_str key) = Some (k, n)" "a_ptr k < q_allocs q" "n \<le> cap"
      "filter_mset (\<lambda>k. a_str k = a_str key) out = replicate_mset n k"
    using assms(1) m unfolding actor_row_def by (cases "bt_get (q_inflight q) (a_str key)") auto
  from m have "k = key \<and> 0 < n" unfolding r(4) by (auto split: if_splits)
  then show thesis using r that by simp
qed

lemma actor_row_release:
  assumes "\<forall>a. actor_row q cap out a" "key \<in># out"
  shows "actor_row (quota_release q key) cap (out - {#key#}) a"
proof (cases "a = a_str key")
  case True
  obtain n where n: "bt_get (q_inflight q) a = Some (key, n)" "0 < n" "n \<le> cap" "a_ptr key < q_allocs q"
      "filter_mset (\<lambda>k. a_str k = a) out = replicate_mset n key"
    using actor_row_member [OF spec [OF assms(1)] assms(2)] True by blast
  have "filter_mset (\<lambda>k. a_str k = a) (out - {#key#}) = replicate_mset (n - 1) key"
    using n(2,5) True by (cases n) (simp_all add: filter_diff_mset)
  moreover have "bt_get (q_inflight (quota_release q key)) a =
      (if n - 1 = 0 \<and> bt_size (bt_insert a (key, n - 1) (q_inflight q)) > max_tracked
       then None else Some (key, n - 1))"
    using n(1) True by (simp add: quota_release_get)
  ultimately show ?thesis
    using n(3,4) True diff_le_self [of n 1] unfolding actor_row_def by (simp del: diff_le_self)
next
  case False
  show ?thesis
  proof (rule actor_row_cong [of q a _ out])
    show "bt_get (q_inflight q) a = bt_get (q_inflight (quota_release q key)) a"
      using False by (simp add: quota_release_get)
    show "filter_mset (\<lambda>k. a_str k = a) out = filter_mset (\<lambda>k. a_str k = a) (out - {#key#})"
      using False by (simp add: filter_diff_mset)
  qed (use assms(1) in simp_all)
qed

lemma keys_distinct_release: "keys_distinct q \<Longrightarrow> keys_distinct (quota_release q key)"
proof -
  assume d: "keys_distinct q"
  have "\<exists>n. bt_get (q_inflight q) a = Some (k, n)"
    if "bt_get (q_inflight (quota_release q key)) a = Some (k, m)" for a k m
    using that by (auto simp: quota_release_get split: if_splits option.splits)
  then show "keys_distinct (quota_release q key)"
    using d unfolding keys_distinct_def by meson
qed

lemma quota_run_inv:
  "quota_run cap q out \<Longrightarrow> (\<forall>a. actor_row q cap out a) \<and> keys_distinct q \<and> q_limit q \<le> cap"
proof (induction rule: quota_run.induct)
  case (start limit)
  then show ?case by (simp add: quotas_new_def actor_row_def keys_distinct_def)
next
  case (admitted q out actor key q')
  then have "q_limit q' \<le> cap"
    by (auto simp: quota_admit_def Let_def split: option.splits if_splits)
  then show ?case
    using admitted actor_row_admit [OF admitted(2)] keys_distinct_admit [OF admitted(2)] by blast
next
  case (refused q out actor e q')
  then have "q' = q" by (auto simp: quota_admit_def Let_def split: option.splits if_splits)
  then show ?case using refused by simp
next
  case (released q out key)
  then show ?case
    using actor_row_release keys_distinct_release by simp
next
  case (limited q out limit)
  then show ?case by (auto simp: set_limit_def keys_distinct_def intro: actor_row_cong [of q])
qed

lemma quota_admit_key:
  assumes "quota_run cap q out" "quota_admit q actor = (Inr key, q')"
  shows "a_str key = actor"
proof -
  have "actor_row q cap out actor" "q_limit q \<le> cap" using quota_run_inv [OF assms(1)] by auto
  then show ?thesis by (rule quota_admit_cases [OF assms(2)])
qed

text \<open>
  C11: the quota counts exactly what awaits a decision. However admissions, refusals, releases and
  changes of the limit interleave, and whatever idle rows were forgotten, the count of an actor is
  the number of its operations in flight, it is never above the highest limit set, and all of them
  hold one and the same interned key, which no other actor holds.
\<close>

theorem quota_exact:
  assumes "quota_run cap q out"
  shows "in_flight q actor = size (filter_mset (\<lambda>k. a_str k = actor) out) \<and> in_flight q actor \<le> cap \<and>
    (\<forall>k \<in># out. \<forall>l \<in># out. a_ptr k = a_ptr l \<longleftrightarrow> a_str k = a_str l)"
proof (intro conjI ballI)
  note inv = quota_run_inv [OF assms]
  show "in_flight q actor = size (filter_mset (\<lambda>k. a_str k = actor) out)" "in_flight q actor \<le> cap"
    using inv by (auto simp: in_flight_def actor_row_def dest!: spec [of _ actor] split: option.splits)
  fix k l assume kl: "k \<in># out" "l \<in># out"
  have row: "\<exists>n. bt_get (q_inflight q) (a_str x) = Some (x, n)" if "x \<in># out" for x
  proof -
    have "actor_row q cap out (a_str x)" using inv by blast
    then show ?thesis using actor_row_member [OF _ that] by blast
  qed
  show "a_ptr k = a_ptr l \<longleftrightarrow> a_str k = a_str l"
  proof
    assume eq: "a_ptr k = a_ptr l"
    obtain m n where rows: "bt_get (q_inflight q) (a_str k) = Some (k, m)" "bt_get (q_inflight q) (a_str l) = Some (l, n)"
      using row [OF kl(1)] row [OF kl(2)] by (elim exE)
    have "keys_distinct q" using inv by (elim conjE)
    then show "a_str k = a_str l" by (rule keys_distinctD [OF _ rows eq])
  next
    assume eq: "a_str k = a_str l"
    obtain m n where "bt_get (q_inflight q) (a_str k) = Some (k, m)" "bt_get (q_inflight q) (a_str l) = Some (l, n)"
      using row [OF kl(1)] row [OF kl(2)] by (elim exE)
    then have "k = l" unfolding eq by simp
    then show "a_ptr k = a_ptr l" by simp
  qed
qed

lemma quota_exact_witness:
  "\<exists>key q. quota_admit (quotas_new 1) ''ana'' = (Inr key, q) \<and> in_flight q ''ana'' = 1 \<and>
     in_flight q ''ana'' \<le> 3"
proof -
  let ?key = "\<lparr>a_str = ''ana'', a_ptr = 0\<rparr>"
  obtain q where q: "quota_admit (quotas_new 1) ''ana'' = (Inr ?key, q)"
    by (simp add: quota_admit_def quotas_new_def Let_def)
  have "quota_run 3 q (add_mset ?key {#})"
    by (rule quota_run.admitted [OF quota_run.start q]) simp
  from quota_exact [OF this, of "''ana''"] q show ?thesis by auto
qed

section \<open>The order of a batch\<close>

text \<open>
  What the order should be. Among the filled slots of a batch, an operation's rank is how many
  operations of its actor came before it; a smaller rank is served first, and within a rank the
  actor that arrived first.
\<close>

definition filled :: "(nat \<times> queued option) list \<Rightarrow> (nat \<times> arc) list" where
  "filled items = List.map_filter (\<lambda>(i, item). map_option (\<lambda>x. (i, qi_actor x)) item) items"

definition same_actor :: "queued option list \<Rightarrow> nat \<Rightarrow> nat list" where
  "same_actor queued i =
     map fst (filter (\<lambda>(_, a). Some (a_ptr a) = map_option (\<lambda>x. a_ptr (qi_actor x)) (queued ! i))
       (filled (enumerate 0 queued)))"

definition turn_rank :: "queued option list \<Rightarrow> nat \<Rightarrow> nat" where
  "turn_rank queued i = length (filter (\<lambda>j. j < i) (same_actor queued i))"

definition turn_before :: "queued option list \<Rightarrow> nat \<Rightarrow> nat \<Rightarrow> bool" where
  "turn_before queued i j \<longleftrightarrow>
     turn_rank queued i < turn_rank queued j \<or>
     turn_rank queued i = turn_rank queued j \<and> hd (same_actor queued i) < hd (same_actor queued j)"

lemma filled_simps [simp]:
  "filled [] = []"
  "filled ((i, None) # items) = filled items"
  "filled ((i, Some x) # items) = (i, qi_actor x) # filled items"
  by (simp_all add: filled_def)

lemma filled_append [simp]: "filled (xs @ ys) = filled xs @ filled ys"
  by (simp add: filled_def List.map_filter_def)

lemma length_filled: "length (filled items) \<le> length items"
  by (simp add: filled_def List.map_filter_def)

lemma filled_iff: "(i, a) \<in> set (filled items) \<longleftrightarrow> (\<exists>x. (i, Some x) \<in> set items \<and> a = qi_actor x)"
proof (induction items)
  case (Cons it items)
  then show ?case by (cases it; cases "snd it") auto
qed simp

lemma enumerate_iff: "(i, item) \<in> set (enumerate 0 queued) \<longleftrightarrow> i < length queued \<and> queued ! i = item"
  by (auto simp: in_set_enumerate_eq)

lemma filled_queued_iff:
  "(i, a) \<in> set (filled (enumerate 0 queued)) \<longleftrightarrow>
     i < length queued \<and> (\<exists>x. queued ! i = Some x \<and> a = qi_actor x)"
  by (auto simp: filled_iff enumerate_iff)

lemma fst_set_iff: "i \<in> set (map fst xs) \<longleftrightarrow> (\<exists>a. (i, a) \<in> set xs)"
  by force

lemma filled_sorted: "sorted_wrt (<) (map fst items) \<Longrightarrow> sorted_wrt (<) (map fst (filled items))"
proof (induction items)
  case (Cons it items)
  have "fst y \<in> fst ` set items" if "y \<in> set (filled items)" for y
    using that filled_iff [of "fst y" "snd y" items] by (metis fst_conv image_eqI prod.collapse)
  then show ?case using Cons by (cases it; cases "snd it") fastforce+
qed simp

lemma filled_queued_sorted: "sorted_wrt (<) (map fst (filled (enumerate 0 queued)))"
  by (intro filled_sorted) (simp add: strict_sorted_iff)

lemma same_actor_sorted: "sorted_wrt (<) (same_actor queued i)"
  using filled_queued_sorted [of queued] unfolding same_actor_def
  by (simp add: sorted_wrt_map sorted_wrt_filter)

lemma filter_below_nth: "sorted_wrt (<) (l :: nat list) \<Longrightarrow> r < length l \<Longrightarrow> length (filter (\<lambda>j. j < l ! r) l) = r"
proof (induction l arbitrary: r)
  case (Cons x l)
  then show ?case
  proof (cases r)
    case 0
    then show ?thesis using Cons.prems by (auto simp: filter_empty_conv not_less less_imp_le)
  next
    case (Suc k)
    then have "x < l ! k" using Cons.prems by auto
    then show ?thesis using Suc Cons by simp
  qed
qed simp

text \<open>The buckets hold the slots of one actor each, in arrival order, the first to arrive first.\<close>

definition row_ok :: "(nat \<times> arc) list \<Rightarrow> arc \<times> nat list \<Rightarrow> bool" where
  "row_ok xs b \<longleftrightarrow> snd b \<noteq> [] \<and> snd b = map fst (filter (\<lambda>x. a_ptr (snd x) = a_ptr (fst b)) xs)"

definition buckets_ok :: "(nat \<times> arc) list \<Rightarrow> (arc \<times> nat list) list \<Rightarrow> bool" where
  "buckets_ok xs bs \<longleftrightarrow>
     list_all (row_ok xs) bs \<and> distinct (map (a_ptr \<circ> fst) bs) \<and>
     sorted_wrt (<) (map (hd \<circ> snd) bs) \<and> mset (concat (map snd bs)) = mset (map fst xs) \<and>
     (a_ptr \<circ> snd) ` set xs \<subseteq> (a_ptr \<circ> fst) ` set bs"

lemma push_bucket_cases:
  obtains (held) us k l vs where "bs = us @ (k, l) # vs" "a_ptr k = a_ptr a"
      "push_bucket bs a i = us @ (k, l @ [i]) # vs"
    | (fresh) "a_ptr a \<notin> (a_ptr \<circ> fst) ` set bs" "push_bucket bs a i = bs @ [(a, [i])]"
proof (induction bs arbitrary: thesis)
  case (Cons b bs)
  obtain k l where b: "b = (k, l)" by (cases b)
  show ?case
  proof (cases "a_ptr k = a_ptr a")
    case True
    then show ?thesis using Cons.prems(1) [of "[]" k l bs] b by simp
  next
    case False
    show ?thesis
    proof (rule Cons.IH)
      fix us k' l' vs
      assume "bs = us @ (k', l') # vs" "a_ptr k' = a_ptr a" "push_bucket bs a i = us @ (k', l' @ [i]) # vs"
      then show ?thesis using Cons.prems(1) [of "b # us" k' l' vs] b False by simp
    next
      assume "a_ptr a \<notin> (a_ptr \<circ> fst) ` set bs" "push_bucket bs a i = bs @ [(a, [i])]"
      then show ?thesis using Cons.prems(2) b False by simp
    qed
  qed
qed simp

lemma row_ok_other: "a_ptr (fst b) \<noteq> a_ptr a \<Longrightarrow> row_ok (xs @ [(i, a)]) b = row_ok xs b"
  by (auto simp: row_ok_def)

lemma row_ok_same: "row_ok xs (k, l) \<Longrightarrow> a_ptr k = a_ptr a \<Longrightarrow> row_ok (xs @ [(i, a)]) (k, l @ [i])"
  by (simp add: row_ok_def)

lemma push_bucket_ok:
  assumes ok: "buckets_ok xs bs" and below: "\<forall>x \<in> set xs. fst x < i"
  shows "buckets_ok (xs @ [(i, a)]) (push_bucket bs a i)"
proof (cases rule: push_bucket_cases [of bs a i])
  case (held us k l vs)
  have d: "a_ptr (fst b) \<noteq> a_ptr a" if "b \<in> set us \<union> set vs" for b
  proof -
    have "distinct (map (a_ptr \<circ> fst) (us @ (k, l) # vs))"
      using ok unfolding held(1) buckets_ok_def by (elim conjE)
    then have "a_ptr k \<notin> (a_ptr \<circ> fst) ` (set us \<union> set vs)" by auto
    then show ?thesis using that held(2) by (metis comp_apply image_eqI)
  qed
  have "l \<noteq> []" "row_ok xs (k, l)" using ok held(1) by (auto simp: buckets_ok_def row_ok_def)
  moreover have "list_all (row_ok (xs @ [(i, a)])) (us @ vs)"
    using ok held(1) d by (auto simp: buckets_ok_def row_ok_other list_all_iff)
  ultimately show ?thesis
    using ok [unfolded held(1) buckets_ok_def] held(2) row_ok_same [of xs k l a i]
    unfolding buckets_ok_def held(3) by auto
next
  case fresh
  have "filter (\<lambda>x. a_ptr (snd x) = a_ptr a) xs = []"
    using ok fresh(1) by (force simp: buckets_ok_def filter_empty_conv)
  then have row: "row_ok (xs @ [(i, a)]) (a, [i])" by (simp add: row_ok_def)
  have rows: "list_all (row_ok (xs @ [(i, a)])) bs"
    unfolding list_all_iff
  proof
    fix b assume b: "b \<in> set bs"
    have "a_ptr (fst b) \<noteq> a_ptr a" using fresh(1) b by (metis comp_apply image_eqI)
    then show "row_ok (xs @ [(i, a)]) b"
      using ok b by (simp add: row_ok_other buckets_ok_def list_all_iff)
  qed
  have heads: "hd (snd b) < i" if "b \<in> set bs" for b
  proof -
    have "row_ok xs b" using ok that by (auto simp: buckets_ok_def list_all_iff)
    then have "hd (snd b) \<in> set (map fst (filter (\<lambda>x. a_ptr (snd x) = a_ptr (fst b)) xs))"
      unfolding row_ok_def by (metis list.set_sel(1))
    then show ?thesis using below by auto
  qed
  have "sorted_wrt (<) (map (hd \<circ> snd) (bs @ [(a, [i])]))"
    using ok heads by (simp add: buckets_ok_def sorted_wrt_append)
  moreover have "distinct (map (a_ptr \<circ> fst) (bs @ [(a, [i])]))"
    using ok fresh(1) by (simp add: buckets_ok_def)
  moreover have "(a_ptr \<circ> snd) ` set (xs @ [(i, a)]) \<subseteq> (a_ptr \<circ> fst) ` set (bs @ [(a, [i])])"
  proof -
    have "(a_ptr \<circ> snd) ` set xs \<subseteq> (a_ptr \<circ> fst) ` set bs" using ok by (simp only: buckets_ok_def)
    then show ?thesis by (simp add: subset_insertI2)
  qed
  moreover have "mset (concat (map snd (bs @ [(a, [i])]))) = mset (map fst (xs @ [(i, a)]))"
    using ok by (simp add: buckets_ok_def)
  ultimately show ?thesis
    unfolding buckets_ok_def fresh(2) using rows row by simp
qed

lemma fill_buckets_ok:
  "buckets_ok (filled before) bs \<Longrightarrow> sorted_wrt (<) (map fst (before @ items)) \<Longrightarrow>
   buckets_ok (filled (before @ items)) (fill_buckets bs items)"
proof (induction bs items arbitrary: before rule: fill_buckets.induct)
  case (2 bs index rest)
  then show ?case using "2.IH" [of "before @ [(index, None)]"] by simp
next
  case (3 bs index x rest)
  have "\<forall>y \<in> set (filled before). fst y < index"
  proof
    fix y assume "y \<in> set (filled before)"
    then have "fst y \<in> fst ` set before"
      using filled_iff [of "fst y" "snd y" before] by (metis fst_conv image_eqI prod.collapse)
    then show "fst y < index" using "3.prems"(2) by (auto simp: sorted_wrt_append)
  qed
  then have "buckets_ok (filled (before @ [(index, Some x)])) (push_bucket bs (qi_actor x) index)"
    using push_bucket_ok [OF "3.prems"(1)] by simp
  then show ?case using "3.IH" [of "before @ [(index, Some x)]"] "3.prems"(2) by simp
qed simp

text \<open>Rotation serves every slot of the buckets, in any order in which earlier ranks come first.\<close>

definition ranks_ordered :: "(nat \<Rightarrow> nat \<Rightarrow> bool) \<Rightarrow> nat list list \<Rightarrow> bool" where
  "ranks_ordered R ls \<longleftrightarrow>
     (\<forall>p < length ls. \<forall>q < length ls. \<forall>r < length (ls ! p). \<forall>s < length (ls ! q).
        r < s \<or> r = s \<and> p < q \<longrightarrow> R (ls ! p ! r) (ls ! q ! s))"

lemma ranks_orderedD:
  assumes "ranks_ordered R ls" "p < length ls" "q < length ls" "r < length (ls ! p)" "s < length (ls ! q)"
    and "r < s \<or> r = s \<and> p < q"
  shows "R (ls ! p ! r) (ls ! q ! s)"
  using assms unfolding ranks_ordered_def by blast

lemma ranks_ordered_drop:
  assumes "ranks_ordered R ls"
  shows "ranks_ordered R (map (drop 1) ls)"
  unfolding ranks_ordered_def
proof (intro allI impI)
  fix p q r s
  assume "p < length (map (drop 1) ls)" "q < length (map (drop 1) ls)"
    "r < length (map (drop 1) ls ! p)" "s < length (map (drop 1) ls ! q)" "r < s \<or> r = s \<and> p < q"
  then show "R (map (drop 1) ls ! p ! r) (map (drop 1) ls ! q ! s)"
    using ranks_orderedD [OF assms, of p q "Suc r" "Suc s"] by simp
qed

lemma ranks_ordered_Cons:
  assumes "ranks_ordered R (l # ls)"
  shows "ranks_ordered R ls"
    and "l \<noteq> [] \<Longrightarrow> m \<in> set ls \<Longrightarrow> m \<noteq> [] \<Longrightarrow> R (l ! 0) (m ! 0)"
proof -
  show "ranks_ordered R ls"
    unfolding ranks_ordered_def
  proof (intro allI impI)
    fix p q r s
    assume "p < length ls" "q < length ls" "r < length (ls ! p)" "s < length (ls ! q)" "r < s \<or> r = s \<and> p < q"
    then show "R (ls ! p ! r) (ls ! q ! s)" using ranks_orderedD [OF assms, of "Suc p" "Suc q" r s] by simp
  qed
next
  assume "l \<noteq> []" "m \<in> set ls" "m \<noteq> []"
  moreover then obtain q where "q < length ls" "ls ! q = m" by (auto simp: in_set_conv_nth)
  ultimately show "R (l ! 0) (m ! 0)" using ranks_orderedD [OF assms, of 0 "Suc q" 0 0] by simp
qed

lemma ranks_ordered_front:
  assumes "ranks_ordered R ls" "m \<in> set ls" "n \<in> set ls" "m \<noteq> []" "x \<in> set (drop 1 n)"
  shows "R (m ! 0) x"
proof -
  obtain p where p: "p < length ls" "ls ! p = m" using assms(2) by (metis in_set_conv_nth)
  obtain q where q: "q < length ls" "ls ! q = n" using assms(3) by (metis in_set_conv_nth)
  obtain s where "s < length (drop 1 n)" "drop 1 n ! s = x" using assms(5) by (metis in_set_conv_nth)
  then have s: "Suc s < length n" "n ! Suc s = x" by auto
  show ?thesis
    using ranks_orderedD [OF assms(1) p(1) q(1), of 0 "Suc s"] s assms(4) unfolding p(2) q(2) by simp
qed

lemma set_take_1: "x \<in> set (take (Suc 0) m) \<longleftrightarrow> m \<noteq> [] \<and> x = m ! 0"
  by (cases m) auto

lemma fronts_sorted:
  "ranks_ordered R ls \<Longrightarrow> sorted_wrt R (concat (map (take 1) ls))"
proof (induction ls)
  case (Cons l ls)
  then show ?case
    using ranks_ordered_Cons(1,2) [OF Cons.prems]
    by (cases l) (auto simp: set_take_1)
qed simp

lemma rotate_result:
  assumes "ranks_ordered R (map snd bs)" "length turns + length (concat (map snd bs)) \<le> n"
  shows "\<exists>us. rotate_turns n bs turns = turns @ us \<and> mset us = mset (concat (map snd bs)) \<and> sorted_wrt R us"
  using assms
proof (induction n bs turns rule: rotate_turns.induct)
  case (1 n bs turns)
  let ?ls = "map snd bs" and ?bs' = "map (\<lambda>(key, indexes). (key, drop 1 indexes)) bs"
  have fr: "bucket_fronts bs = concat (map (take 1) ?ls)"
    by (simp add: bucket_fronts_def comp_def case_prod_unfold)
  have next_ls: "map snd ?bs' = map (drop 1) ?ls" by (simp add: case_prod_unfold)
  have split: "mset (concat ls) = mset (concat (map (take 1) ls)) + mset (concat (map (drop 1) ls))" for ls :: "nat list list"
  proof (induction ls)
    case (Cons l ls)
    then show ?case by (cases l) simp_all
  qed simp
  show ?case
  proof (cases "length turns < n \<and> bucket_fronts bs \<noteq> []")
    case False
    have "concat ?ls = []"
    proof (cases "length turns < n")
      case True
      then have "concat (map (take 1) ?ls) = []" using False fr by simp
      then show ?thesis by (auto simp: concat_eq_Nil_conv)
    next
      case False
      then have "length (concat ?ls) = 0" using "1.prems"(2) by linarith
      then show ?thesis by (simp only: length_0_conv)
    qed
    moreover have "rotate_turns n bs turns = turns" using False by (subst rotate_turns.simps) (auto simp: Let_def)
    ultimately show ?thesis by (metis append_Nil2 sorted_wrt.simps(1))
  next
    case True
    have len: "length (bucket_fronts bs) + length (concat (map snd ?bs')) = length (concat ?ls)"
      unfolding fr next_ls by (metis split size_mset size_union)
    have "length (turns @ bucket_fronts bs) + length (concat (map snd ?bs')) \<le> n"
      using "1.prems"(2) len by simp
    moreover have "ranks_ordered R (map snd ?bs')"
      unfolding next_ls by (rule ranks_ordered_drop [OF "1.prems"(1)])
    ultimately obtain us where us: "rotate_turns n ?bs' (turns @ bucket_fronts bs) = (turns @ bucket_fronts bs) @ us"
        "mset us = mset (concat (map snd ?bs'))" "sorted_wrt R us"
      using "1.IH" True by blast
    have "R x y" if x: "x \<in> set (bucket_fronts bs)" and y: "y \<in> set us" for x y
    proof -
      have "y \<in> set (concat (map (drop 1) ?ls))" using y us(2) next_ls by (metis set_mset_mset)
      then obtain n where n: "n \<in> set ?ls" "y \<in> set (drop 1 n)" by auto
      obtain m where m: "m \<in> set ?ls" "x \<in> set (take 1 m)" using x unfolding fr by auto
      then have "m \<noteq> []" "x = m ! 0" by (simp_all add: set_take_1)
      then show ?thesis using ranks_ordered_front [OF "1.prems"(1) m(1) n(1) _ n(2)] by simp
    qed
    moreover have "rotate_turns n bs turns = turns @ bucket_fronts bs @ us"
      using True us(1) by (subst rotate_turns.simps) (simp add: Let_def)
    ultimately show ?thesis
      using us(2) [unfolded next_ls] us(3) fronts_sorted [OF "1.prems"(1)] split [of ?ls]
      by (intro exI [of _ "bucket_fronts bs @ us"]) (simp add: sorted_wrt_append fr)
  qed
qed

lemma same_actor_bucket:
  assumes "row_ok (filled (enumerate 0 queued)) (k, l)" "i \<in> set l"
  shows "same_actor queued i = l"
proof -
  have "i \<in> set (map fst (filter (\<lambda>x. a_ptr (snd x) = a_ptr k) (filled (enumerate 0 queued))))"
    using assms by (metis row_ok_def fst_conv snd_conv)
  then obtain a where "(i, a) \<in> set (filled (enumerate 0 queued))" "a_ptr a = a_ptr k" by auto
  then have ptr: "map_option (\<lambda>x. a_ptr (qi_actor x)) (queued ! i) = Some (a_ptr k)"
    by (auto simp: filled_queued_iff)
  show ?thesis using assms(1) unfolding same_actor_def row_ok_def ptr by (simp add: case_prod_unfold)
qed

lemma buckets_ranks_ordered:
  assumes "buckets_ok (filled (enumerate 0 queued)) bs"
  shows "ranks_ordered (turn_before queued) (map snd bs)"
  unfolding ranks_ordered_def
proof (intro allI impI)
  fix p q r s
  assume p: "p < length (map snd bs)" and q: "q < length (map snd bs)" and
    r: "r < length (map snd bs ! p)" and s: "s < length (map snd bs ! q)" and lt: "r < s \<or> r = s \<and> p < q"
  have same: "same_actor queued (snd (bs ! p) ! r) = snd (bs ! p) \<and> turn_rank queued (snd (bs ! p) ! r) = r"
    if "p < length bs" "r < length (snd (bs ! p))" for p r
  proof -
    have "row_ok (filled (enumerate 0 queued)) (bs ! p)"
      using assms that(1) by (simp add: buckets_ok_def list_all_length)
    then have a: "same_actor queued (snd (bs ! p) ! r) = snd (bs ! p)"
      using same_actor_bucket [of queued "fst (bs ! p)" "snd (bs ! p)"] that(2) by simp
    then show ?thesis
      using filter_below_nth [OF same_actor_sorted, of r queued "snd (bs ! p) ! r"] that(2)
      by (simp add: turn_rank_def)
  qed
  have "hd (snd (bs ! p)) < hd (snd (bs ! q))" if "p < q"
    using assms that q unfolding buckets_ok_def sorted_wrt_iff_nth_less by simp
  then show "turn_before queued (map snd bs ! p ! r) (map snd bs ! q ! s)"
    using same [of p r] same [of q s] p q r s lt unfolding turn_before_def by auto
qed

lemma lone_scan_Some: "lone_scan (Some p) xs \<longleftrightarrow> (\<forall>x \<in> set xs. a_ptr (qi_actor x) = p)"
  by (induction xs) auto

lemma lone_scan_None: "lone_scan None xs \<Longrightarrow> x \<in> set xs \<Longrightarrow> y \<in> set xs \<Longrightarrow> a_ptr (qi_actor x) = a_ptr (qi_actor y)"
  by (cases xs) (auto simp: lone_scan_Some)

lemma lone_same_actor:
  assumes "lone_scan None (List.map_filter id queued)" "i < length queued" "queued ! i \<noteq> None"
  shows "same_actor queued i = map fst (filled (enumerate 0 queued))"
proof -
  obtain x where x: "queued ! i = Some x" using assms(3) by blast
  have mem: "y \<in> set (List.map_filter id queued)" if "j < length queued" "queued ! j = Some y" for j y
    using that by (force simp: List.map_filter_def in_set_conv_nth)
  have "a_ptr a = a_ptr (qi_actor x)" if "(j, a) \<in> set (filled (enumerate 0 queued))" for j a
    using that lone_scan_None [OF assms(1) mem mem [OF assms(2) x]] by (auto simp: filled_queued_iff)
  then show ?thesis
    unfolding same_actor_def x by (intro arg_cong [of _ _ "map fst"] filter_True) auto
qed

lemma lone_turns: "map fst (filter (\<lambda>(_, item). item \<noteq> None) items) = map fst (filled items)"
proof (induction items)
  case (Cons it items)
  then show ?case by (cases it; cases "snd it") auto
qed simp

lemma filled_slots:
  "distinct (map fst (filled (enumerate 0 queued)))"
  "set (map fst (filled (enumerate 0 queued))) = {i. i < length queued \<and> queued ! i \<noteq> None}"
proof -
  show "distinct (map fst (filled (enumerate 0 queued)))" using filled_queued_sorted [of queued] by (simp add: strict_sorted_iff)
  have "i \<in> set (map fst (filled (enumerate 0 queued))) \<longleftrightarrow> (\<exists>a. (i, a) \<in> set (filled (enumerate 0 queued)))" for i by (rule fst_set_iff)
  then show "set (map fst (filled (enumerate 0 queued))) = {i. i < length queued \<and> queued ! i \<noteq> None}"
    by (auto simp: filled_queued_iff)
qed

lemma round_robin_served:
  "mset (round_robin queued) = mset (map fst (filled (enumerate 0 queued))) \<and>
   sorted_wrt (turn_before queued) (round_robin queued)"
proof -
  let ?xs = "filled (enumerate 0 queued)"
  note xs = filled_slots [of queued]
  show ?thesis
  proof (cases "lone_scan None (List.map_filter id queued)")
    case True
    then have rr: "round_robin queued = map fst ?xs" unfolding round_robin_def by (simp only: lone_turns if_True)
    have "turn_before queued i j" if "i < j" "i \<in> set (map fst ?xs)" "j \<in> set (map fst ?xs)" for i j
    proof -
      have same: "same_actor queued i = map fst ?xs" "same_actor queued j = map fst ?xs"
        using lone_same_actor [OF True] that(2,3) unfolding xs(2) by auto
      have "set (filter (\<lambda>k. k < i) (map fst ?xs)) \<subset> set (filter (\<lambda>k. k < j) (map fst ?xs))"
        using that by (auto 0 3)
      then have "length (filter (\<lambda>k. k < i) (map fst ?xs)) < length (filter (\<lambda>k. k < j) (map fst ?xs))"
        using xs(1) by (metis psubset_card_mono List.finite_set distinct_card distinct_filter)
      then show ?thesis by (simp add: turn_before_def turn_rank_def same)
    qed
    then have "sorted_wrt (turn_before queued) (map fst ?xs)"
      by (intro sorted_wrt_mono_rel [OF _ filled_queued_sorted]) auto
    then show ?thesis by (simp add: rr)
  next
    case False
    let ?bs = "fill_buckets [] (enumerate 0 queued)"
    have ok: "buckets_ok ?xs ?bs"
      using fill_buckets_ok [of "[]" "[]" "enumerate 0 queued"] by (simp add: buckets_ok_def strict_sorted_iff)
    have "length (concat (map snd ?bs)) = length ?xs"
      using ok unfolding buckets_ok_def by (metis length_map size_mset)
    also have "\<dots> \<le> length queued" using length_filled [of "enumerate 0 queued"] by simp
    finally obtain us where "round_robin queued = us" "mset us = mset (concat (map snd ?bs))"
        "sorted_wrt (turn_before queued) us"
      using rotate_result [OF buckets_ranks_ordered [OF ok], of "[]" "length queued"] False
      by (auto simp: round_robin_def)
    then show ?thesis using ok by (simp add: buckets_ok_def)
  qed
qed

lemma round_robin_turns:
  "distinct (round_robin queued)"
  "set (round_robin queued) = {i. i < length queued \<and> queued ! i \<noteq> None}"
  using round_robin_served [of queued] filled_slots [of queued]
  by (metis mset_eq_imp_distinct_iff, metis set_mset_mset)

text \<open>
  C12: the order of a batch is fair. \<open>round_robin\<close> gives every filled slot exactly one turn, and the
  turns are in the order of the rank of an operation among its actor's, within a rank in the order
  the actors arrived: an actor's operations never overtake each other, and nobody's second
  operation is served before everybody's first.
\<close>

theorem round_robin_order:
  "distinct (round_robin queued) \<and>
   set (round_robin queued) = {i. i < length queued \<and> queued ! i \<noteq> None} \<and>
   sorted_wrt (turn_before queued) (round_robin queued)"
  using round_robin_turns [of queued] round_robin_served [of queued] by simp

end
