(* ===== verification/Lag.thy ===== *)
theory Lag
  imports Prelude "HOL-Library.Multiset"
begin

text \<open>
  \<open>crates/choir-sequencer/src/lag.rs\<close>: the latency histograms of the writer, their percentiles, and
  the bounded ring of operations that missed the gate. A \<open>Duration\<close> is its nanoseconds, the state
  behind the two mutexes is one record, and the wall clock of a breach is an argument. The code
  computes the rank of a percentile in \<open>f64\<close>; for the two percentiles it asks for (50 and 99) and
  fewer than 2 to the 46 observations that is the exact ceiling written here.
\<close>

section \<open>The definitions\<close>

definition u64_max :: nat where
  "u64_max = 2 ^ 64 - 1"

definition as_micros :: "nat \<Rightarrow> nat" where
  "as_micros ns = min (ns div 1000) u64_max"

definition default_gate :: nat where
  "default_gate = 100 * 1000 * 1000"

definition max_pending_breaches :: nat where
  "max_pending_breaches = 256"

definition lag_buckets :: nat where
  "lag_buckets = 32"

record breach =
  br_seq :: nat
  br_decision_us :: nat
  br_durable_us :: nat
  br_batch :: nat
  br_at_unix_ms :: nat

record histogram =
  hg_buckets :: "nat list"
  hg_count :: nat
  hg_max_us :: nat

definition histogram_new :: histogram where
  "histogram_new = \<lparr>hg_buckets = replicate lag_buckets 0, hg_count = 0, hg_max_us = 0\<rparr>"

text \<open>\<open>u64::BITS - us.leading_zeros()\<close>.\<close>

fun bit_length :: "nat \<Rightarrow> nat" where
  "bit_length n = (if n = 0 then 0 else Suc (bit_length (n div 2)))"

declare bit_length.simps [simp del]

definition bucket_index :: "nat \<Rightarrow> nat" where
  "bucket_index us = min (if us = 0 then 0 else bit_length us) (lag_buckets - 1)"

definition histogram_record :: "histogram \<Rightarrow> nat \<Rightarrow> histogram" where
  "histogram_record h us =
     (let i = bucket_index us in
      h\<lparr>hg_buckets := (hg_buckets h)[i := hg_buckets h ! i + 1],
        hg_count := hg_count h + 1, hg_max_us := max (hg_max_us h) us\<rparr>)"

definition quantile_target :: "nat \<Rightarrow> nat \<Rightarrow> nat" where
  "quantile_target observed percentile = max 1 ((observed * percentile + 99) div 100)"

fun quantile_scan :: "nat \<Rightarrow> nat \<Rightarrow> nat \<Rightarrow> nat \<Rightarrow> nat list \<Rightarrow> nat" where
  "quantile_scan tgt max_us seen index [] = max_us"
| "quantile_scan tgt max_us seen index (hits # rest) =
     (if seen + hits \<ge> tgt then min (2 ^ index) max_us
      else quantile_scan tgt max_us (seen + hits) (index + 1) rest)"

definition quantile_us :: "histogram \<Rightarrow> nat \<Rightarrow> nat option" where
  "quantile_us h percentile =
     (if hg_count h = 0 then None
      else Some (quantile_scan (quantile_target (hg_count h) percentile) (hg_max_us h) 0 0 (hg_buckets h)))"

record lag_meter =
  lm_decision :: histogram
  lm_durable :: histogram
  lm_decision_breaches :: nat
  lm_durable_breaches :: nat
  lm_pending :: "breach list"
  lm_dropped :: nat
  lm_gate :: nat

definition lag_new :: lag_meter where
  "lag_new = \<lparr>lm_decision = histogram_new, lm_durable = histogram_new, lm_decision_breaches = 0,
              lm_durable_breaches = 0, lm_pending = [], lm_dropped = 0, lm_gate = default_gate\<rparr>"

definition set_gate :: "lag_meter \<Rightarrow> nat \<Rightarrow> lag_meter" where
  "set_gate m gate = m\<lparr>lm_gate := gate\<rparr>"

definition push_breach :: "lag_meter \<Rightarrow> breach \<Rightarrow> lag_meter" where
  "push_breach m b =
     (let m' = (if length (lm_pending m) = max_pending_breaches
                then m\<lparr>lm_pending := tl (lm_pending m), lm_dropped := lm_dropped m + 1\<rparr> else m)
      in m'\<lparr>lm_pending := lm_pending m' @ [b]\<rparr>)"

definition lag_record :: "lag_meter \<Rightarrow> nat \<Rightarrow> nat \<Rightarrow> nat \<Rightarrow> nat \<Rightarrow> nat \<Rightarrow> lag_meter" where
  "lag_record m s decision durable batch now =
     (let gate = lm_gate m;
          decision_us = as_micros decision;
          durable_us = as_micros durable;
          m1 = m\<lparr>lm_decision := histogram_record (lm_decision m) decision_us,
                 lm_durable := histogram_record (lm_durable m) durable_us\<rparr>;
          m2 = (if decision \<ge> gate then m1\<lparr>lm_decision_breaches := lm_decision_breaches m1 + 1\<rparr> else m1)
      in if durable \<ge> gate
         then push_breach (m2\<lparr>lm_durable_breaches := lm_durable_breaches m2 + 1\<rparr>)
                \<lparr>br_seq = s, br_decision_us = decision_us, br_durable_us = durable_us,
                 br_batch = batch, br_at_unix_ms = now\<rparr>
         else m2)"

definition lag_drain :: "lag_meter \<Rightarrow> (breach list \<times> nat) \<times> lag_meter" where
  "lag_drain m = ((lm_pending m, lm_dropped m), m\<lparr>lm_pending := [], lm_dropped := 0\<rparr>)"

record lag_report =
  lr_gate_us :: nat
  lr_observed_ops :: nat
  lr_decision_p50_us :: "nat option"
  lr_decision_p99_us :: "nat option"
  lr_decision_max_us :: nat
  lr_decision_breaches :: nat
  lr_durable_p50_us :: "nat option"
  lr_durable_p99_us :: "nat option"
  lr_durable_max_us :: nat
  lr_durable_breaches :: nat
  lr_pending_breaches :: nat

definition report :: "lag_meter \<Rightarrow> lag_report" where
  "report m =
     \<lparr>lr_gate_us = as_micros (lm_gate m), lr_observed_ops = hg_count (lm_durable m),
      lr_decision_p50_us = quantile_us (lm_decision m) 50,
      lr_decision_p99_us = quantile_us (lm_decision m) 99,
      lr_decision_max_us = hg_max_us (lm_decision m),
      lr_decision_breaches = lm_decision_breaches m,
      lr_durable_p50_us = quantile_us (lm_durable m) 50,
      lr_durable_p99_us = quantile_us (lm_durable m) 99,
      lr_durable_max_us = hg_max_us (lm_durable m),
      lr_durable_breaches = lm_durable_breaches m,
      lr_pending_breaches = length (lm_pending m)\<rparr>"

section \<open>Percentiles\<close>

lemma bit_length_rec: "0 < n \<Longrightarrow> bit_length n = Suc (bit_length (n div 2))"
  by (subst bit_length.simps) simp

lemma bit_length_pos: "0 < n \<Longrightarrow> 0 < bit_length n"
  by (simp only: bit_length_rec zero_less_Suc)

lemma bit_length_bounds: "0 < n \<Longrightarrow> 2 ^ (bit_length n - 1) \<le> n \<and> n < 2 ^ bit_length n"
proof (induction n rule: bit_length.induct)
  case (1 n)
  show ?case
  proof (cases "n div 2 = 0")
    case True
    then have n: "n = 1" using 1(2) by simp
    have "bit_length 1 = 1" by (simp add: bit_length_rec) (simp add: bit_length.simps)
    then show ?thesis unfolding n by simp
  next
    case False
    have e: "bit_length n = Suc (bit_length (n div 2))" by (rule bit_length_rec [OF 1(2)])
    have pos: "0 < bit_length (n div 2)" by (rule bit_length_pos) (use False in blast)
    define h b where "h = n div 2" and "b = bit_length (n div 2)"
    have p: "2 * 2 ^ (b - 1) = (2 :: nat) ^ b" using pos unfolding b_def by (simp add: power_Suc [symmetric])
    have h: "2 ^ (b - 1) \<le> h" "h < 2 ^ b" using 1 False unfolding h_def b_def by auto
    have n: "2 * h \<le> n" "n < 2 * h + 2" unfolding h_def by simp_all
    have "2 ^ b \<le> n" using mult_le_mono2 [OF h(1), of 2] n(1) unfolding p by (rule order_trans)
    moreover have "n < 2 * 2 ^ b" using n(2) mult_le_mono2 [OF Suc_leI [OF h(2)], of 2] by simp
    ultimately have "2 ^ bit_length (n div 2) \<le> n" "n < 2 * 2 ^ bit_length (n div 2)" unfolding b_def by simp_all
    then show ?thesis by (simp add: e)
  qed
qed

lemma bit_length_mono: "m \<le> n \<Longrightarrow> bit_length m \<le> bit_length n"
proof (rule ccontr)
  assume mn: "m \<le> n" "\<not> bit_length m \<le> bit_length n"
  then have m: "0 < m" by (cases m) (auto simp: bit_length.simps [of 0])
  have "n < 2 ^ bit_length n" using bit_length_bounds [of n] m mn(1) by simp
  also have "\<dots> \<le> 2 ^ (bit_length m - 1)" using mn(2) by (intro power_increasing) auto
  also have "\<dots> \<le> m" using bit_length_bounds [OF m] by simp
  finally show False using mn(1) by simp
qed

lemma bucket_index_mono: "m \<le> n \<Longrightarrow> bucket_index m \<le> bucket_index n"
  using bit_length_mono [of m n] by (auto simp: bucket_index_def)

lemma bucket_index_bounds:
  assumes "us \<le> 2 ^ 31"
  shows "us \<le> 2 ^ bucket_index us" "2 ^ bucket_index us \<le> max 1 (2 * us)" "bucket_index us < lag_buckets"
proof -
  show "bucket_index us < lag_buckets" by (simp add: bucket_index_def lag_buckets_def)
  show "us \<le> 2 ^ bucket_index us"
  proof (cases "us = 0")
    case False
    then have "us < 2 ^ bit_length us" using bit_length_bounds [of us] by simp
    show ?thesis
    proof (cases "bit_length us \<le> 31")
      case True
      then have "bucket_index us = bit_length us" using False by (simp add: bucket_index_def lag_buckets_def)
      then show ?thesis using \<open>us < 2 ^ bit_length us\<close> by simp
    next
      case big: False
      then have "bucket_index us = 31" using False by (simp add: bucket_index_def lag_buckets_def)
      then show ?thesis using assms by simp
    qed
  qed simp
  show "2 ^ bucket_index us \<le> max 1 (2 * us)"
  proof (cases "us = 0")
    case False
    then have b: "2 ^ (bit_length us - 1) \<le> us" "0 < bit_length us"
      using bit_length_bounds [of us] bit_length_pos [of us] by simp_all
    have "(2 :: nat) ^ bucket_index us \<le> 2 ^ bit_length us"
      using False by (intro power_increasing) (auto simp: bucket_index_def)
    also have "(2 :: nat) ^ bit_length us = 2 * 2 ^ (bit_length us - 1)" using b(2) by (simp add: power_Suc [symmetric])
    finally show ?thesis using b(1) by simp
  qed (simp add: bucket_index_def)
qed

text \<open>A histogram of a list of observations.\<close>

definition histogram_of :: "nat list \<Rightarrow> histogram" where
  "histogram_of obs = foldl histogram_record histogram_new obs"

lemma histogram_of_fields:
  "length (hg_buckets (histogram_of obs)) = lag_buckets \<and>
   hg_count (histogram_of obs) = length obs \<and>
   hg_max_us (histogram_of obs) = Max (insert 0 (set obs)) \<and>
   (\<forall>i < lag_buckets. hg_buckets (histogram_of obs) ! i = length (filter (\<lambda>u. bucket_index u = i) obs))"
proof (induction obs rule: rev_induct)
  case Nil
  then show ?case by (simp add: histogram_of_def histogram_new_def)
next
  case (snoc u obs)
  have "bucket_index u < lag_buckets" by (simp add: bucket_index_def lag_buckets_def)
  moreover have "Max (insert 0 (set (obs @ [u]))) = max (Max (insert 0 (set obs))) u"
    by (simp add: max.commute insert_commute [of 0 u] del: Max_insert) (simp add: Max_insert max.commute)
  ultimately show ?case
    using snoc by (auto simp: histogram_of_def histogram_record_def Let_def nth_list_update)
qed

lemma quantile_scan_index:
  assumes "seen = length (filter (\<lambda>u. bucket_index u < index) obs)"
    and "\<forall>j < length bs. bs ! j = length (filter (\<lambda>u. bucket_index u = index + j) obs)"
    and "seen < tgt" "tgt \<le> seen + sum_list bs"
  shows "\<exists>i. quantile_scan tgt max_us seen index bs = min (2 ^ i) max_us \<and>
    length (filter (\<lambda>u. bucket_index u < i) obs) < tgt \<and> tgt \<le> length (filter (\<lambda>u. bucket_index u \<le> i) obs)"
  using assms
proof (induction bs arbitrary: seen index)
  case (Cons hits bs)
  have split: "length (filter (\<lambda>u. bucket_index u \<le> index) xs) =
      length (filter (\<lambda>u. bucket_index u < index) xs) + length (filter (\<lambda>u. bucket_index u = index) xs)" for xs
    by (induction xs) auto
  have hits: "hits = length (filter (\<lambda>u. bucket_index u = index) obs)" using Cons.prems(2) by auto
  show ?case
  proof (cases "seen + hits \<ge> tgt")
    case True
    then show ?thesis using Cons.prems(1,3) hits split [of obs] by (intro exI [of _ index]) simp
  next
    case False
    have "\<forall>j < length bs. bs ! j = length (filter (\<lambda>u. bucket_index u = Suc index + j) obs)"
      using Cons.prems(2) by (auto simp: less_Suc_eq_0_disj)
    moreover have "seen + hits = length (filter (\<lambda>u. bucket_index u < Suc index) obs)"
      using Cons.prems(1) hits split [of obs] by (simp add: less_Suc_eq_le)
    ultimately show ?thesis
      using Cons.IH [of "seen + hits" "Suc index"] False Cons.prems(4) by simp
  qed
qed simp

text \<open>The observation a percentile asks for: the one of rank \<open>quantile_target\<close> in increasing order.\<close>

definition true_quantile :: "nat list \<Rightarrow> nat \<Rightarrow> nat" where
  "true_quantile obs percentile = sort obs ! (quantile_target (length obs) percentile - 1)"

lemma length_filter_sort: "length (filter P (sort obs)) = length (filter P (obs :: nat list))"
  by (metis mset_filter mset_sort size_mset)

lemma rank_in_bucket:
  assumes "length (filter (\<lambda>u. bucket_index u < i) obs) < k" "k \<le> length (filter (\<lambda>u. bucket_index u \<le> i) obs)"
  shows "bucket_index (sort obs ! (k - 1)) = i"
proof -
  let ?s = "sort obs"
  have k: "0 < k" "k \<le> length ?s" using assms order_trans [OF assms(2) length_filter_le] by auto
  have sorted: "?s ! p \<le> ?s ! q" if "p \<le> q" "q < length ?s" for p q
    using that by (intro sorted_nth_mono) auto
  have "bucket_index (?s ! (k - 1)) \<le> i"
  proof (rule ccontr)
    assume "\<not> ?thesis"
    then have "\<not> bucket_index (?s ! q) \<le> i" if "k - 1 \<le> q" "q < length ?s" for q
      using bucket_index_mono [OF sorted [OF that]] by linarith
    then have "filter (\<lambda>u. bucket_index u \<le> i) (drop (k - 1) ?s) = []"
      by (auto simp: filter_empty_conv in_set_conv_nth)
    then have "filter (\<lambda>u. bucket_index u \<le> i) ?s = filter (\<lambda>u. bucket_index u \<le> i) (take (k - 1) ?s)"
      by (metis append_Nil2 append_take_drop_id filter_append)
    then have "length (filter (\<lambda>u. bucket_index u \<le> i) ?s) \<le> k - 1"
      using k(2) length_filter_le [of _ "take (k - 1) ?s"] by (metis length_take min.absorb2 diff_le_self order_trans)
    then show False using assms(2) k(1) by (simp add: length_filter_sort)
  qed
  moreover have "\<not> bucket_index (?s ! (k - 1)) < i"
  proof
    assume lt: "bucket_index (?s ! (k - 1)) < i"
    then have "bucket_index (?s ! q) < i" if "q < k" for q
      using bucket_index_mono [OF sorted [of q "k - 1"]] that k by fastforce
    then have "filter (\<lambda>u. bucket_index u < i) (take k ?s) = take k ?s"
      by (auto simp: filter_id_conv in_set_conv_nth)
    moreover have "length (filter (\<lambda>u. bucket_index u < i) (take k ?s)) \<le> length (filter (\<lambda>u. bucket_index u < i) ?s)"
      by (metis append_take_drop_id filter_append length_append le_add1)
    ultimately show False using assms(1) k(2) by (simp add: length_filter_sort)
  qed
  ultimately show ?thesis by simp
qed

lemma sum_bucket_counts:
  "(\<forall>u \<in> set obs. bucket_index u < n) \<Longrightarrow>
   sum_list (map (\<lambda>i. length (filter (\<lambda>u. bucket_index u = i) obs)) [0..<n]) = length obs"
proof (induction obs)
  case (Cons u obs)
  have "(\<Sum>i\<leftarrow>[0..<n]. length (filter (\<lambda>v. bucket_index v = i) (u # obs))) =
      (\<Sum>i\<leftarrow>[0..<n]. (if i = bucket_index u then 1 else 0)) +
      (\<Sum>i\<leftarrow>[0..<n]. length (filter (\<lambda>v. bucket_index v = i) obs))"
    unfolding sum_list_addf [symmetric] by (intro arg_cong [of _ _ sum_list] map_cong) auto
  moreover have "(\<Sum>i\<leftarrow>[0..<n]. (if i = bucket_index u then 1 else 0 :: nat)) = 1"
    using Cons.prems by (simp add: interv_sum_list_conv_sum_set_nat sum.delta)
  ultimately show ?case using Cons by simp
qed simp

lemma quantile_target_bounds:
  assumes "0 < n" "p \<le> 100"
  shows "0 < quantile_target n p" "quantile_target n p \<le> n"
proof -
  have "n * p \<le> n * 100" using assms(2) by simp
  then have "(n * p + 99) div 100 \<le> (n * 100 + 99) div 100" by (intro div_le_mono) simp
  also have "\<dots> = n" by simp
  finally show "quantile_target n p \<le> n" using assms(1) by (simp add: quantile_target_def)
qed (simp add: quantile_target_def)

text \<open>
  C32: a reported percentile never understates. When no observation is above the last bucket (2 to the 31
  microseconds, 35 minutes), the percentile of the histogram is at least the observation of that
  rank, at most twice it (or 1 for an observation of 0), and never more than the largest one.
\<close>

theorem quantile_bounds:
  assumes "obs \<noteq> []" "\<forall>u \<in> set obs. u \<le> 2 ^ 31" "percentile \<le> 100"
  shows "\<exists>b. quantile_us (histogram_of obs) percentile = Some b \<and>
    true_quantile obs percentile \<le> b \<and> b \<le> max 1 (2 * true_quantile obs percentile) \<and> b \<le> Max (set obs)"
proof -
  let ?h = "histogram_of obs" and ?k = "quantile_target (length obs) percentile"
  note f = histogram_of_fields [of obs]
  have k: "0 < ?k" "?k \<le> length obs" using quantile_target_bounds assms(1,3) by auto
  have buckets: "hg_buckets ?h = map (\<lambda>i. length (filter (\<lambda>u. bucket_index u = i) obs)) [0..<lag_buckets]"
    using f by (intro nth_equalityI) auto
  have "sum_list (hg_buckets ?h) = length obs"
    unfolding buckets by (intro sum_bucket_counts) (auto simp: bucket_index_def lag_buckets_def min_less_iff_disj)
  then obtain i where i: "quantile_scan ?k (hg_max_us ?h) 0 0 (hg_buckets ?h) = min (2 ^ i) (hg_max_us ?h)"
      "length (filter (\<lambda>u. bucket_index u < i) obs) < ?k" "?k \<le> length (filter (\<lambda>u. bucket_index u \<le> i) obs)"
    using quantile_scan_index [of 0 0 obs "hg_buckets ?h" ?k "hg_max_us ?h"] f k by auto
  let ?v = "true_quantile obs percentile"
  have v: "?v \<in> set obs"
    unfolding true_quantile_def using k by (metis One_nat_def Suc_pred length_sort less_eq_Suc_le nth_mem set_sort)
  have idx: "bucket_index ?v = i" unfolding true_quantile_def by (rule rank_in_bucket [OF i(2,3)])
  have mx: "hg_max_us ?h = Max (set obs)" using f assms(1) by (simp add: Max_insert)
  have "?v \<le> Max (set obs)" using v by simp
  moreover have "?v \<le> 2 ^ i" "2 ^ i \<le> max 1 (2 * ?v)"
    using bucket_index_bounds(1,2) [of ?v] v assms(2) unfolding idx by auto
  moreover have "quantile_us ?h percentile = Some (min (2 ^ i) (Max (set obs)))"
    using i(1) f assms(1) mx by (simp add: quantile_us_def)
  ultimately show ?thesis by (intro exI [of _ "min (2 ^ i) (Max (set obs))"]) auto
qed

lemma quantile_bounds_witness:
  "\<exists>b. quantile_us (histogram_of [5, 90, 7, 1]) 50 = Some b \<and> 5 \<le> b \<and> b \<le> 10"
proof -
  have "true_quantile [5, 90, 7, 1] 50 = 5" by (simp add: true_quantile_def quantile_target_def)
  then show ?thesis using quantile_bounds [of "[5, 90, 7, 1]" 50] by auto
qed

section \<open>The ring of breaches\<close>

text \<open>The operations recorded since the last drain, and the breaches among them.\<close>

definition lag_record_all :: "lag_meter \<Rightarrow> (nat \<times> nat \<times> nat \<times> nat \<times> nat) list \<Rightarrow> lag_meter" where
  "lag_record_all = foldl (\<lambda>m (s, decision, durable, batch, now). lag_record m s decision durable batch now)"

definition breaches :: "nat \<Rightarrow> (nat \<times> nat \<times> nat \<times> nat \<times> nat) list \<Rightarrow> breach list" where
  "breaches gate ops =
     map (\<lambda>(s, decision, durable, batch, now).
            \<lparr>br_seq = s, br_decision_us = as_micros decision, br_durable_us = as_micros durable,
             br_batch = batch, br_at_unix_ms = now\<rparr>)
       (filter (\<lambda>(s, decision, durable, batch, now). gate \<le> durable) ops)"

lemma ring_push:
  assumes "0 < k"
  shows "(if length (drop (length xs - k) xs) = k then tl (drop (length xs - k) xs) else drop (length xs - k) xs) @ [x] =
    drop (length (xs @ [x]) - k) (xs @ [x])"
proof (cases "k \<le> length xs")
  case True
  then have "length (xs @ [x]) - k = Suc (length xs - k)" by (simp add: Suc_diff_le)
  then show ?thesis using True assms by (simp add: tl_drop drop_Suc)
qed simp

lemma lag_record_ring:
  assumes "length (lm_pending m) \<le> max_pending_breaches"
  shows "let m' = lag_record_all m ops; all = lm_pending m @ breaches (lm_gate m) ops in
    lm_gate m' = lm_gate m \<and> lm_pending m' = drop (length all - max_pending_breaches) all \<and>
    lm_dropped m' = lm_dropped m + (length all - max_pending_breaches) \<and>
    lm_durable_breaches m' = lm_durable_breaches m + length (breaches (lm_gate m) ops) \<and>
    hg_count (lm_durable m') = hg_count (lm_durable m) + length ops"
proof (induction ops rule: rev_induct)
  case Nil
  then show ?case using assms by (simp add: lag_record_all_def breaches_def Let_def)
next
  case (snoc op ops)
  obtain s d u b n where op: "op = (s, d, u, b, n)" by (cases op)
  let ?m = "lag_record_all m ops" and ?all = "lm_pending m @ breaches (lm_gate m) ops"
  have step: "lag_record_all m (ops @ [op]) = lag_record ?m s d u b n" by (simp add: lag_record_all_def op)
  have ih: "lm_gate ?m = lm_gate m" "lm_pending ?m = drop (length ?all - max_pending_breaches) ?all"
    "lm_dropped ?m = lm_dropped m + (length ?all - max_pending_breaches)"
    "lm_durable_breaches ?m = lm_durable_breaches m + length (breaches (lm_gate m) ops)"
    "hg_count (lm_durable ?m) = hg_count (lm_durable m) + length ops"
    using snoc.IH by (auto simp: Let_def)
  show ?case
  proof (cases "lm_gate m \<le> u")
    case False
    then have "breaches (lm_gate m) (ops @ [op]) = breaches (lm_gate m) ops" by (simp add: breaches_def op)
    then show ?thesis
      using False ih by (simp add: step lag_record_def Let_def histogram_record_def)
  next
    case True
    define x where "x = \<lparr>br_seq = s, br_decision_us = as_micros d, br_durable_us = as_micros u,
        br_batch = b, br_at_unix_ms = n\<rparr>"
    have br: "breaches (lm_gate m) (ops @ [op]) = breaches (lm_gate m) ops @ [x]"
      using True by (simp add: breaches_def op x_def)
    have pend: "(if length (lm_pending ?m) = max_pending_breaches then tl (lm_pending ?m) else lm_pending ?m) @ [x] =
        drop (length (?all @ [x]) - max_pending_breaches) (?all @ [x])"
      unfolding ih(2) by (rule ring_push) (simp add: max_pending_breaches_def)
    have full: "length (lm_pending ?m) = max_pending_breaches \<longleftrightarrow> max_pending_breaches \<le> length ?all"
      unfolding ih(2) by (auto simp: max_pending_breaches_def)
    have m': "lm_pending (lag_record ?m s d u b n) =
        (if length (lm_pending ?m) = max_pending_breaches then tl (lm_pending ?m) else lm_pending ?m) @ [x]"
      "lm_dropped (lag_record ?m s d u b n) =
        lm_dropped ?m + (if length (lm_pending ?m) = max_pending_breaches then 1 else 0)"
      "lm_gate (lag_record ?m s d u b n) = lm_gate ?m"
      "lm_durable_breaches (lag_record ?m s d u b n) = lm_durable_breaches ?m + 1"
      "hg_count (lm_durable (lag_record ?m s d u b n)) = hg_count (lm_durable ?m) + 1"
      using True ih(1) by (auto simp: lag_record_def Let_def push_breach_def histogram_record_def x_def)
    show ?thesis
      unfolding step br Let_def m' pend
      using ih full by (auto simp: Suc_diff_le)
  qed
qed

text \<open>
  No breach disappears silently. A drain returns the newest 256 of the breaches recorded since the
  drain before it, oldest first, and exactly how many older ones the ring let go; the breach count
  of the report is the number of all of them.
\<close>

theorem drain_accounts_for_breaches:
  assumes "lm_pending m = []" "lm_dropped m = 0"
  shows "fst (lag_drain (lag_record_all m ops)) =
      (let all = breaches (lm_gate m) ops; n = length all - max_pending_breaches in (drop n all, n)) \<and>
    lr_durable_breaches (report (lag_record_all m ops)) =
      lr_durable_breaches (report m) + length (breaches (lm_gate m) ops) \<and>
    lr_observed_ops (report (lag_record_all m ops)) = lr_observed_ops (report m) + length ops"
  using lag_record_ring [of m ops] assms
  by (simp add: lag_drain_def Let_def report_def)

lemma drain_accounts_for_breaches_witness:
  "fst (lag_drain (lag_record_all (set_gate lag_new 10) [(0, 1, 9, 1, 7), (1, 2, 10, 1, 8)])) =
     ([\<lparr>br_seq = 1, br_decision_us = 0, br_durable_us = 0, br_batch = 1, br_at_unix_ms = 8\<rparr>], 0)"
  using drain_accounts_for_breaches [of "set_gate lag_new 10" "[(0, 1, 9, 1, 7), (1, 2, 10, 1, 8)]"]
  by (simp add: set_gate_def lag_new_def breaches_def as_micros_def max_pending_breaches_def Let_def)

end
