(* ===== verification/Sequencer.thy ===== *)
theory Sequencer
  imports Durable_Log Fairness Lag
begin

text \<open>
  \<open>crates/choir-sequencer/src/lib.rs\<close>: the single writer. Clients put commands in a channel; the
  writer thread wakes, drains what is there, serves the submissions round-robin, appends a
  replicated batch behind them, syncs the log once and only then answers what it appended. One
  wake-up is one step, \<open>wake\<close>. The log backend and the admission policy are trait objects, records
  of functions here; a reply channel is a number; a panic of the thread is \<open>None\<close>. The durations a
  command measured and the wall clock are arguments, indexed by its reply channel.
\<close>

section \<open>Commands and answers\<close>

definition max_batch :: nat where
  "max_batch = 256"

record 'l log_ops =
  lo_append :: "'l \<Rightarrow> op_entry \<Rightarrow> (log_error + content_hash) \<times> 'l"
  lo_head :: "'l \<Rightarrow> content_hash option"
  lo_len :: "'l \<Rightarrow> nat"
  lo_last :: "'l \<Rightarrow> op_entry option"
  lo_sync :: "'l \<Rightarrow> (log_error + unit) \<times> 'l"

record 'p submit_policy =
  po_check :: "'p \<Rightarrow> submission \<Rightarrow> (string + unit) \<times> 'p"
  po_accepted :: "'p \<Rightarrow> op_entry \<Rightarrow> content_hash \<Rightarrow> 'p option"
  po_subject :: "'p \<Rightarrow> string option \<times> string option"
  po_replicable :: "'p \<Rightarrow> op_entry \<Rightarrow> (string + unit) \<times> 'p"

definition admit_all :: "unit submit_policy" where
  "admit_all = \<lparr>po_check = \<lambda>p _. (Inr (), p), po_accepted = \<lambda>p _ _. Some p,
                po_subject = \<lambda>_. (None, None), po_replicable = \<lambda>p _. (Inr (), p)\<rparr>"

record accepted =
  ac_seq :: nat
  ac_hash :: content_hash
  ac_decision_latency :: nat

record sequenced_entry =
  sq_entry :: op_entry
  sq_hash :: content_hash

record replicated =
  re_appended :: nat
  re_head :: "content_hash option"

record replicate_error =
  rx_seq :: nat
  rx_reason :: string
  rx_appended :: nat

datatype event =
    Decision "string option" string "string option" bool "string option" "nat option" "string option" nat
  | QueueDepth nat
  | WindowResize nat nat string
  | CasFailure string "string option" "string option"

text \<open>
  \<open>Event::to_line\<close> of \<open>journal.rs\<close>: the members of the JSON object in the order they are inserted; the
  text of the object is \<open>serde_json\<close>'s.
\<close>

definition journal_format_version :: nat where
  "journal_format_version = 1"

datatype json = JNull | JBool bool | JNum nat | JStr string

definition json_str_opt :: "string option \<Rightarrow> json" where
  "json_str_opt s = (case s of None \<Rightarrow> JNull | Some t \<Rightarrow> JStr t)"

definition json_num_opt :: "nat option \<Rightarrow> json" where
  "json_num_opt n = (case n of None \<Rightarrow> JNull | Some k \<Rightarrow> JNum k)"

fun event_fields :: "event \<Rightarrow> (string \<times> json) list" where
  "event_fields (Decision actor_id workspace op_type accepted reject_reason s parent latency) =
     [(''format_version'', JNum journal_format_version), (''kind'', JStr ''decision''),
      (''actor_id'', json_str_opt actor_id), (''workspace'', JStr workspace), (''op_type'', json_str_opt op_type),
      (''decision'', JStr (if accepted then ''accepted'' else ''rejected'')),
      (''reject_reason'', json_str_opt reject_reason), (''seq'', json_num_opt s), (''parent'', json_str_opt parent),
      (''decision_latency_us'', JNum latency)]"
| "event_fields (QueueDepth depth) =
     [(''format_version'', JNum journal_format_version), (''kind'', JStr ''queue_depth''), (''depth'', JNum depth)]"
| "event_fields (WindowResize before after cause) =
     [(''format_version'', JNum journal_format_version), (''kind'', JStr ''window_resize''),
      (''from'', JNum before), (''to'', JNum after), (''cause'', JStr cause)]"
| "event_fields (CasFailure workspace expected actual) =
     [(''format_version'', JNum journal_format_version), (''kind'', JStr ''cas_failure''),
      (''workspace'', JStr workspace), (''expected'', json_str_opt expected), (''actual'', json_str_opt actual)]"

datatype command =
    CmdSubmit submission arc nat
  | CmdReplicate "sequenced_entry list" nat
  | CmdShutdown

datatype answer =
    Decided nat "string + accepted"
  | ReplicateDone nat "replicate_error + replicated"

record timing =
  tm_check :: "nat \<Rightarrow> nat"
  tm_decision :: "nat \<Rightarrow> nat"
  tm_durable :: "nat \<Rightarrow> nat"
  tm_now :: "nat \<Rightarrow> nat"

record ('l, 'p) seq_env =
  en_log :: "'l log_ops"
  en_policy :: "'p submit_policy"
  en_hash :: "op_entry \<Rightarrow> content_hash"
  en_show_error :: "log_error \<Rightarrow> string"
  en_journalling :: bool
  en_time :: timing

record ('l, 'p) writer =
  wr_log :: 'l
  wr_policy :: 'p
  wr_durability_failed :: bool
  wr_poisoned :: bool
  wr_quotas :: quotas
  wr_lag :: lag_meter
  wr_journal :: "event list"
  wr_answers :: "answer list"

definition spawn :: "'l \<Rightarrow> 'p \<Rightarrow> ('l, 'p) writer" where
  "spawn log p =
     \<lparr>wr_log = log, wr_policy = p, wr_durability_failed = False, wr_poisoned = False,
      wr_quotas = quotas_new default_quota, wr_lag = lag_new, wr_journal = [], wr_answers = []\<rparr>"

section \<open>Deciding one submission\<close>

definition answer_to :: "('l, 'p) writer \<Rightarrow> answer \<Rightarrow> ('l, 'p) writer" where
  "answer_to st a = st\<lparr>wr_answers := wr_answers st @ [a]\<rparr>"

definition journal_record :: "('l, 'p) seq_env \<Rightarrow> ('l, 'p) writer \<Rightarrow> event \<Rightarrow> ('l, 'p) writer" where
  "journal_record env st ev =
     (if en_journalling env then st\<lparr>wr_journal := wr_journal st @ [ev]\<rparr> else st)"

definition release_slot :: "('l, 'p) writer \<Rightarrow> arc \<Rightarrow> ('l, 'p) writer" where
  "release_slot st actor = st\<lparr>wr_quotas := quota_release (wr_quotas st) actor\<rparr>"

definition mark_failed :: "('l, 'p) writer \<Rightarrow> ('l, 'p) writer" where
  "mark_failed st = st\<lparr>wr_durability_failed := True, wr_poisoned := True\<rparr>"

lemma writer_step_simps [simp]:
  "wr_log (answer_to st a) = wr_log st" "wr_policy (answer_to st a) = wr_policy st"
  "wr_durability_failed (answer_to st a) = wr_durability_failed st" "wr_poisoned (answer_to st a) = wr_poisoned st"
  "wr_quotas (answer_to st a) = wr_quotas st" "wr_answers (answer_to st a) = wr_answers st @ [a]"
  "wr_log (journal_record env st ev) = wr_log st" "wr_policy (journal_record env st ev) = wr_policy st"
  "wr_durability_failed (journal_record env st ev) = wr_durability_failed st"
  "wr_poisoned (journal_record env st ev) = wr_poisoned st"
  "wr_quotas (journal_record env st ev) = wr_quotas st" "wr_answers (journal_record env st ev) = wr_answers st"
  "wr_log (release_slot st k) = wr_log st" "wr_policy (release_slot st k) = wr_policy st"
  "wr_durability_failed (release_slot st k) = wr_durability_failed st" "wr_poisoned (release_slot st k) = wr_poisoned st"
  "wr_quotas (release_slot st k) = quota_release (wr_quotas st) k" "wr_answers (release_slot st k) = wr_answers st"
  "wr_log (mark_failed st) = wr_log st" "wr_policy (mark_failed st) = wr_policy st"
  "wr_durability_failed (mark_failed st)" "wr_poisoned (mark_failed st)"
  "wr_quotas (mark_failed st) = wr_quotas st" "wr_answers (mark_failed st) = wr_answers st"
  by (simp_all add: answer_to_def journal_record_def release_slot_def mark_failed_def)

definition stopped_reason :: string where
  "stopped_reason = ''log is not durable: writer stopped accepting''"

definition decision_event ::
  "('l, 'p) seq_env \<Rightarrow> 'p \<Rightarrow> queued \<Rightarrow> bool \<Rightarrow> string option \<Rightarrow> nat option \<Rightarrow> string option \<Rightarrow> event" where
  "decision_event env p q ok reason s parent =
     (case po_subject (en_policy env) p of
        (actor_id, op_type) \<Rightarrow>
          Decision actor_id (sub_channel (qi_sub q)) op_type ok reason s parent
            (as_micros (tm_check (en_time env) (qi_reply q))))"

definition entry_for :: "submission \<Rightarrow> content_hash option \<Rightarrow> nat \<Rightarrow> op_entry" where
  "entry_for sub head s =
     \<lparr>e_format_version = format_version_1, e_parent = head, e_seq = s, e_channel = sub_channel sub,
      e_payload = sub_payload sub, e_witnesses = [], e_author_sig = sub_author_sig sub\<rparr>"

definition decide ::
  "('l, 'p) seq_env \<Rightarrow> ('l, 'p) writer \<Rightarrow> (nat \<times> accepted) list \<Rightarrow> queued \<Rightarrow>
   (('l, 'p) writer \<times> (nat \<times> accepted) list) option" where
  "decide env st acks q =
     (if wr_durability_failed st
      then Some (release_slot (answer_to st (Decided (qi_reply q) (Inl stopped_reason))) (qi_actor q), acks)
      else case po_check (en_policy env) (wr_policy st) (qi_sub q) of
        (Inl reason, p) \<Rightarrow>
          Some (release_slot
                 (answer_to
                   (journal_record env (st\<lparr>wr_policy := p\<rparr>) (decision_event env p q False (Some reason) None None))
                   (Decided (qi_reply q) (Inl reason)))
                 (qi_actor q), acks)
      | (Inr _, p) \<Rightarrow>
          (let st1 = st\<lparr>wr_policy := p\<rparr>;
               log = wr_log st;
               s = lo_len (en_log env) log;
               entry = entry_for (qi_sub q) (lo_head (en_log env) log) s;
               parent = map_option to_hex (e_parent entry)
           in case lo_append (en_log env) log entry of
             (Inr h, log') \<Rightarrow>
               (case lo_last (en_log env) log' of
                  None \<Rightarrow> None
                | Some appended \<Rightarrow>
                    (case po_accepted (en_policy env) p appended h of
                       None \<Rightarrow> None
                     | Some p' \<Rightarrow>
                         Some (release_slot
                                 ((journal_record env (st1\<lparr>wr_log := log'\<rparr>)
                                     (decision_event env p q True None (Some s) parent))\<lparr>wr_policy := p'\<rparr>)
                                 (qi_actor q),
                               acks @ [(qi_reply q,
                                        \<lparr>ac_seq = s, ac_hash = h,
                                         ac_decision_latency = tm_decision (en_time env) (qi_reply q)\<rparr>)])))
           | (Inl err, log') \<Rightarrow>
               (let reason = ''log append failed: '' @ en_show_error env err in
                Some (release_slot
                        (answer_to
                          (journal_record env (mark_failed (st1\<lparr>wr_log := log'\<rparr>))
                             (decision_event env p q False (Some reason) None parent))
                          (Decided (qi_reply q) (Inl reason)))
                        (qi_actor q), acks))))"

text \<open>The loop over the turns of one batch; a slot is taken once.\<close>

fun serve ::
  "('l, 'p) seq_env \<Rightarrow> ('l, 'p) writer \<Rightarrow> (nat \<times> accepted) list \<Rightarrow> queued option list \<Rightarrow> nat list \<Rightarrow>
   (('l, 'p) writer \<times> (nat \<times> accepted) list) option" where
  "serve env st acks slots [] = Some (st, acks)"
| "serve env st acks slots (i # turns) =
     (if i < length slots
      then (case slots ! i of
              None \<Rightarrow> serve env st acks slots turns
            | Some q \<Rightarrow>
                (case decide env st acks q of
                   None \<Rightarrow> None
                 | Some (st', acks') \<Rightarrow> serve env st' acks' (slots[i := None]) turns))
      else None)"

section \<open>Replication\<close>

fun replicate_batch ::
  "('l, 'p) seq_env \<Rightarrow> ('l, 'p) writer \<Rightarrow> nat \<Rightarrow> content_hash option \<Rightarrow> sequenced_entry list \<Rightarrow>
   ((replicate_error + replicated) \<times> ('l, 'p) writer) option" where
  "replicate_batch env st appended head [] = Some (Inr \<lparr>re_appended = appended, re_head = head\<rparr>, st)"
| "replicate_batch env st appended head (x # rest) =
     (let entry = sq_entry x;
          s = e_seq entry;
          log = wr_log st;
          refuse = (\<lambda>reason st. Some (Inl \<lparr>rx_seq = s, rx_reason = reason, rx_appended = appended\<rparr>, st));
          computed = en_hash env entry
      in if wr_durability_failed st then refuse stopped_reason st
         else if s \<noteq> lo_len (en_log env) log
         then refuse (''entry is at seq '' @ show_nat s @ '', and this log'' @ [CHR 0x27] @ ''s next position is '' @
                      show_nat (lo_len (en_log env) log)) st
         else if e_parent entry \<noteq> lo_head (en_log env) log
         then refuse (''entry'' @ [CHR 0x27] @ ''s parent is not this log'' @ [CHR 0x27] @
                      ''s head, so it continues another chain'') st
         else if computed \<noteq> sq_hash x
         then refuse (''entry hashes to '' @ to_hex computed @ '', and its source claimed '' @ to_hex (sq_hash x)) st
         else case po_replicable (en_policy env) (wr_policy st) entry of
           (Inl reason, p) \<Rightarrow> refuse reason (st\<lparr>wr_policy := p\<rparr>)
         | (Inr _, p) \<Rightarrow>
             (case lo_append (en_log env) log entry of
                (Inr h, log') \<Rightarrow>
                  (case lo_last (en_log env) log' of
                     None \<Rightarrow> None
                   | Some newest \<Rightarrow>
                       (case po_accepted (en_policy env) p newest h of
                          None \<Rightarrow> None
                        | Some p' \<Rightarrow>
                            replicate_batch env (st\<lparr>wr_log := log', wr_policy := p'\<rparr>) (appended + 1) (Some h) rest))
              | (Inl err, log') \<Rightarrow>
                  refuse (''log append failed: '' @ en_show_error env err)
                    (mark_failed (st\<lparr>wr_log := log', wr_policy := p\<rparr>))))"

section \<open>One wake-up\<close>

fun drain ::
  "queued list \<Rightarrow> command list \<Rightarrow>
   queued list \<times> bool \<times> (sequenced_entry list \<times> nat) option \<times> command list" where
  "drain queued [] = (queued, False, None, [])"
| "drain queued (CmdShutdown # cmds) = (queued, True, None, cmds)"
| "drain queued (CmdReplicate batch r # cmds) = (queued, False, Some (batch, r), cmds)"
| "drain queued (CmdSubmit sub actor r # cmds) =
     (let queued' = queued @ [\<lparr>qi_sub = sub, qi_actor = actor, qi_reply = r\<rparr>] in
      if length queued' \<ge> max_batch then (queued', False, None, cmds) else drain queued' cmds)"

definition outcome_appended :: "replicate_error + replicated \<Rightarrow> nat" where
  "outcome_appended outcome = (case outcome of Inr done \<Rightarrow> re_appended done | Inl stopped \<Rightarrow> rx_appended stopped)"

text \<open>The acknowledgements of the batch, each after its latency is recorded.\<close>

fun acknowledge ::
  "('l, 'p) seq_env \<Rightarrow> (log_error + unit) \<Rightarrow> nat \<Rightarrow> ('l, 'p) writer \<Rightarrow> (nat \<times> accepted) list \<Rightarrow> ('l, 'p) writer" where
  "acknowledge env durable batch st [] = st"
| "acknowledge env durable batch st ((r, a) # acks) =
     acknowledge env durable batch
       (case durable of
          Inr _ \<Rightarrow>
            answer_to (st\<lparr>wr_lag := lag_record (wr_lag st) (ac_seq a) (ac_decision_latency a)
                                       (tm_durable (en_time env) r) batch (tm_now (en_time env) r)\<rparr>)
              (Decided r (Inr a))
        | Inl err \<Rightarrow>
            answer_to st (Decided r (Inl (''ordered but not durable: '' @ en_show_error env err))))
       acks"

definition replicated_answer ::
  "('l, 'p) seq_env \<Rightarrow> (log_error + unit) \<Rightarrow> 'l \<Rightarrow> replicate_error + replicated \<Rightarrow> replicate_error + replicated" where
  "replicated_answer env durable log outcome =
     (case durable of
        Inl err \<Rightarrow>
          Inl \<lparr>rx_seq = lo_len (en_log env) log - outcome_appended outcome,
               rx_reason = ''appended but not durable: '' @ en_show_error env err, rx_appended = 0\<rparr>
      | Inr _ \<Rightarrow> outcome)"

definition barrier ::
  "('l, 'p) seq_env \<Rightarrow> ('l, 'p) writer \<Rightarrow> (nat \<times> accepted) list \<Rightarrow>
   (nat \<times> (replicate_error + replicated)) option \<Rightarrow> ('l, 'p) writer" where
  "barrier env st acks outcome =
     (let replicated_any = (case outcome of None \<Rightarrow> False | Some (_, oc) \<Rightarrow> outcome_appended oc > 0);
          (durable, log') = (if acks = [] \<and> \<not> replicated_any then (Inr (), wr_log st)
                             else lo_sync (en_log env) (wr_log st));
          st1 = st\<lparr>wr_log := log'\<rparr>;
          st2 = (case durable of Inl _ \<Rightarrow> mark_failed st1 | Inr _ \<Rightarrow> st1);
          st3 = acknowledge env durable (length acks) st2 acks
      in case outcome of
           None \<Rightarrow> st3
         | Some (r, oc) \<Rightarrow> answer_to st3 (ReplicateDone r (replicated_answer env durable log' oc)))"

definition wake ::
  "('l, 'p) seq_env \<Rightarrow> ('l, 'p) writer \<Rightarrow> command list \<Rightarrow> (('l, 'p) writer \<times> bool \<times> command list) option" where
  "wake env st cmds =
     (case drain [] cmds of
        (queued, stopping, replicating, rest) \<Rightarrow>
          (let slots = map Some queued in
           case serve env st [] slots (round_robin slots) of
             None \<Rightarrow> None
           | Some (st1, acks) \<Rightarrow>
               (let st2 = (if length queued > 1 then journal_record env st1 (QueueDepth (length queued)) else st1) in
                case (case replicating of
                        None \<Rightarrow> Some (None, st2)
                      | Some (batch, r) \<Rightarrow>
                          map_option (\<lambda>(oc, s). (Some (r, oc), s)) (replicate_batch env st2 0 None batch)) of
                  None \<Rightarrow> None
                | Some (outcome, st3) \<Rightarrow> Some (barrier env st3 acks outcome, stopping, rest))))"

text \<open>The end of the thread: a clean shutdown must not strand the buffer.\<close>

definition finish :: "('l, 'p) seq_env \<Rightarrow> ('l, 'p) writer \<Rightarrow> 'l" where
  "finish env st = snd (lo_sync (en_log env) (wr_log st))"

section \<open>Clients\<close>

text \<open>\<open>try_submit\<close> up to the send: an over-quota client is answered, nobody is parked.\<close>

definition try_submit :: "('l, 'p) writer \<Rightarrow> submission \<Rightarrow> nat \<Rightarrow> (string + command) \<times> ('l, 'p) writer" where
  "try_submit st sub r =
     (case quota_admit (wr_quotas st) (actor_of sub) of
        (Inl e, q) \<Rightarrow> (Inl e, st\<lparr>wr_quotas := q\<rparr>)
      | (Inr actor, q) \<Rightarrow> (Inr (CmdSubmit sub actor r), st\<lparr>wr_quotas := q\<rparr>))"

text \<open>\<open>try_submit_many\<close>: every submission is offered before a reply is awaited; \<open>r\<close> numbers the channels.\<close>

fun try_submit_many :: "('l, 'p) writer \<Rightarrow> submission list \<Rightarrow> nat \<Rightarrow> (string + command) list \<times> ('l, 'p) writer" where
  "try_submit_many st [] r = ([], st)"
| "try_submit_many st (sub # subs) r =
     (case try_submit st sub r of
        (offer, st') \<Rightarrow>
          (case try_submit_many st' subs (r + 1) of (offers, st'') \<Rightarrow> (offer # offers, st'')))"

definition durability_failed :: "('l, 'p) writer \<Rightarrow> bool" where
  "durability_failed st = wr_poisoned st"

end
