(* ===== verification/Sequencer_Inv.thy ===== *)
theory Sequencer_Inv
  imports Sequencer
begin

text \<open>
  What a wake-up of the sequencer does, against an abstract account of a batch: the outcome of each
  submission in the order it was served, the entries and acknowledgements that follow from the
  outcomes, and the entries of a replicated batch. Proved once for every \<open>durable_log\<close>; the
  properties are stated for the sequencer over \<open>FileLog\<close>.
\<close>

section \<open>The abstract account of a batch\<close>

text \<open>An outcome is the served submission with \<open>Some reason\<close> if it was refused.\<close>

fun entries_of :: "(op_entry \<Rightarrow> content_hash) \<Rightarrow> op_entry list \<Rightarrow> (queued \<times> string option) list \<Rightarrow> op_entry list" where
  "entries_of H xs [] = []"
| "entries_of H xs ((q, Some e) # outs) = entries_of H xs outs"
| "entries_of H xs ((q, None) # outs) =
     (let e = entry_for (qi_sub q) (chain_head H xs) (length xs) in e # entries_of H (xs @ [e]) outs)"

fun acks_of ::
  "timing \<Rightarrow> (op_entry \<Rightarrow> content_hash) \<Rightarrow> op_entry list \<Rightarrow> (queued \<times> string option) list \<Rightarrow> (nat \<times> accepted) list" where
  "acks_of T H xs [] = []"
| "acks_of T H xs ((q, Some e) # outs) = acks_of T H xs outs"
| "acks_of T H xs ((q, None) # outs) =
     (let e = entry_for (qi_sub q) (chain_head H xs) (length xs) in
      (qi_reply q, \<lparr>ac_seq = length xs, ac_hash = H e, ac_decision_latency = tm_decision T (qi_reply q)\<rparr>) #
      acks_of T H (xs @ [e]) outs)"

fun refusals :: "(queued \<times> string option) list \<Rightarrow> answer list" where
  "refusals [] = []"
| "refusals ((q, Some e) # outs) = Decided (qi_reply q) (Inl e) # refusals outs"
| "refusals ((q, None) # outs) = refusals outs"

lemma account_append:
  "entries_of H xs (outs @ outs') = entries_of H xs outs @ entries_of H (xs @ entries_of H xs outs) outs'"
  "acks_of T H xs (outs @ outs') = acks_of T H xs outs @ acks_of T H (xs @ entries_of H xs outs) outs'"
  "refusals (outs @ outs') = refusals outs @ refusals outs'"
  by (induction H xs outs rule: entries_of.induct) (auto simp: Let_def)

lemma acks_entries:
  "(r, a) \<in> set (acks_of T H xs outs) \<Longrightarrow>
     \<exists>q zs ws. (q, None) \<in> set outs \<and> qi_reply q = r \<and> entries_of H xs outs = zs @ entry_for (qi_sub q) (chain_head H (xs @ zs)) (length (xs @ zs)) # ws \<and>
       ac_seq a = length (xs @ zs) \<and> ac_hash a = H (entry_for (qi_sub q) (chain_head H (xs @ zs)) (length (xs @ zs)))"
proof (induction H xs outs rule: entries_of.induct)
  case (3 H xs q outs)
  let ?e = "entry_for (qi_sub q) (chain_head H xs) (length xs)"
  show ?case
  proof (cases "(r, a) \<in> set (acks_of T H (xs @ [?e]) outs)")
    case True
    then obtain q' zs ws where "(q', None) \<in> set outs" "qi_reply q' = r"
      "entries_of H (xs @ [?e]) outs = zs @ entry_for (qi_sub q') (chain_head H ((xs @ [?e]) @ zs)) (length ((xs @ [?e]) @ zs)) # ws"
      "ac_seq a = length ((xs @ [?e]) @ zs)"
      "ac_hash a = H (entry_for (qi_sub q') (chain_head H ((xs @ [?e]) @ zs)) (length ((xs @ [?e]) @ zs)))"
      using "3.IH" [of ?e] by blast
    then show ?thesis
      by (intro exI [of _ q'] exI [of _ "?e # zs"] exI [of _ ws]) (simp add: Let_def)
  next
    case False
    then show ?thesis
      using "3.prems" by (intro exI [of _ q] exI [of _ "[]"] exI) (auto simp: Let_def)
  qed
qed auto

definition ack_answers :: "('l, 'p) seq_env \<Rightarrow> (log_error + unit) \<Rightarrow> (nat \<times> accepted) list \<Rightarrow> answer list" where
  "ack_answers env durable acks =
     map (\<lambda>(r, a). Decided r (case durable of Inr _ \<Rightarrow> Inr a
                             | Inl err \<Rightarrow> Inl (''ordered but not durable: '' @ en_show_error env err))) acks"

lemma acknowledge_effect:
  "wr_answers (acknowledge env durable batch st acks) = wr_answers st @ ack_answers env durable acks \<and>
   wr_log (acknowledge env durable batch st acks) = wr_log st \<and>
   wr_quotas (acknowledge env durable batch st acks) = wr_quotas st \<and>
   wr_policy (acknowledge env durable batch st acks) = wr_policy st \<and>
   wr_durability_failed (acknowledge env durable batch st acks) = wr_durability_failed st \<and>
   wr_poisoned (acknowledge env durable batch st acks) = wr_poisoned st"
proof (induction acks arbitrary: st)
  case (Cons x acks)
  then show ?case by (cases x; cases durable) (simp_all add: ack_answers_def answer_to_def)
qed (simp add: ack_answers_def)

text \<open>The slots of a batch in the order of their turns.\<close>

definition in_turn :: "queued list \<Rightarrow> queued list" where
  "in_turn queued = map ((!) queued) (round_robin (map Some queued))"

lemma mset_in_turn: "mset (in_turn queued) = mset queued"
proof -
  have rr: "distinct (round_robin (map Some queued))" "set (round_robin (map Some queued)) = {..<length queued}"
    using round_robin_turns [of "map Some queued"] by auto
  then have "mset (round_robin (map Some queued)) = mset [0..<length queued]"
    by (intro set_eq_iff_mset_eq_distinct [THEN iffD1]) (auto simp: atLeast0LessThan)
  then have "mset (in_turn queued) = mset (map ((!) queued) [0..<length queued])"
    by (simp add: in_turn_def)
  then show ?thesis by (simp add: map_nth)
qed

text \<open>\<open>ys\<close> is what a replication of \<open>batch\<close> with the outcome \<open>oc\<close> appended.\<close>

definition replicated_prefix ::
  "(op_entry \<Rightarrow> content_hash) \<Rightarrow> sequenced_entry list \<Rightarrow> op_entry list \<Rightarrow> replicate_error + replicated \<Rightarrow> bool" where
  "replicated_prefix H batch ys oc \<longleftrightarrow>
     (let k = outcome_appended oc in
      k \<le> length batch \<and> ys = map sq_entry (take k batch) \<and>
      (\<forall>x \<in> set (take k batch). H (sq_entry x) = sq_hash x) \<and>
      (case oc of
         Inr d \<Rightarrow> k = length batch \<and> re_head d = (if batch = [] then None else Some (sq_hash (last batch)))
       | Inl err \<Rightarrow> k < length batch \<and> rx_seq err = e_seq (sq_entry (batch ! k))))"

lemma replicated_prefix_length: "replicated_prefix H batch ys oc \<Longrightarrow> outcome_appended oc = length ys"
  by (auto simp: replicated_prefix_def Let_def)

text \<open>The policy's \<open>accepted\<close> does not panic.\<close>

definition never_panics :: "('l, 'p) seq_env \<Rightarrow> bool" where
  "never_panics E \<longleftrightarrow> (\<forall>p e h. po_accepted (en_policy E) p e h \<noteq> None)"

lemma never_panics_fun:
  "never_panics E \<Longrightarrow> \<exists>f. \<forall>p e h. po_accepted (en_policy E) p e h = Some (f p e h)"
  by (intro exI [of _ "\<lambda>p e h. the (po_accepted (en_policy E) p e h)"]) (simp add: never_panics_def)

section \<open>Over any durable log\<close>

context durable_log
begin

abbreviation ops :: "'l log_ops" where
  "ops \<equiv> \<lparr>lo_append = app, lo_head = hd_of, lo_len = len, lo_last = last_of, lo_sync = sync\<rparr>"

definition held :: "('l, 'p) writer \<Rightarrow> op_entry list \<Rightarrow> bool" where
  "held st xs \<longleftrightarrow>
     sequenced H 0 None xs \<and> wr_poisoned st = wr_durability_failed st \<and>
     (if wr_durability_failed st then stuck (wr_log st) xs
      else ok (wr_log st) \<and> es (wr_log st) = xs)"

text \<open>\<open>ys\<close> was appended to a writer that held \<open>xs\<close>; what was safe is safe, and a failed writer is closed.\<close>

definition progress :: "('l, 'p) writer \<Rightarrow> op_entry list \<Rightarrow> ('l, 'p) writer \<Rightarrow> op_entry list \<Rightarrow> bool" where
  "progress st xs st' ys \<longleftrightarrow>
     held st' (xs @ ys) \<and>
     (\<forall>zs ws. xs = zs @ ws \<longrightarrow> safe (wr_log st) zs \<longrightarrow> safe (wr_log st') zs) \<and>
     (wr_durability_failed st \<longrightarrow> wr_durability_failed st' \<and> ys = [] \<and> wr_log st' = wr_log st)"

lemma progress_refl: "held st xs \<Longrightarrow> progress st xs st []"
  by (simp add: progress_def)

lemma progress_trans:
  assumes "progress st xs st1 ys" "progress st1 (xs @ ys) st2 zs"
  shows "progress st xs st2 (ys @ zs)"
  using assms unfolding progress_def by (metis append.right_neutral append_assoc)

text \<open>Steps that leave the log and the flags alone.\<close>

lemma progress_same:
  assumes "held st xs" "wr_log st' = wr_log st" "wr_durability_failed st' = wr_durability_failed st"
    "wr_poisoned st' = wr_poisoned st"
  shows "progress st xs st' []"
  using assms by (simp add: progress_def held_def)

lemma progress_appended:
  assumes "held st xs" "\<not> wr_durability_failed st" "app (wr_log st) e = (Inr h, l')"
    and "e_seq e = len (wr_log st)"
    and "wr_log st' = l'" "\<not> wr_durability_failed st'" "\<not> wr_poisoned st'"
  shows "progress st xs st' [e] \<and> h = H e"
proof -
  have ok: "ok (wr_log st)" "es (wr_log st) = xs" "sequenced H 0 None xs"
    using assms(1,2) by (auto simp: held_def)
  have new: "h = H e" "es l' = xs @ [e]" "ok l'" using app_Inr [OF ok(1) assms(3)] ok(2) by auto
  have "sequenced H 0 None (es l')"
    by (rule safe_prefix_append [OF ok(1) _ assms(4,3)]) (simp add: ok)
  moreover have "safe l' zs" if "xs = zs @ ws" "safe (wr_log st) zs" for zs ws
    using safe_append [OF ok(1) that(2) _ _ assms(4,3)] ok that(1) by simp
  ultimately show ?thesis
    using assms(2,5-7) new unfolding progress_def held_def by simp
qed

lemma progress_failed_append:
  assumes "held st xs" "\<not> wr_durability_failed st" "app (wr_log st) e = (Inl err, l')"
    and "e_seq e = len (wr_log st)"
    and "wr_log st' = l'" "wr_durability_failed st'" "wr_poisoned st'"
  shows "progress st xs st' []"
proof -
  have ok: "ok (wr_log st)" "es (wr_log st) = xs" "sequenced H 0 None xs"
    using assms(1,2) by (auto simp: held_def)
  have "safe l' zs" if "xs = zs @ ws" "safe (wr_log st) zs" for zs ws
    using safe_append [OF ok(1) that(2) _ _ assms(4,3)] ok that(1) by simp
  then show ?thesis
    using assms(2,5-7) app_Inl [OF ok(1) assms(3)] ok unfolding progress_def held_def by auto
qed

lemma decide_spec:
  assumes E: "en_log E = ops" and "held st xs" "decide E st acks q = Some (st', acks')"
  shows "\<exists>out. progress st xs st' (entries_of H xs [(q, out)]) \<and>
    acks' = acks @ acks_of (en_time E) H xs [(q, out)] \<and>
    wr_answers st' = wr_answers st @ refusals [(q, out)] \<and>
    wr_quotas st' = quota_release (wr_quotas st) (qi_actor q)"
proof (cases "wr_durability_failed st")
  case True
  then have st': "st' = release_slot (answer_to st (Decided (qi_reply q) (Inl stopped_reason))) (qi_actor q)" "acks' = acks"
    using assms(3) by (auto simp: decide_def)
  then have "progress st xs st' []"
    by (intro progress_same [OF assms(2)]) simp_all
  then show ?thesis
    using st' by (intro exI [of _ "Some stopped_reason"]) simp
next
  case False
  have ok: "ok (wr_log st)" "es (wr_log st) = xs" using assms(2) False by (auto simp: held_def)
  obtain c p where c: "po_check (en_policy E) (wr_policy st) (qi_sub q) = (c, p)" by (cases "po_check (en_policy E) (wr_policy st) (qi_sub q)")
  show ?thesis
  proof (cases c)
    case (Inl reason)
    have "acks' = acks \<and> wr_log st' = wr_log st \<and> wr_durability_failed st' = wr_durability_failed st \<and>
        wr_poisoned st' = wr_poisoned st \<and> wr_answers st' = wr_answers st @ [Decided (qi_reply q) (Inl reason)] \<and>
        wr_quotas st' = quota_release (wr_quotas st) (qi_actor q)"
      using assms(3) False c Inl
      by (auto simp: decide_def)
    then show ?thesis
      using progress_same [OF assms(2)] by (intro exI [of _ "Some reason"]) simp
  next
    case (Inr u)
    let ?e = "entry_for (qi_sub q) (hd_of (wr_log st)) (len (wr_log st))"
    have e: "?e = entry_for (qi_sub q) (chain_head H xs) (length xs)"
      using hd_es [OF ok(1)] len_es [OF ok(1)] ok(2) by simp
    have ev: "e_seq ?e = len (wr_log st)" by (simp add: entry_for_def)
    obtain a l' where a: "app (wr_log st) ?e = (a, l')" by (cases "app (wr_log st) ?e")
    show ?thesis
    proof (cases a)
      case err: (Inl err)
      have "acks' = acks \<and> wr_log st' = l' \<and> wr_durability_failed st' \<and> wr_poisoned st' \<and>
          wr_answers st' = wr_answers st @ [Decided (qi_reply q) (Inl (''log append failed: '' @ en_show_error E err))] \<and>
          wr_quotas st' = quota_release (wr_quotas st) (qi_actor q)"
        using assms(3) False c Inr a err
        by (auto simp: decide_def E Let_def)
      then show ?thesis
        using progress_failed_append [OF assms(2) False a [unfolded err] ev]
        by (intro exI [of _ "Some (''log append failed: '' @ en_show_error E err)"]) simp
    next
      case h: (Inr h)
      have "last_of l' = Some ?e" using last_new [OF ok(1)] a h by simp
      then have r: "acks' = acks @ [(qi_reply q, \<lparr>ac_seq = len (wr_log st), ac_hash = h,
              ac_decision_latency = tm_decision (en_time E) (qi_reply q)\<rparr>)] \<and>
          wr_log st' = l' \<and> wr_durability_failed st' = wr_durability_failed st \<and> wr_poisoned st' = wr_poisoned st \<and>
          wr_answers st' = wr_answers st \<and> wr_quotas st' = quota_release (wr_quotas st) (qi_actor q)"
        using assms(3) False c Inr a h
        by (auto simp: decide_def E Let_def split: option.splits)
      moreover have "\<not> wr_poisoned st" using assms(2) False by (simp add: held_def)
      ultimately have "progress st xs st' [?e] \<and> h = H ?e"
        using progress_appended [OF assms(2) False a [unfolded h] ev, of st'] False by simp
      then show ?thesis
        using r e len_es [OF ok(1)] ok(2) by (intro exI [of _ None]) (simp add: Let_def)
    qed
  qed
qed

lemma serve_spec:
  assumes E: "en_log E = ops" and "held st xs" "serve E st acks slots turns = Some (st', acks')"
    and "distinct turns" "\<forall>i \<in> set turns. i < length slots \<and> slots ! i \<noteq> None"
  shows "\<exists>outs. map fst outs = map (\<lambda>i. the (slots ! i)) turns \<and>
    progress st xs st' (entries_of H xs outs) \<and>
    acks' = acks @ acks_of (en_time E) H xs outs \<and>
    wr_answers st' = wr_answers st @ refusals outs \<and>
    wr_quotas st' = fold (\<lambda>q quotas. quota_release quotas (qi_actor q)) (map fst outs) (wr_quotas st)"
  using assms(2-)
proof (induction turns arbitrary: st xs acks slots)
  case Nil
  then show ?case using progress_refl by (intro exI [of _ "[]"]) simp
next
  case (Cons i turns)
  obtain q where q: "slots ! i = Some q" "i < length slots" using Cons.prems(4) by auto
  obtain st1 acks1 where d: "decide E st acks q = Some (st1, acks1)"
    and s: "serve E st1 acks1 (slots[i := None]) turns = Some (st', acks')"
    using Cons.prems(2) q by (auto split: option.splits)
  obtain out where out: "progress st xs st1 (entries_of H xs [(q, out)])"
      "acks1 = acks @ acks_of (en_time E) H xs [(q, out)]"
      "wr_answers st1 = wr_answers st @ refusals [(q, out)]"
      "wr_quotas st1 = quota_release (wr_quotas st) (qi_actor q)"
    using decide_spec [OF E Cons.prems(1) d] by blast
  have held: "held st1 (xs @ entries_of H xs [(q, out)])" using out(1) by (simp add: progress_def)
  have turns: "distinct turns" "\<forall>j \<in> set turns. j < length (slots[i := None]) \<and> slots[i := None] ! j \<noteq> None"
    using Cons.prems(3,4) by (auto simp: nth_list_update)
  have same: "map (\<lambda>j. the (slots[i := None] ! j)) turns = map (\<lambda>j. the (slots ! j)) turns"
    using Cons.prems(3) q(2) by (intro map_cong refl arg_cong [of _ _ the]) (auto simp: nth_list_update)
  obtain outs where outs: "map fst outs = map (\<lambda>j. the (slots ! j)) turns"
      "progress st1 (xs @ entries_of H xs [(q, out)]) st' (entries_of H (xs @ entries_of H xs [(q, out)]) outs)"
      "acks' = acks1 @ acks_of (en_time E) H (xs @ entries_of H xs [(q, out)]) outs"
      "wr_answers st' = wr_answers st1 @ refusals outs"
      "wr_quotas st' = fold (\<lambda>q quotas. quota_release quotas (qi_actor q)) (map fst outs) (wr_quotas st1)"
    using Cons.IH [OF held s turns] unfolding same by blast
  show ?case
    using outs out q progress_trans [OF out(1) outs(2)] account_append(1) [of H xs "[(q, out)]" outs] account_append(3) [of "[(q, out)]" outs]
      account_append(2) [of "en_time E" H xs "[(q, out)]" outs]
    by (intro exI [of _ "(q, out) # outs"]) simp
qed

lemma replicate_spec:
  assumes E: "en_log E = ops" "en_hash E = H" and "held st xs"
    and "replicate_batch E st n h batch = Some (oc, st')"
  shows "\<exists>k \<le> length batch. progress st xs st' (map sq_entry (take k batch)) \<and>
    (\<forall>x \<in> set (take k batch). H (sq_entry x) = sq_hash x) \<and> outcome_appended oc = n + k \<and>
    (\<forall>d. oc = Inr d \<longrightarrow> k = length batch \<and> re_head d = (if batch = [] then h else Some (sq_hash (last batch)))) \<and>
    (\<forall>err. oc = Inl err \<longrightarrow> k < length batch \<and> rx_seq err = e_seq (sq_entry (batch ! k))) \<and>
    wr_answers st' = wr_answers st \<and> wr_quotas st' = wr_quotas st"
  using assms(3-)
proof (induction batch arbitrary: st xs n h)
  case Nil
  then show ?case using progress_refl by (auto simp: outcome_appended_def)
next
  case (Cons x batch)
  let ?e = "sq_entry x" and ?log = "wr_log st"
  have refused: ?case
    if "oc = Inl \<lparr>rx_seq = e_seq ?e, rx_reason = reason, rx_appended = n\<rparr>" "progress st xs st' []"
      "wr_answers st' = wr_answers st" "wr_quotas st' = wr_quotas st" for reason
    using that by (intro exI [of _ 0]) (auto simp: outcome_appended_def)
  show ?case
  proof (cases "wr_durability_failed st \<or> e_seq ?e \<noteq> len ?log \<or> e_parent ?e \<noteq> hd_of ?log \<or> H ?e \<noteq> sq_hash x")
    case True
    then have "st' = st \<and> (\<exists>reason. oc = Inl \<lparr>rx_seq = e_seq ?e, rx_reason = reason, rx_appended = n\<rparr>)"
      using Cons.prems(2) by (auto simp: E Let_def split: if_splits)
    then show ?thesis using refused progress_refl [OF Cons.prems(1)] by blast
  next
    case go: False
    obtain c p where c: "po_replicable (en_policy E) (wr_policy st) ?e = (c, p)"
      by (cases "po_replicable (en_policy E) (wr_policy st) ?e")
    obtain a l' where a: "app ?log ?e = (a, l')" by (cases "app ?log ?e")
    have ok: "ok ?log" "es ?log = xs" "\<not> wr_poisoned st" using Cons.prems(1) go by (auto simp: held_def)
    have ev: "e_seq ?e = len ?log" using go by auto
    show ?thesis
    proof (cases "\<exists>reason. c = Inl reason")
      case True
      then obtain reason where "oc = Inl \<lparr>rx_seq = e_seq ?e, rx_reason = reason, rx_appended = n\<rparr>"
          "st' = st\<lparr>wr_policy := p\<rparr>"
        using Cons.prems(2) go c by (auto simp: E Let_def)
      then show ?thesis using refused progress_same [OF Cons.prems(1), of st'] by simp
    next
      case False
      then obtain u where c': "c = Inr u" by (cases c) auto
      show ?thesis
      proof (cases a)
        case (Inl err)
        then have "oc = Inl \<lparr>rx_seq = e_seq ?e, rx_reason = ''log append failed: '' @ en_show_error E err, rx_appended = n\<rparr>"
            "st' = mark_failed (st\<lparr>wr_log := l', wr_policy := p\<rparr>)"
          using Cons.prems(2) go c c' a by (auto simp: E Let_def)
        then show ?thesis
          using refused progress_failed_append [OF Cons.prems(1) _ a [unfolded Inl] ev, of st'] go by simp
      next
        case (Inr g)
        have l: "last_of l' = Some ?e" using last_new [OF ok(1)] a Inr by simp
        obtain p' where p': "po_accepted (en_policy E) p ?e g = Some p'"
          and rest: "replicate_batch E (st\<lparr>wr_log := l', wr_policy := p'\<rparr>) (n + 1) (Some g) batch = Some (oc, st')"
          using Cons.prems(2) go c c' a Inr l by (auto simp: E Let_def split: option.splits)
        let ?st1 = "st\<lparr>wr_log := l', wr_policy := p'\<rparr>"
        have p1: "progress st xs ?st1 [?e]" "g = H ?e"
          using progress_appended [OF Cons.prems(1) _ a [unfolded Inr] ev, of ?st1] go ok(3) by simp_all
        then have h1: "held ?st1 (xs @ [?e])" by (simp add: progress_def)
        from Cons.IH [OF h1 rest] obtain k where k: "k \<le> length batch"
          "progress ?st1 (xs @ [?e]) st' (map sq_entry (take k batch))"
          "\<forall>y \<in> set (take k batch). H (sq_entry y) = sq_hash y" "outcome_appended oc = (n + 1) + k"
          "\<forall>d. oc = Inr d \<longrightarrow> k = length batch \<and> re_head d = (if batch = [] then Some g else Some (sq_hash (last batch)))"
          "\<forall>err. oc = Inl err \<longrightarrow> k < length batch \<and> rx_seq err = e_seq (sq_entry (batch ! k))"
          "wr_answers st' = wr_answers st" "wr_quotas st' = wr_quotas st"
          by auto
        have "re_head d = Some (sq_hash x)" if "oc = Inr d" "batch = []" for d
          using rest that p1(2) go by auto
        then show ?thesis
          using k go progress_trans [OF p1(1) k(2)] by (intro exI [of _ "Suc k"]) auto
      qed
    qed
  qed
qed

text \<open>The barrier: what it answers, and that a batch it acknowledges is safe.\<close>

lemma barrier_spec:
  assumes E: "en_log E = ops" and "held st xs"
  shows "\<exists>durable log'. wr_log (barrier E st acks oc) = log' \<and> held (barrier E st acks oc) xs \<and>
    (\<forall>zs. safe (wr_log st) zs \<longrightarrow> safe log' zs) \<and>
    wr_answers (barrier E st acks oc) = wr_answers st @ ack_answers E durable acks @
      (case oc of None \<Rightarrow> [] | Some (r, o') \<Rightarrow> [ReplicateDone r (replicated_answer E durable log' o')]) \<and>
    wr_quotas (barrier E st acks oc) = wr_quotas st \<and>
    (durable = Inr () \<longrightarrow> acks \<noteq> [] \<or> (\<exists>r o'. oc = Some (r, o') \<and> outcome_appended o' > 0) \<longrightarrow> safe log' xs) \<and>
    (durable \<noteq> Inr () \<longrightarrow> wr_durability_failed (barrier E st acks oc)) \<and>
    (wr_durability_failed st \<longrightarrow> wr_durability_failed (barrier E st acks oc)) \<and>
    (\<not> (acks \<noteq> [] \<or> (\<exists>r o'. oc = Some (r, o') \<and> outcome_appended o' > 0)) \<longrightarrow> log' = wr_log st)"
proof -
  let ?any = "acks \<noteq> [] \<or> (\<exists>r o'. oc = Some (r, o') \<and> outcome_appended o' > 0)"
  define dl where "dl = (if ?any then sync (wr_log st) else (Inr (), wr_log st))"
  obtain durable log' where dl': "dl = (durable, log')" by (cases dl)
  define st1 where "st1 = (case durable of Inl _ \<Rightarrow> mark_failed (st\<lparr>wr_log := log'\<rparr>) | Inr _ \<Rightarrow> st\<lparr>wr_log := log'\<rparr>)"
  define st3 where "st3 = acknowledge E durable (length acks) st1 acks"
  have eq: "barrier E st acks oc = (case oc of None \<Rightarrow> st3
      | Some (r, o') \<Rightarrow> answer_to st3 (ReplicateDone r (replicated_answer E durable log' o')))"
    using dl' unfolding dl_def st3_def st1_def
    by (cases oc) (auto simp: barrier_def E Let_def split: if_splits prod.splits)
  have st1: "wr_log st1 = log'" "wr_answers st1 = wr_answers st" "wr_quotas st1 = wr_quotas st"
    "wr_durability_failed st1 = (wr_durability_failed st \<or> durable \<noteq> Inr ())"
    "wr_poisoned st1 = (wr_poisoned st \<or> durable \<noteq> Inr ())"
    by (cases durable; simp add: st1_def)+
  have stuck: "stuck (wr_log st) xs" "sequenced H 0 None xs"
    using assms(2) ok_stuck [of "wr_log st"] by (auto simp: held_def split: if_splits)
  have log': "stuck log' xs" "\<not> wr_durability_failed st \<longrightarrow> ok log' \<and> es log' = xs"
    "\<forall>zs. safe (wr_log st) zs \<longrightarrow> safe log' zs" "durable = Inr () \<longrightarrow> ?any \<longrightarrow> safe log' xs"
    "\<not> ?any \<longrightarrow> log' = wr_log st"
    using dl' assms(2) stuck stuck_sync [OF stuck(1), of durable log'] sync_ok [of "wr_log st" durable log']
      safe_sync [of "wr_log st" _ durable log'] sync_safe [OF stuck, of "()" log']
    unfolding dl_def by (auto simp: held_def split: if_splits)
  have "held st1 xs"
    using st1 log'(1,2) stuck(2) assms(2) by (auto simp: held_def)
  then have st3: "held st3 xs" "wr_log st3 = log'" "wr_answers st3 = wr_answers st @ ack_answers E durable acks"
    "wr_quotas st3 = wr_quotas st" "wr_durability_failed st3 = (wr_durability_failed st \<or> durable \<noteq> Inr ())"
    using acknowledge_effect [of E durable "length acks" st1 acks] st1 unfolding st3_def held_def by auto
  have "held (answer_to st3 a) xs" for a using st3(1) by (simp add: held_def)
  then show ?thesis
    using st3 log'(3-5) unfolding eq by (intro exI [of _ durable] exI [of _ log']) (auto split: option.splits)
qed

lemma length_acks: "length (acks_of T H xs outs) = length (entries_of H xs outs)"
  by (induction H xs outs rule: entries_of.induct) (auto simp: Let_def)

text \<open>One wake-up.\<close>

lemma wake_spec:
  assumes E: "en_log E = ops" "en_hash E = H" and held: "held st xs"
    and w: "wake E st cmds = Some (st', stop, rest)"
    and d: "drain [] cmds = (queued, stopping, replicating, rest')"
  shows "\<exists>outs ys durable rep. map fst outs = in_turn queued \<and> held st' (xs @ entries_of H xs outs @ ys) \<and>
    (\<forall>zs ws. xs = zs @ ws \<longrightarrow> safe (wr_log st) zs \<longrightarrow> safe (wr_log st') zs) \<and>
    wr_answers st' = wr_answers st @ refusals outs @ ack_answers E durable (acks_of (en_time E) H xs outs) @ rep \<and>
    wr_quotas st' = fold (\<lambda>q quotas. quota_release quotas (qi_actor q)) (in_turn queued) (wr_quotas st) \<and>
    (durable = Inr () \<longrightarrow> entries_of H xs outs @ ys \<noteq> [] \<longrightarrow> safe (wr_log st') (xs @ entries_of H xs outs @ ys)) \<and>
    (durable \<noteq> Inr () \<longrightarrow> wr_durability_failed st') \<and>
    (wr_durability_failed st \<longrightarrow> wr_durability_failed st' \<and> entries_of H xs outs @ ys = [] \<and> wr_log st' = wr_log st) \<and>
    (case replicating of None \<Rightarrow> ys = [] \<and> rep = []
     | Some (batch, r) \<Rightarrow> \<exists>o'. replicated_prefix H batch ys o' \<and> rep = [ReplicateDone r (replicated_answer E durable (wr_log st') o')]) \<and>
    stop = stopping \<and> rest = rest'"
proof -
  obtain st1 acks where s: "serve E st [] (map Some queued) (round_robin (map Some queued)) = Some (st1, acks)"
    using w by (auto simp: wake_def d Let_def split: option.splits)
  have "\<forall>i \<in> set (round_robin (map Some queued)). i < length (map Some queued) \<and> map Some queued ! i \<noteq> None"
    using round_robin_turns(2) [of "map Some queued"] by auto
  from serve_spec [OF E(1) held s round_robin_turns(1) this]
  obtain outs where outs: "map fst outs = map (\<lambda>i. the (map Some queued ! i)) (round_robin (map Some queued))"
      "progress st xs st1 (entries_of H xs outs)" "acks = acks_of (en_time E) H xs outs"
      "wr_answers st1 = wr_answers st @ refusals outs"
      "wr_quotas st1 = fold (\<lambda>q quotas. quota_release quotas (qi_actor q)) (map fst outs) (wr_quotas st)"
    by auto
  have turn: "map fst outs = in_turn queued"
    unfolding outs(1) in_turn_def using round_robin_turns(2) [of "map Some queued"] by (intro map_cong) auto
  define st2 where "st2 = (if length queued > 1 then journal_record E st1 (QueueDepth (length queued)) else st1)"
  have st2: "wr_log st2 = wr_log st1" "wr_answers st2 = wr_answers st1" "wr_quotas st2 = wr_quotas st1"
    "wr_durability_failed st2 = wr_durability_failed st1" "wr_poisoned st2 = wr_poisoned st1"
    by (simp_all add: st2_def)
  have h1: "held st1 (xs @ entries_of H xs outs)" using outs(2) by (simp add: progress_def)
  have p2: "progress st xs st2 (entries_of H xs outs)"
    using progress_trans [OF outs(2) progress_same [OF h1 st2(1,4,5)]] by simp
  then have h2: "held st2 (xs @ entries_of H xs outs)" by (simp add: progress_def)
  obtain oc st3 where oc: "(case replicating of None \<Rightarrow> Some (None, st2)
      | Some (batch, r) \<Rightarrow> map_option (\<lambda>(oc, s). (Some (r, oc), s)) (replicate_batch E st2 0 None batch)) = Some (oc, st3)"
    and st': "st' = barrier E st3 acks oc" "stop = stopping" "rest = rest'"
    using w s unfolding wake_def d st2_def by (auto simp: Let_def split: option.splits)
  obtain ys where ys: "progress st2 (xs @ entries_of H xs outs) st3 ys"
      "wr_answers st3 = wr_answers st2" "wr_quotas st3 = wr_quotas st2"
      "case replicating of None \<Rightarrow> ys = [] \<and> oc = None
       | Some (batch, r) \<Rightarrow> \<exists>o'. replicated_prefix H batch ys o' \<and> oc = Some (r, o')"
  proof (cases replicating)
    case None
    then show ?thesis using oc progress_refl [OF h2] that [of "[]"] by simp
  next
    case (Some br)
    obtain batch r where br: "br = (batch, r)" by (cases br)
    obtain o' where o': "replicate_batch E st2 0 None batch = Some (o', st3)" "oc = Some (r, o')"
      using oc Some br by auto
    from replicate_spec [OF E h2 o'(1)] obtain k where k: "k \<le> length batch"
        "progress st2 (xs @ entries_of H xs outs) st3 (map sq_entry (take k batch))"
        "\<forall>x \<in> set (take k batch). H (sq_entry x) = sq_hash x" "outcome_appended o' = k"
        "\<forall>d. o' = Inr d \<longrightarrow> k = length batch \<and> re_head d = (if batch = [] then None else Some (sq_hash (last batch)))"
        "\<forall>err. o' = Inl err \<longrightarrow> k < length batch \<and> rx_seq err = e_seq (sq_entry (batch ! k))"
        "wr_answers st3 = wr_answers st2" "wr_quotas st3 = wr_quotas st2"
      by auto
    then have "replicated_prefix H batch (map sq_entry (take k batch)) o'"
      unfolding replicated_prefix_def Let_def by (cases o') auto
    then show ?thesis using k that Some br o'(2) by simp
  qed
  have p3: "progress st xs st3 (entries_of H xs outs @ ys)" using progress_trans [OF p2 ys(1)] .
  then have h3: "held st3 (xs @ entries_of H xs outs @ ys)" by (simp add: progress_def)
  have any: "(acks \<noteq> [] \<or> (\<exists>r o'. oc = Some (r, o') \<and> outcome_appended o' > 0)) \<longleftrightarrow> entries_of H xs outs @ ys \<noteq> []"
  proof -
    have "acks \<noteq> [] \<longleftrightarrow> entries_of H xs outs \<noteq> []"
      using length_acks [of "en_time E" xs outs] outs(3) by (metis length_0_conv)
    moreover have "(\<exists>r o'. oc = Some (r, o') \<and> outcome_appended o' > 0) \<longleftrightarrow> ys \<noteq> []"
      using ys(4) by (cases replicating) (auto dest!: replicated_prefix_length)
    ultimately show ?thesis by simp
  qed
  from barrier_spec [OF E(1) h3, of acks oc, unfolded any]
  obtain durable where b: "held st' (xs @ entries_of H xs outs @ ys)"
      "\<forall>zs. safe (wr_log st3) zs \<longrightarrow> safe (wr_log st') zs"
      "wr_answers st' = wr_answers st3 @ ack_answers E durable acks @
        (case oc of None \<Rightarrow> [] | Some (r, o') \<Rightarrow> [ReplicateDone r (replicated_answer E durable (wr_log st') o')])"
      "wr_quotas st' = wr_quotas st3"
      "durable = Inr () \<longrightarrow> entries_of H xs outs @ ys \<noteq> [] \<longrightarrow> safe (wr_log st') (xs @ entries_of H xs outs @ ys)"
      "durable \<noteq> Inr () \<longrightarrow> wr_durability_failed st'" "wr_durability_failed st3 \<longrightarrow> wr_durability_failed st'"
      "entries_of H xs outs @ ys = [] \<longrightarrow> wr_log st' = wr_log st3"
    unfolding st'(1) [symmetric] by blast
  define rep where "rep = (case oc of None \<Rightarrow> [] | Some (r, o') \<Rightarrow> [ReplicateDone r (replicated_answer E durable (wr_log st') o')])"
  have "case replicating of None \<Rightarrow> ys = [] \<and> rep = []
     | Some (batch, r) \<Rightarrow> \<exists>o'. replicated_prefix H batch ys o' \<and> rep = [ReplicateDone r (replicated_answer E durable (wr_log st') o')]"
    using ys(4) unfolding rep_def by (cases replicating) auto
  moreover have "\<forall>zs ws. xs = zs @ ws \<longrightarrow> safe (wr_log st) zs \<longrightarrow> safe (wr_log st') zs"
    using p3 b(2) unfolding progress_def by blast
  moreover have "wr_durability_failed st \<longrightarrow>
      wr_durability_failed st' \<and> entries_of H xs outs @ ys = [] \<and> wr_log st' = wr_log st"
    using p3 b(7,8) unfolding progress_def by auto
  moreover have "wr_answers st' = wr_answers st @ refusals outs @ ack_answers E durable (acks_of (en_time E) H xs outs) @ rep"
    using b(3) ys(2) st2(2) outs(3,4) unfolding rep_def by simp
  moreover have "wr_quotas st' = fold (\<lambda>q quotas. quota_release quotas (qi_actor q)) (in_turn queued) (wr_quotas st)"
    using b(4) ys(3) st2(3) outs(5) turn by simp
  ultimately show ?thesis
    using turn b(1,5,6) st'(2,3) by (intro exI [of _ outs] exI [of _ ys] exI [of _ durable] exI [of _ rep] conjI) assumption+
qed

text \<open>With a policy that does not panic, a wake-up runs to its end.\<close>

lemma decide_returns:
  assumes E: "en_log E = ops" and "held st xs" "never_panics E"
  shows "decide E st acks q \<noteq> None"
proof (cases "wr_durability_failed st")
  case False
  then have ok: "ok (wr_log st)" using assms(2) by (simp add: held_def)
  obtain a l' where a: "app (wr_log st) (entry_for (qi_sub q) (hd_of (wr_log st)) (len (wr_log st))) = (a, l')"
    by (cases "app (wr_log st) (entry_for (qi_sub q) (hd_of (wr_log st)) (len (wr_log st)))")
  obtain f where f: "\<forall>p e h. po_accepted (en_policy E) p e h = Some (f p e h)"
    using never_panics_fun [OF assms(3)] by blast
  have "last_of l' \<noteq> None" if "a = Inr h" for h using last_new [OF ok a [unfolded that]] by simp
  then show ?thesis
    using False a f by (auto simp: decide_def E Let_def split: sum.splits prod.splits option.splits)
qed (simp add: decide_def)

lemma serve_returns:
  assumes E: "en_log E = ops" and "held st xs" "never_panics E"
    and "\<forall>i \<in> set turns. i < length slots"
  shows "serve E st acks slots turns \<noteq> None"
  using assms(2,4)
proof (induction turns arbitrary: st xs acks slots)
  case (Cons i turns)
  have i: "i < length slots" "\<forall>j \<in> set turns. j < length (slots[i := None])" using Cons.prems(2) by auto
  show ?case
  proof (cases "slots ! i")
    case None
    then show ?thesis using Cons.IH [OF Cons.prems(1), of slots acks] i by simp
  next
    case (Some q)
    obtain st1 acks1 where d: "decide E st acks q = Some (st1, acks1)"
      using decide_returns [OF E Cons.prems(1) assms(3), of acks q] by auto
    obtain out where "held st1 (xs @ entries_of H xs [(q, out)])"
      using decide_spec [OF E Cons.prems(1) d] by (auto simp: progress_def)
    then show ?thesis using Cons.IH [OF _ i(2)] i Some d by simp
  qed
qed simp

lemma replicate_returns:
  assumes E: "en_log E = ops" and "held st xs" "never_panics E"
  shows "replicate_batch E st n h batch \<noteq> None"
  using assms(2)
proof (induction batch arbitrary: st xs n h)
  case (Cons x batch)
  show ?case
  proof (cases "wr_durability_failed st \<or> e_seq (sq_entry x) \<noteq> len (wr_log st)")
    case False
    have ok: "ok (wr_log st)" "\<not> wr_poisoned st" using Cons.prems(1) False by (auto simp: held_def)
    obtain c p a l' where c: "po_replicable (en_policy E) (wr_policy st) (sq_entry x) = (c, p)"
      and a: "app (wr_log st) (sq_entry x) = (a, l')"
      by (metis surj_pair)
    have cont: "last_of l' = Some (sq_entry x) \<and>
        replicate_batch E (st\<lparr>wr_log := l', wr_policy := p'\<rparr>) m g batch \<noteq> None" if "a = Inr h'" for h' p' m g
    proof -
      have "progress st xs (st\<lparr>wr_log := l', wr_policy := p'\<rparr>) [sq_entry x]"
        using progress_appended [OF Cons.prems(1) _ a [unfolded that]] False ok(2) by simp
      then show ?thesis
        using Cons.IH last_new [OF ok(1) a [unfolded that]] by (auto simp: progress_def)
    qed
    show ?thesis
    proof (cases a)
      case (Inl err)
      then show ?thesis using c a by (simp add: E Let_def split: sum.split)
    next
      case (Inr h')
      obtain f where "\<forall>p e h. po_accepted (en_policy E) p e h = Some (f p e h)"
        using never_panics_fun [OF assms(3)] by blast
      then show ?thesis using c a Inr cont [OF Inr] by (simp add: E Let_def split: sum.split)
    qed
  qed (auto simp: E Let_def)
qed simp

lemma wake_returns:
  assumes E: "en_log E = ops" and held: "held st xs" and p: "never_panics E"
    and d: "drain [] cmds = (queued, stopping, replicating, rest)"
  shows "\<exists>st'. wake E st cmds = Some (st', stopping, rest)"
proof -
  let ?slots = "map Some queued" and ?turns = "round_robin (map Some queued)"
  have t: "\<forall>i \<in> set ?turns. i < length ?slots \<and> ?slots ! i \<noteq> None"
    using round_robin_turns(2) [of ?slots] by auto
  then obtain st1 acks where s: "serve E st [] ?slots ?turns = Some (st1, acks)"
    using serve_returns [OF E held p, of ?turns ?slots "[]"] by auto
  obtain outs where outs: "progress st xs st1 (entries_of H xs outs)"
    using serve_spec [OF E held s round_robin_turns(1) t] by blast
  let ?st2 = "if length queued > 1 then journal_record E st1 (QueueDepth (length queued)) else st1"
  have h1: "held st1 (xs @ entries_of H xs outs)" using outs by (simp add: progress_def)
  then have h2: "held ?st2 (xs @ entries_of H xs outs)" by (simp add: held_def)
  note start = wake_def d prod.case Let_def s option.case
  show ?thesis
  proof (cases replicating)
    case None
    then show ?thesis unfolding start by simp
  next
    case (Some br)
    obtain batch r where br: "br = (batch, r)" by (cases br)
    obtain oc st3 where "replicate_batch E ?st2 0 None batch = Some (oc, st3)"
      using replicate_returns [OF E h2 p, of 0 None batch] by (auto simp del: replicate_batch.simps)
    then show ?thesis unfolding start Some br by simp
  qed
qed

end

end
