(* ===== verification/Sequencer_Run.thy ===== *)
theory Sequencer_Run
  imports Sequencer_Inv
begin

text \<open>
  The sequencer over \<open>FileLog\<close>, as \<open>choir serve\<close> runs it: the states its writer thread reaches, and
  what its answers promise. The environment fixes the log operations to those of \<open>FileLog\<close> and the
  hash to \<open>OpEntry::content_hash\<close>; the policy, the durations and the commands are arbitrary.
\<close>

section \<open>The writer over a file\<close>

definition file_log_ops :: "('a) externals_scheme \<Rightarrow> file_log log_ops" where
  "file_log_ops X = \<lparr>lo_append = fl_append X, lo_head = fl_head, lo_len = fl_len, lo_last = fl_last, lo_sync = fl_sync\<rparr>"

definition over_file :: "('a) externals_scheme \<Rightarrow> (file_log, 'p) seq_env \<Rightarrow> bool" where
  "over_file X E \<longleftrightarrow> en_log E = file_log_ops X \<and> en_hash E = entry_hash X"

text \<open>
  The states of the writer, with the commands it was handed: it starts on a log that opened, clients
  take quota slots and read the meter while it waits, and each wake-up runs to its end.
\<close>

inductive file_writer ::
  "('a) externals_scheme \<Rightarrow> (file_log, 'p) seq_env \<Rightarrow> command list \<Rightarrow> (file_log, 'p) writer \<Rightarrow> bool"
  for X E where
  started: "fl_ok X l \<Longrightarrow> replayable X 0 None (fl_entries X l) \<Longrightarrow> file_writer X E [] (spawn l p)"
| client: "file_writer X E cs st \<Longrightarrow> file_writer X E cs (st\<lparr>wr_quotas := q, wr_lag := m\<rparr>)"
| woken: "file_writer X E cs st \<Longrightarrow> wake E st cmds = Some (st', stop, rest) \<Longrightarrow>
    file_writer X E (cs @ cmds) st'"

text \<open>
  The record of \<open>e\<close> is durable in the file at position \<open>i\<close>; the file opens again with \<open>e\<close> at position \<open>i\<close>
  after any power cuts.
\<close>

definition stored :: "('a) externals_scheme \<Rightarrow> file_log \<Rightarrow> nat \<Rightarrow> op_entry \<Rightarrow> bool" where
  "stored X l i e \<longleftrightarrow> (\<exists>es. i < length es \<and> es ! i = e \<and> durable_prefix X (fl_disk l) es)"

definition survives :: "('a) externals_scheme \<Rightarrow> file_log \<Rightarrow> nat \<Rightarrow> op_entry \<Rightarrow> bool" where
  "survives X l i e \<longleftrightarrow> reopens X (fl_disk l) (\<lambda>l3. fl_get X l3 i = Some e)"

text \<open>
  What a writer that was handed the commands \<open>cs\<close> can promise of an entry: its record is durable, and
  it survives if every entry among the replicated ones had the format version of this build. Nothing
  checks that version when an entry is replicated.
\<close>

fun own_version :: "command \<Rightarrow> bool" where
  "own_version (CmdReplicate batch r) = (\<forall>x \<in> set batch. e_format_version (sq_entry x) = format_version_1)"
| "own_version _ = True"

definition kept :: "('a) externals_scheme \<Rightarrow> command list \<Rightarrow> file_log \<Rightarrow> nat \<Rightarrow> op_entry \<Rightarrow> bool" where
  "kept X cs l i e \<longleftrightarrow> stored X l i e \<and> ((\<forall>c \<in> set cs. own_version c) \<longrightarrow> survives X l i e)"

section \<open>The invariant\<close>

abbreviation file_held :: "('a) externals_scheme \<Rightarrow> (file_log, 'p) writer \<Rightarrow> op_entry list \<Rightarrow> bool" where
  "file_held X \<equiv> durable_log.held (entry_hash X) (fl_entries X) (fl_ok X) (fl_stuck X)"

fun answer_kept :: "('a) externals_scheme \<Rightarrow> op_entry list \<Rightarrow> answer \<Rightarrow> bool" where
  "answer_kept X zs (Decided r (Inr a)) = (ac_seq a < length zs \<and> entry_hash X (zs ! ac_seq a) = ac_hash a)"
| "answer_kept X zs (ReplicateDone r (Inr d)) = (\<forall>h. re_head d = Some h \<longrightarrow> h \<in> entry_hash X ` set zs)"
| "answer_kept X zs _ = True"

lemma answer_kept_more: "answer_kept X zs a \<Longrightarrow> answer_kept X (zs @ ws) a"
  by (induction X zs a rule: answer_kept.induct) (auto simp: nth_append)

lemma held_kept:
  assumes "file_held X st (zs @ ws)" "fl_safe X (wr_log st) zs" "i < length zs"
    and "(\<forall>c \<in> set cs. own_version c) \<Longrightarrow> own_entries (zs @ ws)"
  shows "kept X cs (wr_log st) i (zs ! i)"
proof -
  have stuck: "fl_stuck X (wr_log st) (zs @ ws)" and seqd: "sequenced (entry_hash X) 0 None (zs @ ws)"
    using assms(1) fl_dur.ok_stuck [of X "wr_log st"] by (auto simp: fl_dur.held_def split: if_splits)
  have "stored X (wr_log st) i (zs ! i)"
    using fl_safe_durable [OF assms(2)] assms(3) unfolding stored_def by blast
  moreover have "survives X (wr_log st) i (zs ! i)" if "\<forall>c \<in> set cs. own_version c"
    unfolding survives_def
  proof (rule fl_safe_reopens [OF assms(2) stuck])
    show "replayable X 0 None (zs @ ws)" using seqd assms(4) [OF that] by (simp add: replayable_sequenced)
    fix l3 ys assume "fl_ok X l3" "fl_entries X l3 = zs @ ys"
    then show "fl_get X l3 i = Some (zs ! i)" using flog.nth_es [of X l3 i] assms(3) by (simp add: nth_append)
  qed
  ultimately show ?thesis by (simp add: kept_def)
qed

definition writer_inv ::
  "('a) externals_scheme \<Rightarrow> command list \<Rightarrow> (file_log, 'p) writer \<Rightarrow> op_entry list \<Rightarrow> bool" where
  "writer_inv X cs st xs \<longleftrightarrow>
     file_held X st xs \<and> ((\<forall>c \<in> set cs. own_version c) \<longrightarrow> own_entries xs) \<and>
     (\<exists>zs ws. xs = zs @ ws \<and> fl_safe X (wr_log st) zs \<and> (\<forall>a \<in> set (wr_answers st). answer_kept X zs a))"

lemma drain_replicate:
  "drain queued cmds = (queued', stop, Some (batch, r), rest) \<Longrightarrow> CmdReplicate batch r \<in> set cmds"
  by (induction queued cmds rule: drain.induct) (auto simp: Let_def split: if_splits)

lemma refusals_kept: "a \<in> set (refusals outs) \<Longrightarrow> answer_kept X zs a"
  by (induction outs rule: refusals.induct) auto

lemma acks_kept:
  "a \<in> set (ack_answers E durable (acks_of T (entry_hash X) xs outs)) \<Longrightarrow>
     answer_kept X (xs @ entries_of (entry_hash X) xs outs) a"
  using acks_entries [of _ _ T "entry_hash X" xs outs]
  by (cases durable) (fastforce simp: ack_answers_def nth_append)+

lemma own_entries_of: "own_entries (entries_of H xs outs)"
  by (induction H xs outs rule: entries_of.induct) (simp_all add: Let_def entry_for_def)

lemma own_replicated:
  "replicated_prefix H batch ys oc \<Longrightarrow> own_version (CmdReplicate batch r) \<Longrightarrow> own_entries ys"
  by (auto simp: replicated_prefix_def own_entries_def Let_def dest: in_set_takeD)

lemma own_appended:
  assumes "drain [] cmds = (queued, stopping, replicating, rest)" "\<forall>c \<in> set cmds. own_version c"
    and "case replicating of None \<Rightarrow> ys = [] \<and> rep = []
     | Some (batch, r) \<Rightarrow> \<exists>o'. replicated_prefix (entry_hash X) batch ys o' \<and>
         rep = [ReplicateDone r (replicated_answer E durable l o')]"
  shows "own_entries (entries_of (entry_hash X) xs outs @ ys)"
proof (cases replicating)
  case None
  then show ?thesis using assms(3) own_entries_of by simp
next
  case (Some br)
  obtain batch r where br: "br = (batch, r)" by (cases br)
  have "own_version (CmdReplicate batch r)" using assms(1,2) drain_replicate Some br by blast
  moreover obtain o' where "replicated_prefix (entry_hash X) batch ys o'" using assms(3) Some br by auto
  ultimately show ?thesis using own_replicated own_entries_of by simp
qed

lemma wake_file:
  assumes "over_file X E" "file_held X st xs"
    and "wake E st cmds = Some (st', stop, rest)" "drain [] cmds = (queued, stopping, replicating, rest')"
  obtains outs ys durable rep where "map fst outs = in_turn queued"
    "file_held X st' (xs @ entries_of (entry_hash X) xs outs @ ys)"
    "\<forall>zs ws. xs = zs @ ws \<longrightarrow> fl_safe X (wr_log st) zs \<longrightarrow> fl_safe X (wr_log st') zs"
    "wr_answers st' = wr_answers st @ refusals outs @
       ack_answers E durable (acks_of (en_time E) (entry_hash X) xs outs) @ rep"
    "wr_quotas st' = fold (\<lambda>q quotas. quota_release quotas (qi_actor q)) (in_turn queued) (wr_quotas st)"
    "durable = Inr () \<Longrightarrow> entries_of (entry_hash X) xs outs @ ys \<noteq> [] \<Longrightarrow>
       fl_safe X (wr_log st') (xs @ entries_of (entry_hash X) xs outs @ ys)"
    "durable \<noteq> Inr () \<Longrightarrow> wr_durability_failed st'"
    "wr_durability_failed st \<Longrightarrow> wr_durability_failed st' \<and> entries_of (entry_hash X) xs outs @ ys = [] \<and>
       wr_log st' = wr_log st"
    "case replicating of None \<Rightarrow> ys = [] \<and> rep = []
     | Some (batch, r) \<Rightarrow> \<exists>o'. replicated_prefix (entry_hash X) batch ys o' \<and>
         rep = [ReplicateDone r (replicated_answer E durable (wr_log st') o')]"
    "stop = stopping" "rest = rest'"
proof -
  have E: "en_log E = \<lparr>lo_append = fl_append X, lo_head = fl_head, lo_len = fl_len, lo_last = fl_last, lo_sync = fl_sync\<rparr>"
    "en_hash E = entry_hash X"
    using assms(1) by (simp_all add: over_file_def file_log_ops_def)
  show thesis
    using fl_dur.wake_spec [OF E assms(2-4)] that by blast
qed

lemma wake_file_returns:
  assumes "over_file X E" "file_held X st xs" "never_panics E"
    and "drain [] cmds = (queued, stopping, replicating, rest)"
  shows "\<exists>st'. wake E st cmds = Some (st', stopping, rest)"
proof -
  have E: "en_log E = \<lparr>lo_append = fl_append X, lo_head = fl_head, lo_len = fl_len, lo_last = fl_last, lo_sync = fl_sync\<rparr>"
    using assms(1) by (simp add: over_file_def file_log_ops_def)
  show ?thesis by (rule fl_dur.wake_returns [OF E assms(2-4)])
qed

lemma refused_answers: "Decided r (Inr a) \<notin> set (refusals outs)" "ReplicateDone r b \<notin> set (refusals outs)"
  by (induction outs rule: refusals.induct) auto

lemma replicated_kept:
  assumes "replicated_prefix (entry_hash X) batch ys oc" "durable = Inr () \<Longrightarrow> set ys \<subseteq> set zs"
  shows "answer_kept X zs (ReplicateDone r (replicated_answer E durable l oc))"
proof (cases "durable = Inr ()")
  case True
  show ?thesis
  proof (cases oc)
    case (Inr d)
    then have d: "ys = map sq_entry batch" "\<forall>x \<in> set batch. entry_hash X (sq_entry x) = sq_hash x"
      "re_head d = (if batch = [] then None else Some (sq_hash (last batch)))"
      using assms(1) by (auto simp: replicated_prefix_def Let_def)
    have "sq_hash (last batch) \<in> entry_hash X ` set zs" if "batch \<noteq> []"
    proof -
      have "sq_entry (last batch) \<in> set zs" "entry_hash X (sq_entry (last batch)) = sq_hash (last batch)"
        using assms(2) [OF True] d(1,2) that by auto
      then show ?thesis by (metis imageI)
    qed
    then show ?thesis using Inr True d(3) by (simp add: replicated_answer_def)
  qed (use True in \<open>simp add: replicated_answer_def\<close>)
qed (cases durable; simp add: replicated_answer_def)

lemma writer_inv_wake:
  assumes E: "over_file X E" and inv: "writer_inv X cs st xs" and w: "wake E st cmds = Some (st', stop, rest)"
  shows "\<exists>ys. writer_inv X (cs @ cmds) st' (xs @ ys)"
proof -
  obtain zs ws where zs: "file_held X st xs" "xs = zs @ ws" "fl_safe X (wr_log st) zs"
      "\<forall>a \<in> set (wr_answers st). answer_kept X zs a" "(\<forall>c \<in> set cs. own_version c) \<longrightarrow> own_entries xs"
    using inv unfolding writer_inv_def by blast
  obtain queued stopping replicating rest' where d: "drain [] cmds = (queued, stopping, replicating, rest')"
    by (metis surj_pair)
  obtain outs ys durable rep where w': "map fst outs = in_turn queued"
      "file_held X st' (xs @ entries_of (entry_hash X) xs outs @ ys)"
      "\<forall>zs ws. xs = zs @ ws \<longrightarrow> fl_safe X (wr_log st) zs \<longrightarrow> fl_safe X (wr_log st') zs"
      "wr_answers st' = wr_answers st @ refusals outs @
         ack_answers E durable (acks_of (en_time E) (entry_hash X) xs outs) @ rep"
      "durable = Inr () \<Longrightarrow> entries_of (entry_hash X) xs outs @ ys \<noteq> [] \<Longrightarrow>
         fl_safe X (wr_log st') (xs @ entries_of (entry_hash X) xs outs @ ys)"
      "case replicating of None \<Rightarrow> ys = [] \<and> rep = []
       | Some (batch, r) \<Rightarrow> \<exists>o'. replicated_prefix (entry_hash X) batch ys o' \<and>
           rep = [ReplicateDone r (replicated_answer E durable (wr_log st') o')]"
    by (rule wake_file [OF E zs(1) w d]) blast
  let ?new = "entries_of (entry_hash X) xs outs @ ys"
  obtain zs' ws' where zs': "xs @ ?new = zs' @ ws'" "fl_safe X (wr_log st') zs'" "\<exists>us. zs' = zs @ us"
    "durable = Inr () \<longrightarrow> (?new = [] \<or> zs' = xs @ ?new)"
  proof (cases "durable = Inr () \<and> ?new \<noteq> []")
    case True
    then show ?thesis using that [of "xs @ ?new" "[]"] w'(5) zs(2) by simp
  next
    case False
    then show ?thesis using that [of zs "ws @ ?new"] w'(3) zs(2,3) by auto
  qed
  have "answer_kept X zs' a" if "a \<in> set (wr_answers st)" for a
    using zs(4) that zs'(3) answer_kept_more by blast
  moreover have "answer_kept X zs' a" if a: "a \<in> set (ack_answers E durable (acks_of (en_time E) (entry_hash X) xs outs))" for a
  proof (cases "durable = Inr ()")
    case True
    have "entries_of (entry_hash X) xs outs \<noteq> []"
      using a fl_dur.length_acks [of "en_time E" X xs outs] by (auto simp: ack_answers_def)
    then show ?thesis
      using zs'(4) True answer_kept_more [OF acks_kept [OF a], of ys] by simp
  next
    case False
    then obtain err where "durable = Inl err" by (cases durable) auto
    then show ?thesis using a by (auto simp: ack_answers_def)
  qed
  moreover have "answer_kept X zs' a" if a: "a \<in> set rep" for a
  proof -
    obtain batch r o' where o': "replicated_prefix (entry_hash X) batch ys o'"
        "rep = [ReplicateDone r (replicated_answer E durable (wr_log st') o')]"
      using w'(6) a by (cases replicating) auto
    have "durable = Inr () \<Longrightarrow> set ys \<subseteq> set zs'" using zs'(4) by auto
    then have "answer_kept X zs' (ReplicateDone r (replicated_answer E durable (wr_log st') o'))"
      by (rule replicated_kept [OF o'(1)])
    then show ?thesis using a o'(2) by simp
  qed
  ultimately have "\<forall>a \<in> set (wr_answers st'). answer_kept X zs' a"
    using refusals_kept unfolding w'(4) by auto
  moreover have "(\<forall>c \<in> set (cs @ cmds). own_version c) \<longrightarrow> own_entries (xs @ ?new)"
    using zs(5) own_appended [OF d _ w'(6), of xs outs] by simp
  ultimately have "writer_inv X (cs @ cmds) st' (xs @ ?new)"
    using w'(2) zs'(1,2) unfolding writer_inv_def by blast
  then show ?thesis by blast
qed

lemma file_writer_inv:
  assumes "over_file X E" "file_writer X E cs st"
  shows "\<exists>xs. writer_inv X cs st xs"
  using assms(2)
proof (induction rule: file_writer.induct)
  case (started l p)
  have "fl_safe X l []"
    using started fl_ok_stream [OF started(1)] replayable_sequenced unfolding fl_safe_def
    by (intro conjI exI [of _ "fl_entries X l"] exI [of _ "[]"]) auto
  moreover have "file_held X (spawn l p) (fl_entries X l)"
    using started unfolding fl_dur.held_def by (simp add: spawn_def replayable_sequenced)
  ultimately have "writer_inv X [] (spawn l p) (fl_entries X l)"
    unfolding writer_inv_def by (intro conjI exI [of _ "[]"] exI [of _ "fl_entries X l"]) (use started in \<open>simp_all add: spawn_def replayable_sequenced\<close>)
  then show ?case by blast
next
  case (client cs st m q)
  then obtain xs where "writer_inv X cs st xs" by blast
  then have "writer_inv X cs (st\<lparr>wr_quotas := q, wr_lag := m\<rparr>) xs" by (simp add: writer_inv_def fl_dur.held_def)
  then show ?case by blast
next
  case (woken cs st cmds st' stop rest)
  then show ?case using writer_inv_wake [OF assms(1)] by blast
qed

section \<open>What an answer promises\<close>

text \<open>
  C3: an acknowledgement is a promise that a crash does not break. For every answer \<open>Ok\<close> the writer ever
  sent for a submission, whatever it was handed and however it failed since, the record of an entry
  with the acknowledged hash is durable in the file at the acknowledged position. If every replicated
  entry among what it was handed had the format version of this build, the file also opens again
  with that entry at that position after any power cuts and failed attempts to open, or reports an
  I/O error while the device does not let the repair of its torn tail through.
\<close>

theorem acknowledged_survives:
  assumes "over_file X E" "file_writer X E cs st" "Decided r (Inr a) \<in> set (wr_answers st)"
  shows "\<exists>e. entry_hash X e = ac_hash a \<and> stored X (wr_log st) (ac_seq a) e \<and>
    ((\<forall>c \<in> set cs. own_version c) \<longrightarrow> survives X (wr_log st) (ac_seq a) e)"
proof -
  obtain xs where "writer_inv X cs st xs" using file_writer_inv [OF assms(1,2)] by blast
  then obtain zs ws where zs: "file_held X st (zs @ ws)" "fl_safe X (wr_log st) zs"
      "answer_kept X zs (Decided r (Inr a))" "(\<forall>c \<in> set cs. own_version c) \<Longrightarrow> own_entries (zs @ ws)"
    using assms(3) unfolding writer_inv_def by blast
  then show ?thesis using held_kept [OF zs(1,2) _ zs(4), of "ac_seq a" cs] by (auto simp: kept_def)
qed

text \<open>The replies of a batch, and the slots it gives back.\<close>

fun decided_reply :: "answer \<Rightarrow> nat option" where
  "decided_reply (Decided r _) = Some r"
| "decided_reply (ReplicateDone _ _) = None"

lemma batch_replies:
  "mset (List.map_filter decided_reply (refusals outs @ ack_answers E durable (acks_of T H xs outs))) =
     mset (map (qi_reply \<circ> fst) outs)"
proof (induction H xs outs rule: entries_of.induct)
  case (3 H xs q outs)
  then show ?case by (auto simp: ack_answers_def map_filter_simps map_filter_def Let_def)
qed (auto simp: ack_answers_def map_filter_simps map_filter_def)

lemma release_all:
  "quota_run cap q (out + mset (map qi_actor qs)) \<Longrightarrow>
     quota_run cap (fold (\<lambda>x quotas. quota_release quotas (qi_actor x)) qs q) out"
proof (induction qs arbitrary: q)
  case (Cons x qs)
  have "quota_run cap (quota_release q (qi_actor x)) (out + mset (map qi_actor (x # qs)) - {#qi_actor x#})"
    by (rule quota_run.released [OF Cons.prems]) simp
  then show ?case using Cons.IH by simp
qed simp

text \<open>
  C4: every drained submission is answered, once. With a policy whose \<open>accepted\<close> does not panic, a wake-up
  ends; the answers it sends to submitters go to the reply channels of the drained submissions, one
  each; an answer \<open>Ok\<close> names a position where the record of the submission's own entry is durable, and
  where that entry survives power cuts if every replicated entry the writer was handed until then had
  the format version of this build (the file then opens with it, or reports an I/O error while the
  device does not let the repair through); and each of them gives its quota slot back, so the table
  counts what is still awaited.
\<close>

theorem every_submission_answered:
  assumes "over_file X E" "file_writer X E cs st" "never_panics E"
    and "drain [] cmds = (queued, stopping, replicating, rest)"
  shows "\<exists>st' new. wake E st cmds = Some (st', stopping, rest) \<and> wr_answers st' = wr_answers st @ new \<and>
    mset (List.map_filter decided_reply new) = mset (map qi_reply queued) \<and>
    (\<forall>r a. Decided r (Inr a) \<in> set new \<longrightarrow>
       (\<exists>q \<in> set queued. qi_reply q = r \<and>
          (\<exists>h. kept X (cs @ cmds) (wr_log st') (ac_seq a) (entry_for (qi_sub q) h (ac_seq a))))) \<and>
    (\<forall>cap out. quota_run cap (wr_quotas st) (out + mset (map qi_actor queued)) \<longrightarrow> quota_run cap (wr_quotas st') out)"
proof -
  obtain xs where xs: "file_held X st xs" "(\<forall>c \<in> set cs. own_version c) \<longrightarrow> own_entries xs"
    using file_writer_inv [OF assms(1,2)] by (auto simp: writer_inv_def)
  obtain st' where w: "wake E st cmds = Some (st', stopping, rest)" using wake_file_returns [OF assms(1) xs(1) assms(3,4)] by blast
  obtain outs ys durable rep where w': "map fst outs = in_turn queued"
      "wr_answers st' = wr_answers st @ refusals outs @
         ack_answers E durable (acks_of (en_time E) (entry_hash X) xs outs) @ rep"
      "wr_quotas st' = fold (\<lambda>q quotas. quota_release quotas (qi_actor q)) (in_turn queued) (wr_quotas st)"
      "durable = Inr () \<Longrightarrow> entries_of (entry_hash X) xs outs @ ys \<noteq> [] \<Longrightarrow>
         fl_safe X (wr_log st') (xs @ entries_of (entry_hash X) xs outs @ ys)"
      "case replicating of None \<Rightarrow> ys = [] \<and> rep = []
       | Some (batch, r) \<Rightarrow> \<exists>o'. replicated_prefix (entry_hash X) batch ys o' \<and>
           rep = [ReplicateDone r (replicated_answer E durable (wr_log st') o')]"
      "file_held X st' (xs @ entries_of (entry_hash X) xs outs @ ys)"
    by (rule wake_file [OF assms(1) xs(1) w assms(4)]) blast
  let ?all = "xs @ entries_of (entry_hash X) xs outs @ ys"
  have own: "own_entries ?all" if "\<forall>c \<in> set (cs @ cmds). own_version c" using xs(2) own_appended [OF assms(4) _ w'(5), of xs outs] that by simp
  let ?acks = "ack_answers E durable (acks_of (en_time E) (entry_hash X) xs outs)"
  let ?new = "refusals outs @ ?acks @ rep"
  have rep: "decided_reply a = None" if "a \<in> set rep" for a
    using w'(5) that by (cases replicating) auto
  then have "List.map_filter decided_reply rep = []"
    by (auto simp: map_filter_def filter_empty_conv)
  then have "mset (List.map_filter decided_reply ?new) = mset (map (qi_reply \<circ> fst) outs)"
    using batch_replies [of outs E durable "en_time E" "entry_hash X" xs] by (simp add: map_filter_def)
  also have "\<dots> = image_mset qi_reply (mset (map fst outs))" by (simp add: multiset.map_comp)
  also have "\<dots> = mset (map qi_reply queued)" unfolding w'(1) mset_in_turn by simp
  finally have replies: "mset (List.map_filter decided_reply ?new) = mset (map qi_reply queued)" .
  have accepted: "\<exists>q \<in> set queued. qi_reply q = r \<and>
      (\<exists>h. kept X (cs @ cmds) (wr_log st') (ac_seq a) (entry_for (qi_sub q) h (ac_seq a)))"
    if "Decided r (Inr a) \<in> set ?new" for r a
  proof -
    have "Decided r (Inr a) \<in> set ?acks"
      using that rep refused_answers by fastforce
    then have "durable = Inr ()" and "(r, a) \<in> set (acks_of (en_time E) (entry_hash X) xs outs)"
      by (cases durable; auto simp: ack_answers_def)+
    from acks_entries [OF this(2)] obtain q zs ws where q: "(q, None) \<in> set outs" "qi_reply q = r"
        "entries_of (entry_hash X) xs outs =
           zs @ entry_for (qi_sub q) (chain_head (entry_hash X) (xs @ zs)) (length (xs @ zs)) # ws"
        "ac_seq a = length (xs @ zs)"
      by blast
    then have all: "?all ! ac_seq a = entry_for (qi_sub q) (chain_head (entry_hash X) (xs @ zs)) (ac_seq a)"
        "ac_seq a < length ?all" "fl_safe X (wr_log st') ?all"
      using w'(4) [OF \<open>durable = Inr ()\<close>] by (simp_all add: nth_append)
    have "kept X (cs @ cmds) (wr_log st') (ac_seq a) (?all ! ac_seq a)"
      using held_kept [of X st' ?all "[]" "ac_seq a" "cs @ cmds"] w'(6) all(2,3) own by simp
    then have "kept X (cs @ cmds) (wr_log st') (ac_seq a)
        (entry_for (qi_sub q) (chain_head (entry_hash X) (xs @ zs)) (ac_seq a))"
      unfolding all(1) .
    moreover have "q \<in> set queued"
      using q(1) w'(1) mset_in_turn [of queued] by (metis fst_conv image_eqI set_map set_mset_mset)
    ultimately show ?thesis using q(2) by blast
  qed
  have slots: "quota_run cap (wr_quotas st') out"
    if "quota_run cap (wr_quotas st) (out + mset (map qi_actor queued))" for cap out
    unfolding w'(3) by (rule release_all) (use that in \<open>simp add: mset_in_turn\<close>)
  show ?thesis
    using w w'(2) replies accepted slots by (intro exI [of _ st'] exI [of _ ?new]) blast
qed

text \<open>
  C10: a writer whose log may be damaged is closed. Once an append or a barrier failed, a wake-up appends
  nothing, accepts no submission, replicates no entry, and leaves the writer failed for good.
\<close>

theorem failed_writer_closed:
  assumes "over_file X E" "file_writer X E cs st" "durability_failed st" "wake E st cmds = Some (st', stop, rest)"
  shows "durability_failed st' \<and> wr_log st' = wr_log st \<and>
    (\<exists>new. wr_answers st' = wr_answers st @ new \<and> (\<forall>r a. Decided r (Inr a) \<notin> set new) \<and>
       (\<forall>r d. ReplicateDone r (Inr d) \<in> set new \<longrightarrow> d = \<lparr>re_appended = 0, re_head = None\<rparr>))"
proof -
  obtain xs where xs: "file_held X st xs" using file_writer_inv [OF assms(1,2)] by (auto simp: writer_inv_def)
  obtain queued stopping replicating rest' where d: "drain [] cmds = (queued, stopping, replicating, rest')"
    by (metis surj_pair)
  have failed: "wr_durability_failed st" using xs assms(3) by (simp add: durability_failed_def fl_dur.held_def)
  obtain outs ys durable rep where w': "file_held X st' (xs @ entries_of (entry_hash X) xs outs @ ys)"
      "wr_answers st' = wr_answers st @ refusals outs @
         ack_answers E durable (acks_of (en_time E) (entry_hash X) xs outs) @ rep"
      "wr_durability_failed st \<Longrightarrow> wr_durability_failed st' \<and> entries_of (entry_hash X) xs outs @ ys = [] \<and>
         wr_log st' = wr_log st"
      "case replicating of None \<Rightarrow> ys = [] \<and> rep = []
       | Some (batch, r) \<Rightarrow> \<exists>o'. replicated_prefix (entry_hash X) batch ys o' \<and>
           rep = [ReplicateDone r (replicated_answer E durable (wr_log st') o')]"
    by (rule wake_file [OF assms(1) xs assms(4) d]) blast
  note closed = w'(3) [OF failed]
  have acks: "acks_of (en_time E) (entry_hash X) xs outs = []"
    using closed fl_dur.length_acks [of "en_time E" X xs outs] by (metis append_is_Nil_conv length_0_conv)
  have "x = \<lparr>re_appended = 0, re_head = None\<rparr>" if a: "ReplicateDone r (Inr x) \<in> set rep" for r x
  proof -
    obtain batch o' where "replicated_prefix (entry_hash X) batch ys o'" "Inr x = replicated_answer E durable (wr_log st') o'"
      using w'(4) a by (cases replicating) auto
    then show ?thesis
      using closed by (cases durable; cases o'; cases x) (auto simp: replicated_answer_def replicated_prefix_def outcome_appended_def Let_def)
  qed
  moreover have "wr_poisoned st'" using w'(1) closed by (simp add: fl_dur.held_def)
  ultimately show ?thesis
    using closed w'(2) acks refused_answers w'(4)
    by (cases replicating) (auto simp: durability_failed_def ack_answers_def)
qed

text \<open>
  C9: replication copies entries as they are. A batch that a writer which has not failed answers \<open>Ok\<close> is
  in the log whole and in order, from the position the log had reached, every entry hashes to what its
  source claimed, and the records of all of them are durable; they survive power cuts if every
  replicated entry the writer was handed, in this batch and before it, had the format version of this
  build (the file then opens with them, or reports an I/O error while the device does not let the
  repair through). A batch that is answered with an error and leaves the writer working added exactly
  the entries before the one the error names.
\<close>

theorem replicate_copies:
  assumes "over_file X E" "file_writer X E cs st" "\<not> durability_failed st"
    and "wake E st [CmdReplicate batch r] = Some (st', stop, rest)"
  shows "\<exists>oc. wr_answers st' = wr_answers st @ [ReplicateDone r oc] \<and>
    (case oc of
       Inr d \<Rightarrow> re_appended d = length batch \<and>
         (\<forall>i < length batch. entry_hash X (sq_entry (batch ! i)) = sq_hash (batch ! i) \<and>
            kept X (cs @ [CmdReplicate batch r]) (wr_log st') (fl_len (wr_log st) + i) (sq_entry (batch ! i)))
     | Inl err \<Rightarrow> \<not> durability_failed st' \<longrightarrow>
         rx_appended err < length batch \<and> rx_seq err = e_seq (sq_entry (batch ! rx_appended err)) \<and>
         fl_entries X (wr_log st') = fl_entries X (wr_log st) @ map sq_entry (take (rx_appended err) batch))"
proof -
  obtain xs where xs: "file_held X st xs" "(\<forall>c \<in> set cs. own_version c) \<longrightarrow> own_entries xs"
    using file_writer_inv [OF assms(1,2)] by (auto simp: writer_inv_def)
  then have ok: "fl_ok X (wr_log st)" "fl_entries X (wr_log st) = xs"
    using assms(3) by (auto simp: fl_dur.held_def durability_failed_def)
  have d: "drain [] [CmdReplicate batch r] = ([], False, Some (batch, r), [])" by simp
  obtain outs ys durable rep where w': "map fst outs = in_turn []"
      "file_held X st' (xs @ entries_of (entry_hash X) xs outs @ ys)"
      "wr_answers st' = wr_answers st @ refusals outs @
         ack_answers E durable (acks_of (en_time E) (entry_hash X) xs outs) @ rep"
      "durable = Inr () \<Longrightarrow> entries_of (entry_hash X) xs outs @ ys \<noteq> [] \<Longrightarrow>
         fl_safe X (wr_log st') (xs @ entries_of (entry_hash X) xs outs @ ys)"
      "durable \<noteq> Inr () \<Longrightarrow> wr_durability_failed st'"
      "case Some (batch, r) of None \<Rightarrow> ys = [] \<and> rep = []
       | Some (batch, r) \<Rightarrow> \<exists>o'. replicated_prefix (entry_hash X) batch ys o' \<and>
           rep = [ReplicateDone r (replicated_answer E durable (wr_log st') o')]"
    by (rule wake_file [OF assms(1) xs(1) assms(4) d]) blast
  have outs: "outs = []" using w'(1) mset_in_turn [of "[]"] by simp
  have own: "own_entries (xs @ ys)" if "\<forall>c \<in> set (cs @ [CmdReplicate batch r]). own_version c"
    using xs(2) own_appended [OF d _ w'(6), of xs outs] that outs by simp
  obtain o' where o': "replicated_prefix (entry_hash X) batch ys o'"
      "rep = [ReplicateDone r (replicated_answer E durable (wr_log st') o')]"
    using w'(6) by auto
  let ?oc = "replicated_answer E durable (wr_log st') o'"
  have "re_appended x = length batch \<and>
      (\<forall>i < length batch. entry_hash X (sq_entry (batch ! i)) = sq_hash (batch ! i) \<and>
         kept X (cs @ [CmdReplicate batch r]) (wr_log st') (fl_len (wr_log st) + i) (sq_entry (batch ! i)))" if "?oc = Inr x" for x
  proof -
    have x: "durable = Inr ()" "o' = Inr x" using that by (auto simp: replicated_answer_def split: sum.splits)
    then have "ys = map sq_entry batch" "re_appended x = length batch"
        "\<forall>z \<in> set batch. entry_hash X (sq_entry z) = sq_hash z"
      using o'(1) by (auto simp: replicated_prefix_def outcome_appended_def Let_def)
    moreover have "kept X (cs @ [CmdReplicate batch r]) (wr_log st') (fl_len (wr_log st) + i) (sq_entry (batch ! i))"
      if i: "i < length batch" for i
    proof -
      have len: "fl_len (wr_log st) = length xs" using flog.len_es [OF ok(1)] ok(2) by simp
      have ys: "ys = map sq_entry batch" by fact
      have all: "(xs @ ys) ! (length xs + i) = sq_entry (batch ! i)" "length xs + i < length (xs @ ys)" "ys \<noteq> []"
        using i unfolding ys by (auto simp: nth_append)
      have "kept X (cs @ [CmdReplicate batch r]) (wr_log st') (length xs + i) ((xs @ ys) ! (length xs + i))"
        using held_kept [of X st' "xs @ ys" "[]" "length xs + i" "cs @ [CmdReplicate batch r]"]
          w'(2) w'(4) [OF x(1)] outs all(2,3) own by simp
      then show ?thesis unfolding all(1) len .
    qed
    ultimately show ?thesis by simp
  qed
  moreover have "rx_appended err < length batch \<and> rx_seq err = e_seq (sq_entry (batch ! rx_appended err)) \<and>
      fl_entries X (wr_log st') = fl_entries X (wr_log st) @ map sq_entry (take (rx_appended err) batch)"
    if "?oc = Inl err" "\<not> durability_failed st'" for err
  proof -
    have live: "\<not> wr_durability_failed st'" using that(2) w'(2) by (simp add: durability_failed_def fl_dur.held_def)
    then have "durable = Inr ()" using w'(5) by blast
    then have "o' = Inl err" using that(1) by (simp add: replicated_answer_def)
    moreover have "fl_entries X (wr_log st') = xs @ ys" using w'(2) live outs by (simp add: fl_dur.held_def)
    ultimately show ?thesis
      using o'(1) ok(2) by (auto simp: replicated_prefix_def outcome_appended_def Let_def)
  qed
  moreover have "wr_answers st' = wr_answers st @ [ReplicateDone r ?oc]"
    using w'(3) outs o'(2) by (simp add: ack_answers_def)
  ultimately show ?thesis by (intro exI [of _ ?oc]) (auto split: sum.split)
qed

section \<open>A concrete writer\<close>

definition sample_env :: "(file_log, unit) seq_env" where
  "sample_env =
     \<lparr>en_log = file_log_ops (counted_externals sample_op), en_policy = admit_all,
      en_hash = entry_hash (counted_externals sample_op), en_show_error = (\<lambda>_. ''io''), en_journalling = False,
      en_time = \<lparr>tm_check = \<lambda>_. 0, tm_decision = \<lambda>_. 0, tm_durable = \<lambda>_. 0, tm_now = \<lambda>_. 0\<rparr>\<rparr>"

definition sample_submission :: submission where
  "sample_submission = \<lparr>sub_channel = ''ana'', sub_payload = [7], sub_author_sig = None\<rparr>"

lemma over_file_sample: "over_file (counted_externals sample_op) sample_env" "never_panics sample_env"
  by (simp_all add: over_file_def sample_env_def never_panics_def admit_all_def)

lemma file_writer_spawn: "file_writer (counted_externals sample_op) sample_env [] (spawn empty_log ())"
  by (rule file_writer.started) (simp_all add: fl_ok_empty)

lemma round_robin_single: "round_robin [Some q] = [0]"
  by (simp add: round_robin_def map_filter_simps enumerate_eq_zip)

lemma wake_sample_submit:
  "\<exists>st' a. wake sample_env (spawn empty_log ()) [CmdSubmit sample_submission k 3] = Some (st', False, []) \<and>
     wr_answers st' = [Decided 3 (Inr a)] \<and> ac_seq a = 0"
proof -
  let ?X = "counted_externals sample_op" and ?e = "entry_for sample_submission None 0"
  obtain l1 where l1: "fl_append ?X empty_log ?e = (Inr (entry_hash ?X ?e), l1)"
    "d_space (fl_disk l1) = None" "\<not> d_sync_fails (fl_disk l1)"
    using fl_append_unlimited [of empty_log ?e ?X] by (auto simp: empty_log_def empty_disk_def entry_for_def)
  obtain l2 where l2: "fl_sync l1 = (Inr (), l2)" using fl_sync_unlimited [OF l1(2,3)] by blast
  have "fl_last l1 = Some ?e" using fl_dur.last_new [OF fl_ok_empty l1(1)] by simp
  then show ?thesis
    using l1(1) l2
    by (simp add: wake_def round_robin_single decide_def max_batch_def sample_env_def file_log_ops_def admit_all_def spawn_def
        answer_to_def release_slot_def journal_record_def barrier_def Let_def empty_log_def fl_len_def)
qed

lemma acknowledged_survives_witness:
  "\<exists>st a e. wake sample_env (spawn empty_log ()) [CmdSubmit sample_submission \<lparr>a_str = ''ana'', a_ptr = 0\<rparr> 3] =
       Some (st, False, []) \<and> Decided 3 (Inr a) \<in> set (wr_answers st) \<and>
     stored (counted_externals sample_op) (wr_log st) 0 e \<and> survives (counted_externals sample_op) (wr_log st) 0 e \<and>
     entry_hash (counted_externals sample_op) e = ac_hash a"
proof -
  obtain st a where w: "wake sample_env (spawn empty_log ()) [CmdSubmit sample_submission \<lparr>a_str = ''ana'', a_ptr = 0\<rparr> 3] =
       Some (st, False, [])" "wr_answers st = [Decided 3 (Inr a)]" "ac_seq a = 0"
    using wake_sample_submit by blast
  have st: "file_writer (counted_externals sample_op) sample_env
      ([] @ [CmdSubmit sample_submission \<lparr>a_str = ''ana'', a_ptr = 0\<rparr> 3]) st"
    by (rule file_writer.woken [OF file_writer_spawn w(1)])
  show ?thesis
    using acknowledged_survives [OF over_file_sample(1) st, of 3 a] w by auto
qed

lemma every_submission_answered_witness:
  "\<exists>st' new. wake sample_env (spawn empty_log ()) [CmdSubmit sample_submission \<lparr>a_str = ''ana'', a_ptr = 0\<rparr> 3, CmdShutdown] =
       Some (st', True, []) \<and> mset (List.map_filter decided_reply new) = {#3#} \<and> wr_answers st' = new"
proof -
  have d: "drain [] [CmdSubmit sample_submission \<lparr>a_str = ''ana'', a_ptr = 0\<rparr> 3, CmdShutdown] =
      ([\<lparr>qi_sub = sample_submission, qi_actor = \<lparr>a_str = ''ana'', a_ptr = 0\<rparr>, qi_reply = 3\<rparr>], True, None, [])"
    by (simp add: max_batch_def Let_def)
  show ?thesis
    using every_submission_answered [OF over_file_sample(1) file_writer_spawn over_file_sample(2) d]
    by (auto simp: spawn_def)
qed

definition broken_log :: file_log where
  "broken_log = empty_log\<lparr>fl_disk := empty_disk\<lparr>d_sync_fails := True\<rparr>\<rparr>"

lemma file_writer_broken: "file_writer (counted_externals sample_op) sample_env [] (spawn broken_log ())"
proof (rule file_writer.started)
  have inv: "fl_inv (counted_externals sample_op) broken_log []"
    using fl_inv_empty [of "counted_externals sample_op"] by (simp add: fl_inv_def broken_log_def empty_log_def empty_disk_def)
  then show "fl_ok (counted_externals sample_op) broken_log" by (auto simp: fl_ok_def)
  show "replayable (counted_externals sample_op) 0 None (fl_entries (counted_externals sample_op) broken_log)"
    using fl_inv_entries [OF serde_counted(1) inv] by simp
qed

lemma wake_broken:
  "\<exists>st'. wake sample_env (spawn broken_log ()) [CmdSubmit sample_submission k 3] = Some (st', False, []) \<and> durability_failed st'"
proof -
  let ?X = "counted_externals sample_op" and ?e = "entry_for sample_submission None 0"
  have ok: "fl_ok ?X broken_log"
    using fl_inv_empty [of ?X] by (auto simp: fl_ok_def fl_inv_def broken_log_def empty_log_def empty_disk_def intro!: exI [of _ "[]"])
  obtain l1 where l1: "fl_append ?X broken_log ?e = (Inr (entry_hash ?X ?e), l1)"
    "d_space (fl_disk l1) = None" "d_sync_fails (fl_disk l1)"
    using fl_append_unlimited [of broken_log ?e ?X] by (auto simp: broken_log_def empty_log_def empty_disk_def entry_for_def)
  obtain err l2 where l2: "fl_sync l1 = (Inl err, l2)"
    using l1(2,3) by (simp add: fl_sync_def buf_flush_def disk_write_unlimited Let_def)
  have "fl_last l1 = Some ?e" using fl_dur.last_new [OF ok l1(1)] by simp
  then show ?thesis
    using l1(1) l2
    by (simp add: wake_def round_robin_single decide_def max_batch_def sample_env_def file_log_ops_def admit_all_def spawn_def
        answer_to_def release_slot_def journal_record_def barrier_def mark_failed_def durability_failed_def Let_def
        broken_log_def empty_log_def fl_len_def)
qed

lemma failed_writer_closed_witness:
  "\<exists>st st' new. durability_failed st \<and>
     wake sample_env st [CmdSubmit sample_submission \<lparr>a_str = ''ana'', a_ptr = 0\<rparr> 4] = Some (st', False, []) \<and>
     wr_log st' = wr_log st \<and> wr_answers st' = wr_answers st @ new \<and> (\<forall>a. Decided 4 (Inr a) \<notin> set new)"
proof -
  let ?k = "\<lparr>a_str = ''ana'', a_ptr = 0\<rparr>"
  obtain st where w: "wake sample_env (spawn broken_log ()) [CmdSubmit sample_submission ?k 3] = Some (st, False, [])"
      "durability_failed st"
    using wake_broken by blast
  have st: "file_writer (counted_externals sample_op) sample_env ([] @ [CmdSubmit sample_submission ?k 3]) st"
    by (rule file_writer.woken [OF file_writer_broken w(1)])
  obtain xs where "file_held (counted_externals sample_op) st xs"
    using file_writer_inv [OF over_file_sample(1) st] by (auto simp: writer_inv_def)
  then obtain st' where w': "wake sample_env st [CmdSubmit sample_submission ?k 4] = Some (st', False, [])"
    using wake_file_returns [OF over_file_sample(1) _ over_file_sample(2), of st xs "[CmdSubmit sample_submission ?k 4]"]
    by (auto simp: max_batch_def Let_def)
  show ?thesis
    using failed_writer_closed [OF over_file_sample(1) st w(2) w'] w(2) w' by blast
qed

definition sample_replica :: sequenced_entry where
  "sample_replica = \<lparr>sq_entry = entry_for sample_submission None 0,
     sq_hash = entry_hash (counted_externals sample_op) (entry_for sample_submission None 0)\<rparr>"

lemma replicate_copies_witness:
  "\<exists>st oc. wake sample_env (spawn empty_log ()) [CmdReplicate [sample_replica] 4] = Some (st, False, []) \<and>
     wr_answers st = [ReplicateDone 4 oc] \<and> (\<forall>d. oc = Inr d \<longrightarrow> re_appended d = 1)"
proof -
  have live: "\<not> durability_failed (spawn empty_log ())" by (simp add: durability_failed_def spawn_def)
  obtain st' where w: "wake sample_env (spawn empty_log ()) [CmdReplicate [sample_replica] 4] = Some (st', False, [])"
  proof -
    obtain xs where "file_held (counted_externals sample_op) (spawn empty_log ()) xs"
      using file_writer_inv [OF over_file_sample(1) file_writer_spawn] by (auto simp: writer_inv_def)
    then show ?thesis
      using wake_file_returns [OF over_file_sample(1) _ over_file_sample(2), of "spawn empty_log ()" xs "[CmdReplicate [sample_replica] 4]"]
        that by auto
  qed
  from replicate_copies [OF over_file_sample(1) file_writer_spawn live w]
  obtain oc where oc: "wr_answers st' = wr_answers (spawn empty_log ()) @ [ReplicateDone 4 oc]"
      "case oc of Inr d \<Rightarrow> re_appended d = length [sample_replica] | Inl err \<Rightarrow> True"
    by (elim exE conjE) (rule that, assumption, rename_tac oc, case_tac oc, simp_all)
  show ?thesis
    by (rule exI [of _ st'], rule exI [of _ oc]) (use w oc in \<open>auto simp: spawn_def split: sum.splits\<close>)
qed

section \<open>The version of a replicated entry\<close>

text \<open>A file with a record of another version is refused as corrupt, at the first such record.\<close>

lemma open_other_version:
  assumes "serde_entries X" "sequenced (entry_hash X) 0 None es"
    and "e \<in> set es" "e_format_version e \<noteq> format_version_1" "d_file d = stream_of X es @ rest"
  shows "\<exists>msg. fst (fl_open X name d) = Inl (Corrupt msg)"
proof -
  obtain ys b zs where split: "es = ys @ b # zs" "e_format_version b \<noteq> format_version_1"
      "\<forall>y \<in> set ys. e_format_version y = format_version_1"
    using split_list_first_prop [of es "\<lambda>x. e_format_version x \<noteq> format_version_1"] assms(3,4) by blast
  have "replayable X 0 None ys"
    using assms(2) split by (simp add: replayable_sequenced sequenced_append own_entries_def)
  then have "open_scan X (d_file d) [] None 0 =
      open_scan X (record_of X b @ stream_of X zs @ rest) (map (\<lambda>i. length (stream_of X (take i ys))) [0..<length ys])
        (if ys = [] then None else Some (entry_hash X (last ys))) (length (stream_of X ys))"
    using open_scan_records [OF assms(1), of "[]" None ys "record_of X b @ stream_of X zs @ rest" 0] assms(5) split(1) by simp
  also have "\<exists>msg. \<dots> = Inl (Corrupt msg)"
    using split(2) split_once_record [OF assms(1), of b "stream_of X zs @ rest"] assms(1)
    by (subst open_scan.simps) (simp add: serde_entries_def Let_def)
  finally show ?thesis by (auto simp: fl_open_def)
qed

text \<open>
  C40: the version of a replicated entry is not checked. An entry of another format version that continues the
  log and that the policy can fold is appended, synced and answered \<open>Ok\<close>, and from then on the file
  does not open: \<open>FileLog::open\<close> refuses it as corrupt.
\<close>

theorem replicated_version_unchecked:
  assumes "over_file X E" "file_writer X E cs st" "\<not> durability_failed st" "never_panics E"
    and "d_space (fl_disk (wr_log st)) = None" "\<not> d_sync_fails (fl_disk (wr_log st))"
    and "e_seq e = fl_len (wr_log st)" "e_parent e = fl_head (wr_log st)" "e_format_version e \<noteq> format_version_1"
    and "po_replicable (en_policy E) (wr_policy st) e = (Inr (), p)"
  shows "\<exists>st' d. wake E st [CmdReplicate [\<lparr>sq_entry = e, sq_hash = entry_hash X e\<rparr>] r] = Some (st', False, []) \<and>
    wr_answers st' = wr_answers st @ [ReplicateDone r (Inr d)] \<and> re_head d = Some (entry_hash X e) \<and>
    (\<forall>name k nuls. \<exists>msg. fst (fl_open X name (crash (fl_disk (wr_log st')) k nuls)) = Inl (Corrupt msg))"
proof -
  obtain xs where xs: "file_held X st xs" using file_writer_inv [OF assms(1,2)] by (auto simp: writer_inv_def)
  then have live: "\<not> wr_durability_failed st" and ok: "fl_ok X (wr_log st)" "fl_entries X (wr_log st) = xs"
    and seqd: "sequenced (entry_hash X) 0 None xs"
    using assms(3) by (auto simp: fl_dur.held_def durability_failed_def)
  obtain l1 where l1: "fl_append X (wr_log st) e = (Inr (entry_hash X e), l1)"
    "d_space (fl_disk l1) = None" "\<not> d_sync_fails (fl_disk l1)"
    using fl_append_unlimited [OF assms(5,8), of X] assms(6) by auto
  obtain l2 where l2: "fl_sync l1 = (Inr (), l2)" using fl_sync_unlimited [OF l1(2,3)] by blast
  have new: "fl_ok X l1" "fl_entries X l1 = xs @ [e]" using flog.app_Inr [OF ok(1) l1(1)] ok(2) by auto
  have last: "fl_last l1 = Some e" using fl_dur.last_new [OF ok(1) l1(1)] .
  obtain p' where p': "po_accepted (en_policy E) p e (entry_hash X e) = Some p'"
    using assms(4) unfolding never_panics_def by (metis option.collapse)
  have rr: "round_robin [] = []" using mset_in_turn [of "[]"] by (simp add: in_turn_def)
  have E: "en_log E = file_log_ops X" "en_hash E = entry_hash X" using assms(1) by (simp_all add: over_file_def)
  obtain st' d where w: "wake E st [CmdReplicate [\<lparr>sq_entry = e, sq_hash = entry_hash X e\<rparr>] r] = Some (st', False, [])"
      "wr_answers st' = wr_answers st @ [ReplicateDone r (Inr d)]" "re_head d = Some (entry_hash X e)" "wr_log st' = l2"
    using l1(1) l2 last p' live assms(7,8,10)
    by (simp add: wake_def rr barrier_def E file_log_ops_def Let_def outcome_appended_def replicated_answer_def answer_to_def)
  have bytes: "d_file (fl_disk l2) = stream_of X (xs @ [e])" "d_synced (fl_disk l2) = length (d_file (fl_disk l2))" "serde_entries X"
    using fl_sync_stream(1,4) [OF l2] fl_ok_stream [OF new(1)] new(2) by auto
  have "sequenced (entry_hash X) 0 None (xs @ [e])"
    using seqd assms(7,8) flog.hd_es [OF ok(1)] flog.len_es [OF ok(1)] ok(2) by (simp add: sequenced_snoc)
  then have "\<exists>msg. fst (fl_open X name (crash (fl_disk l2) k nuls)) = Inl (Corrupt msg)" for name k nuls
    using open_other_version [OF bytes(3), of "xs @ [e]" e "crash (fl_disk l2) k nuls" "replicate nuls 0" name]
      assms(9) bytes(1,2) by (simp add: crash_def)
  then show ?thesis using w by auto
qed

lemma replicated_version_unchecked_witness:
  "\<exists>st d. wake sample_env (spawn empty_log ())
       [CmdReplicate [\<lparr>sq_entry = (entry_for sample_submission None 0)\<lparr>e_format_version := 2\<rparr>,
          sq_hash = entry_hash (counted_externals sample_op) ((entry_for sample_submission None 0)\<lparr>e_format_version := 2\<rparr>)\<rparr>] 4] =
       Some (st, False, []) \<and>
     wr_answers st = [ReplicateDone 4 (Inr d)] \<and>
     (\<exists>msg. fst (fl_open (counted_externals sample_op) ''log'' (fl_disk (wr_log st))) = Inl (Corrupt msg))"
proof -
  let ?e = "(entry_for sample_submission None 0)\<lparr>e_format_version := 2\<rparr>" and ?st = "spawn empty_log ()"
  have c: "crash d (length (d_file d)) 0 = d" for d by (simp add: crash_def)
  have s: "\<not> durability_failed ?st" "d_space (fl_disk (wr_log ?st)) = None" "\<not> d_sync_fails (fl_disk (wr_log ?st))"
    "e_seq ?e = fl_len (wr_log ?st)" "e_parent ?e = fl_head (wr_log ?st)" "e_format_version ?e \<noteq> format_version_1"
    "po_replicable (en_policy sample_env) (wr_policy ?st) ?e = (Inr (), ())"
    by (simp_all add: durability_failed_def spawn_def empty_log_def empty_disk_def entry_for_def fl_len_def
        format_version_1_def sample_env_def admit_all_def)
  from replicated_version_unchecked [OF over_file_sample(1) file_writer_spawn s(1) over_file_sample(2) s(2-7), of 4]
  obtain st d where w: "wake sample_env ?st [CmdReplicate [\<lparr>sq_entry = ?e, sq_hash = entry_hash (counted_externals sample_op) ?e\<rparr>] 4] =
       Some (st, False, [])" "wr_answers st = wr_answers ?st @ [ReplicateDone 4 (Inr d)]"
    "\<forall>name k nuls. \<exists>msg. fst (fl_open (counted_externals sample_op) name (crash (fl_disk (wr_log st)) k nuls)) = Inl (Corrupt msg)"
    by blast
  have "\<exists>msg. fst (fl_open (counted_externals sample_op) ''log'' (fl_disk (wr_log st))) = Inl (Corrupt msg)"
    using w(3) c [of "fl_disk (wr_log st)"] by metis
  then show ?thesis using w(1,2) by (auto simp: spawn_def)
qed

section \<open>Submitting a group\<close>

text \<open>The commands a group put in the channel, in order.\<close>

definition offered :: "(string + command) list \<Rightarrow> command list" where
  "offered offers = List.map_filter (\<lambda>x. case x of Inl _ \<Rightarrow> None | Inr c \<Rightarrow> Some c) offers"

fun command_slot :: "command \<Rightarrow> arc option" where
  "command_slot (CmdSubmit sub actor r) = Some actor"
| "command_slot _ = None"

text \<open>
  A group is offered member by member, and a ceiling stops only the member it applies to. The
  offers come back in the order of the submissions with the reply channels in order, a refused
  member takes no slot, and every command in the channel holds exactly the slot the table counts
  for it.
\<close>

theorem submit_many_in_place:
  assumes "quota_run cap (wr_quotas st) out"
  shows "case try_submit_many st subs r of (offers, st') \<Rightarrow>
    length offers = length subs \<and>
    (\<forall>i < length subs. \<forall>c. offers ! i = Inr c \<longrightarrow>
       (\<exists>k. c = CmdSubmit (subs ! i) k (r + i) \<and> a_str k = actor_of (subs ! i))) \<and>
    quota_run cap (wr_quotas st') (out + mset (List.map_filter command_slot (offered offers))) \<and>
    wr_log st' = wr_log st \<and> wr_answers st' = wr_answers st"
  using assms
proof (induction subs arbitrary: st r out)
  case Nil
  then show ?case by (simp add: offered_def map_filter_simps)
next
  case (Cons sub subs)
  obtain a q where q: "quota_admit (wr_quotas st) (actor_of sub) = (a, q)" by (cases "quota_admit (wr_quotas st) (actor_of sub)")
  show ?case
  proof (cases a)
    case (Inl e)
    have "quota_run cap q out" using quota_run.refused [OF Cons.prems q [unfolded Inl]] .
    then show ?thesis
      using Cons.IH [of "st\<lparr>wr_quotas := q\<rparr>" out "r + 1"] q Inl
      by (auto simp: try_submit_def offered_def map_filter_simps nth_Cons split: prod.splits nat.splits)
  next
    case (Inr k)
    have run: "quota_run cap q (add_mset k out)" using quota_run.admitted [OF Cons.prems q [unfolded Inr]] .
    have "a_str k = actor_of sub" using quota_admit_key [OF Cons.prems q [unfolded Inr]] .
    then show ?thesis
      using Cons.IH [of "st\<lparr>wr_quotas := q\<rparr>" "add_mset k out" "r + 1"] run q Inr
      by (auto simp: try_submit_def offered_def map_filter_simps nth_Cons split: prod.splits nat.splits)
  qed
qed

lemma submit_many_in_place_witness:
  "\<exists>st'. try_submit_many (spawn empty_log ()) [sample_submission, sample_submission] 0 =
       ([Inr (CmdSubmit sample_submission \<lparr>a_str = ''ana'', a_ptr = 0\<rparr> 0),
         Inr (CmdSubmit sample_submission \<lparr>a_str = ''ana'', a_ptr = 0\<rparr> 1)], st') \<and>
     quota_run 512 (wr_quotas st') {#\<lparr>a_str = ''ana'', a_ptr = 0\<rparr>, \<lparr>a_str = ''ana'', a_ptr = 0\<rparr>#}"
proof -
  have run: "quota_run 512 (wr_quotas (spawn empty_log ())) {#}"
    unfolding spawn_def writer.simps default_quota_def by (rule quota_run.start) simp
  obtain st' where t: "try_submit_many (spawn empty_log ()) [sample_submission, sample_submission] 0 =
       ([Inr (CmdSubmit sample_submission \<lparr>a_str = ''ana'', a_ptr = 0\<rparr> 0),
         Inr (CmdSubmit sample_submission \<lparr>a_str = ''ana'', a_ptr = 0\<rparr> 1)], st')"
    by (simp add: try_submit_def spawn_def quotas_new_def default_quota_def quota_admit_def Let_def bt_get_insert
        actor_of_def sample_submission_def)
  show ?thesis
    using submit_many_in_place [OF run, of "[sample_submission, sample_submission]" 0] t
    by (simp add: offered_def map_filter_simps)
qed

end
