(* ===== verification/Merge.thy ===== *)
theory Merge
  imports BTree_Map "HOL-Library.Multiset"
begin

text \<open>
  \<open>crates/choir-merge\<close>: the ordered strategies of a three-way merge (\<open>lib.rs\<close>), the check that a
  resolution stayed inside what the author proposed (\<open>safety.rs\<close>), and the scan that points the check
  at a merge history (\<open>silent_revert.rs\<close>). The line merge and the diff are the \<open>diffy\<close> crate's and
  arguments here; the \<open>mergiraf\<close> process is what it returned; a panic is \<open>None\<close>.
\<close>

section \<open>Lines\<close>

text \<open>\<open>str::lines\<close>: a line ends with a line feed, or with a carriage return before it.\<close>

definition line_feed :: char where
  "line_feed = CHR 0x0A"

definition strip_cr :: "string \<Rightarrow> string" where
  "strip_cr s = (if s \<noteq> [] \<and> last s = CHR 0x0D then butlast s else s)"

function str_lines :: "string \<Rightarrow> string list" where
  "str_lines s =
     (if s = [] then []
      else case split_once line_feed s of
             None \<Rightarrow> [s]
           | Some (body, rest) \<Rightarrow> strip_cr body # str_lines rest)"
  by pat_completeness auto
termination
  by (relation "measure length") (auto dest!: split_once_SomeD)

declare str_lines.simps [simp del]

text \<open>\<open>str::trim\<close> leaves nothing: the UTF-8 forms of the white space of Unicode.\<close>

definition white_space :: "nat list list" where
  "white_space =
     map (\<lambda>n. [n]) ([9..<14] @ [32]) @ [[0xC2, 0x85], [0xC2, 0xA0], [0xE1, 0x9A, 0x80]] @
     map (\<lambda>n. [0xE2, 0x80, n]) ([0x80..<0x8B] @ [0xA8, 0xA9, 0xAF]) @ [[0xE2, 0x81, 0x9F], [0xE3, 0x80, 0x80]]"

lemma white_space_nonempty: "w \<in> set white_space \<Longrightarrow> w \<noteq> []"
  by (auto simp: white_space_def)

function blank :: "nat list \<Rightarrow> bool" where
  "blank s =
     (s = [] \<or>
      (case find (\<lambda>w. is_prefix w s) white_space of
         None \<Rightarrow> False
       | Some w \<Rightarrow> blank (drop (length w) s)))"
  by pat_completeness auto
termination
  by (relation "measure length") (auto simp: find_Some_iff is_prefix_iff dest!: nth_mem white_space_nonempty)

declare blank.simps [simp del]

definition is_evidence :: "string \<Rightarrow> bool" where
  "is_evidence line = (\<not> blank (map of_char line))"

section \<open>The pipeline\<close>

datatype merge_outcome = Resolved string | MergeConflict string | Unavailable string

record strategy =
  sg_name :: string
  sg_merge :: "string \<Rightarrow> string \<Rightarrow> string \<Rightarrow> merge_outcome"

record pipeline_result =
  pr_outcome :: merge_outcome
  pr_strategy :: string

text \<open>The loop of \<open>Pipeline::merge\<close>, with the last conflict so far; \<open>None\<close> is its panic.\<close>

fun run_strategies ::
  "pipeline_result option \<Rightarrow> strategy list \<Rightarrow> string \<Rightarrow> string \<Rightarrow> string \<Rightarrow> pipeline_result option" where
  "run_strategies last_conflict [] base left right = last_conflict"
| "run_strategies last_conflict (s # ss) base left right =
     (case sg_merge s base left right of
        Resolved text \<Rightarrow> Some \<lparr>pr_outcome = Resolved text, pr_strategy = sg_name s\<rparr>
      | MergeConflict annotated \<Rightarrow>
          run_strategies (Some \<lparr>pr_outcome = MergeConflict annotated, pr_strategy = sg_name s\<rparr>) ss base left right
      | Unavailable _ \<Rightarrow> run_strategies last_conflict ss base left right)"

definition pipeline_merge :: "strategy list \<Rightarrow> string \<Rightarrow> string \<Rightarrow> string \<Rightarrow> pipeline_result option" where
  "pipeline_merge ss base left right = run_strategies None ss base left right"

definition trivial_merge :: strategy where
  "trivial_merge =
     \<lparr>sg_name = ''trivial'',
      sg_merge = (\<lambda>base left right.
        if left = right then Resolved left
        else if left = base then Resolved right
        else if right = base then Resolved left
        else MergeConflict (''<<<<<<< left'' @ [line_feed] @ left @ ''======='' @ [line_feed] @ right @
                            ''>>>>>>> right'' @ [line_feed]))\<rparr>"

definition line_merge :: "(string \<Rightarrow> string \<Rightarrow> string \<Rightarrow> string + string) \<Rightarrow> strategy" where
  "line_merge diffy =
     \<lparr>sg_name = ''line'',
      sg_merge = (\<lambda>base left right.
        case diffy base left right of Inr clean \<Rightarrow> Resolved clean | Inl conflicted \<Rightarrow> MergeConflict conflicted)\<rparr>"

definition default_v1 :: "(string \<Rightarrow> string \<Rightarrow> string \<Rightarrow> string + string) \<Rightarrow> strategy list" where
  "default_v1 diffy = [trivial_merge, line_merge diffy]"

text \<open>
  What a run of \<open>mergiraf\<close> left behind: an error of the file system or of the process, or its exit
  status, the merged file if it could be read, and what it wrote to its standard error.
\<close>

record process_result =
  ps_success :: bool
  ps_merged :: "string option"
  ps_stderr :: string

definition mergiraf_merge :: "(string \<Rightarrow> string \<Rightarrow> string \<Rightarrow> string + process_result) \<Rightarrow> strategy" where
  "mergiraf_merge process =
     \<lparr>sg_name = ''mergiraf'',
      sg_merge = (\<lambda>base left right.
        case process base left right of
          Inl e \<Rightarrow> Unavailable e
        | Inr out \<Rightarrow>
            (let merged = (case ps_merged out of None \<Rightarrow> [] | Some text \<Rightarrow> text) in
             if ps_success out then Resolved merged
             else if merged \<noteq> [] then MergeConflict merged
             else Unavailable (ps_stderr out)))\<rparr>"

section \<open>The content of a change\<close>

datatype diff_line = Delete string | Insert string | Context string

definition push_line :: "char \<Rightarrow> string \<Rightarrow> string" where
  "push_line marker text = marker # text @ (if text \<noteq> [] \<and> last text = line_feed then [] else [line_feed])"

fun diff_text :: "diff_line \<Rightarrow> string" where
  "diff_text (Delete text) = push_line (CHR ''-'') text"
| "diff_text (Insert text) = push_line (CHR ''+'') text"
| "diff_text (Context _) = []"

definition normalized_diff :: "(string \<Rightarrow> string \<Rightarrow> diff_line list list) \<Rightarrow> string \<Rightarrow> string \<Rightarrow> string" where
  "normalized_diff create_patch base proposed =
     concat (map (\<lambda>hunk. concat (map diff_text hunk)) (create_patch base proposed))"

section \<open>Safety\<close>

record violation =
  vi_reverted :: "string list"
  vi_injected :: "string list"

datatype safety_verdict = Upholds | Violation violation

text \<open>A bag: how often each line occurs.\<close>

definition copied :: "(string, nat) btmap \<Rightarrow> string \<Rightarrow> nat" where
  "copied m line = (case bt_get m line of None \<Rightarrow> 0 | Some n \<Rightarrow> n)"

definition bag_add :: "(string, nat) btmap \<Rightarrow> string \<Rightarrow> (string, nat) btmap" where
  "bag_add m line = bt_insert line (copied m line + 1) m"

definition bag :: "string \<Rightarrow> (string, nat) btmap" where
  "bag text = foldl bag_add bt_empty (str_lines text)"

fun surplus :: "(string \<times> nat) list \<Rightarrow> (string, nat) btmap \<Rightarrow> (string, nat) btmap \<Rightarrow> (string, nat) btmap" where
  "surplus [] other acc = acc"
| "surplus ((line, n) # rest) other acc =
     (let have = copied other line in
      surplus rest other (if n > have then bt_insert line (n - have) acc else acc))"

definition bag_delta ::
  "(string, nat) btmap \<Rightarrow> (string, nat) btmap \<Rightarrow> (string, nat) btmap \<times> (string, nat) btmap" where
  "bag_delta before after = (surplus (bt_items before) after bt_empty, surplus (bt_items after) before bt_empty)"

definition excess :: "(string, nat) btmap \<Rightarrow> (string, nat) btmap \<Rightarrow> string list" where
  "excess landing proposal = map fst (filter (\<lambda>(line, n). n > copied proposal line) (bt_items landing))"

definition safety_check :: "string \<Rightarrow> string \<Rightarrow> string \<Rightarrow> string \<Rightarrow> safety_verdict" where
  "safety_check base target proposed result =
     (let (landing_removed, landing_added) = bag_delta (bag target) (bag result);
          (proposed_removed, proposed_added) = bag_delta (bag base) (bag proposed);
          reverted = excess landing_removed proposed_removed;
          injected = excess landing_added proposed_added
      in if reverted = [] \<and> injected = [] then Upholds
         else Violation \<lparr>vi_reverted = reverted, vi_injected = injected\<rparr>)"

section \<open>Scanning a merge\<close>

record blobs =
  bl_base :: string
  bl_target :: string
  bl_proposed :: string
  bl_result :: string

record finding =
  fi_merge :: string
  fi_path :: string
  fi_reverted :: "string list"
  fi_injected :: "string list"

record scan_report =
  sc_merges_seen :: nat
  sc_merges_scanned :: nat
  sc_skipped_octopus :: nat
  sc_skipped_no_base :: nat
  sc_paths_scanned :: nat
  sc_skipped_binary :: nat
  sc_skipped_large :: nat
  sc_lines_relocated :: nat
  sc_paths_all_relocated :: nat
  sc_lines_surviving_elsewhere :: nat
  sc_findings_all_surviving :: nat
  sc_findings :: "finding list"

definition scan_new :: scan_report where
  "scan_new = \<lparr>sc_merges_seen = 0, sc_merges_scanned = 0, sc_skipped_octopus = 0, sc_skipped_no_base = 0,
     sc_paths_scanned = 0, sc_skipped_binary = 0, sc_skipped_large = 0, sc_lines_relocated = 0,
     sc_paths_all_relocated = 0, sc_lines_surviving_elsewhere = 0, sc_findings_all_surviving = 0, sc_findings = []\<rparr>"

definition absorb :: "scan_report \<Rightarrow> scan_report \<Rightarrow> scan_report" where
  "absorb r other =
     \<lparr>sc_merges_seen = sc_merges_seen r + sc_merges_seen other,
      sc_merges_scanned = sc_merges_scanned r + sc_merges_scanned other,
      sc_skipped_octopus = sc_skipped_octopus r + sc_skipped_octopus other,
      sc_skipped_no_base = sc_skipped_no_base r + sc_skipped_no_base other,
      sc_paths_scanned = sc_paths_scanned r + sc_paths_scanned other,
      sc_skipped_binary = sc_skipped_binary r + sc_skipped_binary other,
      sc_skipped_large = sc_skipped_large r + sc_skipped_large other,
      sc_lines_relocated = sc_lines_relocated r + sc_lines_relocated other,
      sc_paths_all_relocated = sc_paths_all_relocated r + sc_paths_all_relocated other,
      sc_lines_surviving_elsewhere = sc_lines_surviving_elsewhere r + sc_lines_surviving_elsewhere other,
      sc_findings_all_surviving = sc_findings_all_surviving r + sc_findings_all_surviving other,
      sc_findings = sc_findings r @ sc_findings other\<rparr>"

definition raw_finding :: "string \<Rightarrow> string \<times> blobs \<Rightarrow> finding option" where
  "raw_finding merge pb =
     (case pb of (path, b) \<Rightarrow>
        (case safety_check (bl_base b) (bl_target b) (bl_proposed b) (bl_result b) of
           Upholds \<Rightarrow> None
         | Violation v \<Rightarrow>
             Some \<lparr>fi_merge = merge, fi_path = path,
                   fi_reverted = filter is_evidence (vi_reverted v),
                   fi_injected = filter is_evidence (vi_injected v)\<rparr>))"

text \<open>The loop over the raw findings; the last component collects the surviving lines.\<close>

fun settle_findings ::
  "string set \<Rightarrow> string set \<Rightarrow> finding list \<Rightarrow> scan_report \<Rightarrow> string set \<Rightarrow> scan_report \<times> string set" where
  "settle_findings relocated survives [] report surviving = (report, surviving)"
| "settle_findings relocated survives (f # fs) report surviving =
     (let f' = f\<lparr>fi_reverted := filter (\<lambda>l. l \<notin> relocated) (fi_reverted f),
                 fi_injected := filter (\<lambda>l. l \<notin> relocated) (fi_injected f)\<rparr>
      in if fi_reverted f' = [] \<and> fi_injected f' = []
         then settle_findings relocated survives fs
                (report\<lparr>sc_paths_all_relocated := sc_paths_all_relocated report + 1\<rparr>) surviving
         else (let outlives = filter (\<lambda>l. l \<in> survives) (fi_reverted f');
                   all = fi_injected f' = [] \<and> length outlives = length (fi_reverted f')
               in settle_findings relocated survives fs
                    (report\<lparr>sc_findings_all_surviving := sc_findings_all_surviving report + (if all then 1 else 0),
                            sc_findings := sc_findings report @ [f']\<rparr>)
                    (surviving \<union> set outlives)))"

definition scan_merge :: "string \<Rightarrow> (string \<times> blobs) list \<Rightarrow> scan_report \<Rightarrow> scan_report" where
  "scan_merge merge paths report =
     (let raw = List.map_filter (raw_finding merge) paths;
          reverted_anywhere = \<Union> (set (map (set \<circ> fi_reverted) raw));
          injected_anywhere = \<Union> (set (map (set \<circ> fi_injected) raw));
          relocated = reverted_anywhere \<inter> injected_anywhere;
          survives = set (filter is_evidence (concat (map (\<lambda>(_, b). str_lines (bl_result b)) paths)));
          report1 = report\<lparr>sc_merges_scanned := sc_merges_scanned report + 1,
                           sc_paths_scanned := sc_paths_scanned report + length paths,
                           sc_lines_relocated := sc_lines_relocated report + card relocated\<rparr>
      in case settle_findings relocated survives raw report1 {} of
           (report2, surviving) \<Rightarrow>
             report2\<lparr>sc_lines_surviving_elsewhere := sc_lines_surviving_elsewhere report2 + card surviving\<rparr>)"

section \<open>The safety check against multisets of lines\<close>

abbreviation line_bag :: "string \<Rightarrow> string multiset" where
  "line_bag text \<equiv> mset (str_lines text)"

lemma copied_foldl_bag: "copied (foldl bag_add m ls) l = copied m l + count (mset ls) l"
  by (induction ls arbitrary: m) (auto simp: bag_add_def copied_def bt_get_insert)

lemma copied_bag: "copied (bag text) l = count (line_bag text) l"
  by (simp add: bag_def copied_foldl_bag) (simp add: copied_def)

lemma copied_surplus:
  assumes "distinct (map fst xs)"
  shows "copied (surplus xs other acc) l =
    (case map_of xs l of
       None \<Rightarrow> copied acc l
     | Some n \<Rightarrow> if n > copied other l then n - copied other l else copied acc l)"
  using assms
proof (induction xs other acc rule: surplus.induct)
  case (2 line n rest other acc)
  define acc' where "acc' = (if n > copied other line then bt_insert line (n - copied other line) acc else acc)"
  have acc': "copied acc' l = (if l = line \<and> n > copied other line then n - copied other line else copied acc l)"
    by (simp add: acc'_def copied_def bt_get_insert)
  have "copied (surplus ((line, n) # rest) other acc) l = copied (surplus rest other acc') l"
    by (simp add: acc'_def Let_def)
  also have "\<dots> = (case map_of rest l of None \<Rightarrow> copied acc' l
      | Some n \<Rightarrow> if n > copied other l then n - copied other l else copied acc' l)"
    using "2.IH" [OF refl] "2.prems" unfolding acc'_def by simp
  finally have step: "copied (surplus ((line, n) # rest) other acc) l = (case map_of rest l of None \<Rightarrow> copied acc' l
      | Some n \<Rightarrow> if n > copied other l then n - copied other l else copied acc' l)" .
  show ?case
  proof (cases "l = line")
    case True
    then have "map_of rest l = None" using "2.prems" by (simp add: map_of_eq_None_iff)
    then show ?thesis unfolding step using True acc' by simp
  next
    case False
    then show ?thesis unfolding step using acc' by (simp split: option.split)
  qed
qed simp

lemma copied_delta:
  "copied (surplus (bt_items m) other bt_empty) l = copied m l - copied other l"
proof -
  have "distinct (map fst (bt_items m))" using bt_keys_distinct [of m] by (simp add: bt_keys_def)
  from copied_surplus [OF this, of other bt_empty l] show ?thesis
    unfolding bt_get_items [symmetric] by (auto simp: copied_def split: option.splits)
qed

lemma set_excess: "set (excess landing proposal) = {l. copied landing l > copied proposal l}"
  by (force simp: excess_def copied_def bt_items_iff split: option.splits)

lemma excess_sorted: "sorted (excess landing proposal)" "distinct (excess landing proposal)"
proof -
  have "sorted_wrt (<) (map fst (bt_items landing))" using bt_keys_sorted [of landing] by (simp add: bt_keys_def)
  then have "sorted_wrt (<) (excess landing proposal)"
    unfolding excess_def sorted_wrt_map by (rule sorted_wrt_filter)
  then show "sorted (excess landing proposal)" "distinct (excess landing proposal)"
    by (auto simp: strict_sorted_iff)
qed

lemma excess_unique: "excess landing proposal = sorted_list_of_set {l. copied landing l > copied proposal l}"
  using excess_sorted [of landing proposal] set_excess [of landing proposal]
  by (metis sorted_list_of_set.idem_if_sorted_distinct)

text \<open>
  The lines taken from the target beyond those the author took from the base; with the sides
  exchanged, the lines added beyond those the author added.
\<close>

definition reverted_lines :: "string \<Rightarrow> string \<Rightarrow> string \<Rightarrow> string \<Rightarrow> string set" where
  "reverted_lines base target proposed result =
     {l. count (line_bag target - line_bag result) l > count (line_bag base - line_bag proposed) l}"

lemma safety_check_cases:
  "safety_check base target proposed result =
     (let reverted = sorted_list_of_set (reverted_lines base target proposed result);
          injected = sorted_list_of_set (reverted_lines proposed result base target)
      in if reverted = [] \<and> injected = [] then Upholds
         else Violation \<lparr>vi_reverted = reverted, vi_injected = injected\<rparr>)"
  by (simp add: safety_check_def bag_delta_def excess_unique copied_delta copied_bag reverted_lines_def
      Let_def)

lemma finite_excess_lines [simp]: "finite (reverted_lines base target proposed result)"
proof (rule finite_subset [of _ "set_mset (line_bag target)"])
  have "l \<in># line_bag target" if "l \<in> reverted_lines base target proposed result" for l
  proof -
    have "count (line_bag target) l \<noteq> 0" using that unfolding reverted_lines_def mem_Collect_eq count_diff by linarith
    then show ?thesis by (simp only: count_eq_zero_iff not_not)
  qed
  then show "reverted_lines base target proposed result \<subseteq> set_mset (line_bag target)" by blast
qed simp

lemma upholds_iff:
  "safety_check base target proposed result = Upholds \<longleftrightarrow>
     reverted_lines base target proposed result = {} \<and> reverted_lines proposed result base target = {}"
  by (simp add: safety_check_cases Let_def)

text \<open>
  C16: the safety check is containment of multisets. A resolution upholds the invariant exactly when the
  lines it takes from the target, counted, are among the lines the author took from the base, and
  the lines it adds are among those the author added; otherwise the evidence lists, in order and
  without repetition, exactly the lines for which one of the two fails.
\<close>

theorem safety_check_bags:
  "safety_check base target proposed result =
     (if line_bag target - line_bag result \<subseteq># line_bag base - line_bag proposed \<and>
         line_bag result - line_bag target \<subseteq># line_bag proposed - line_bag base
      then Upholds
      else Violation
        \<lparr>vi_reverted = sorted_list_of_set
           {l. count (line_bag target - line_bag result) l > count (line_bag base - line_bag proposed) l},
         vi_injected = sorted_list_of_set
           {l. count (line_bag result - line_bag target) l > count (line_bag proposed - line_bag base) l}\<rparr>)"
proof -
  have "reverted_lines base target proposed result = {} \<longleftrightarrow>
      line_bag target - line_bag result \<subseteq># line_bag base - line_bag proposed"
    by (auto simp: reverted_lines_def subseteq_mset_def not_less)
  moreover have "reverted_lines proposed result base target = {} \<longleftrightarrow>
      line_bag result - line_bag target \<subseteq># line_bag proposed - line_bag base"
    by (auto simp: reverted_lines_def subseteq_mset_def not_less)
  ultimately show ?thesis
    unfolding reverted_lines_def [symmetric]
    by (simp add: safety_check_cases Let_def)
qed

text \<open>
  C17: work the author never touched survives. When a resolution upholds the invariant, a line of the
  target that the author did not remove from the base occurs at least as often in the result, and a
  line the author did not add occurs at most as often.
\<close>

theorem untouched_lines_survive:
  assumes "safety_check base target proposed result = Upholds"
  shows "(count (line_bag base) l \<le> count (line_bag proposed) l \<longrightarrow>
      count (line_bag target) l \<le> count (line_bag result) l) \<and>
    (count (line_bag proposed) l \<le> count (line_bag base) l \<longrightarrow>
      count (line_bag result) l \<le> count (line_bag target) l)"
proof -
  have "l \<notin> reverted_lines base target proposed result" "l \<notin> reverted_lines proposed result base target"
    using assms by (simp_all add: upholds_iff)
  then show ?thesis by (auto simp: reverted_lines_def)
qed

lemma untouched_lines_survive_witness:
  "safety_check ''a'' (''a'' @ [line_feed] @ ''k'') (''b'') (''b'' @ [line_feed] @ ''k'') = Upholds \<and>
   count (line_bag (''a'' @ [line_feed] @ ''k'')) ''k'' \<le> count (line_bag (''b'' @ [line_feed] @ ''k'')) ''k''"
proof -
  have u: "safety_check ''a'' (''a'' @ [line_feed] @ ''k'') (''b'') (''b'' @ [line_feed] @ ''k'') = Upholds"
    by (auto simp: safety_check_bags str_lines.simps line_feed_def strip_cr_def)
  show ?thesis using untouched_lines_survive [OF u, of "''k''"] u by (simp add: str_lines.simps line_feed_def strip_cr_def)
qed

section \<open>The order of the strategies\<close>

definition attempts :: "strategy list \<Rightarrow> string \<Rightarrow> string \<Rightarrow> string \<Rightarrow> pipeline_result list" where
  "attempts ss base left right =
     map (\<lambda>s. \<lparr>pr_outcome = sg_merge s base left right, pr_strategy = sg_name s\<rparr>) ss"

fun resolves :: "merge_outcome \<Rightarrow> bool" where
  "resolves (Resolved _) = True"
| "resolves _ = False"

fun conflicts :: "merge_outcome \<Rightarrow> bool" where
  "conflicts (MergeConflict _) = True"
| "conflicts _ = False"

lemma run_strategies_attempts:
  "run_strategies lc ss base left right =
     (case find (resolves \<circ> pr_outcome) (attempts ss base left right) of
        Some r \<Rightarrow> Some r
      | None \<Rightarrow> (case filter (conflicts \<circ> pr_outcome) (attempts ss base left right) of
                  [] \<Rightarrow> lc | cs \<Rightarrow> Some (last cs)))"
proof (induction lc ss base left right rule: run_strategies.induct)
  case (2 lc s ss base left right)
  then show ?case
    by (cases "sg_merge s base left right") (simp_all add: attempts_def split: option.splits list.splits)
qed (simp add: attempts_def)

lemma run_strategies_None:
  "run_strategies lc ss base left right = None \<longleftrightarrow>
     lc = None \<and> (\<forall>s \<in> set ss. \<exists>why. sg_merge s base left right = Unavailable why)"
  by (induction lc ss base left right rule: run_strategies.induct) (auto split: merge_outcome.splits)

text \<open>
  C35: the first clean resolution wins, otherwise the last conflict stands. The result of a pipeline is the
  attempt of the first strategy that resolves; when none does, it is the attempt of the last one
  that ran into a conflict; the pipeline panics exactly when every strategy is unavailable.
\<close>

theorem pipeline_order:
  "pipeline_merge ss base left right =
     (case find (resolves \<circ> pr_outcome) (attempts ss base left right) of
        Some r \<Rightarrow> Some r
      | None \<Rightarrow> (case filter (conflicts \<circ> pr_outcome) (attempts ss base left right) of
                  [] \<Rightarrow> None | cs \<Rightarrow> Some (last cs))) \<and>
   (pipeline_merge ss base left right = None \<longleftrightarrow>
     list_all (\<lambda>s. \<exists>why. sg_merge s base left right = Unavailable why) ss)"
proof
  show "pipeline_merge ss base left right = None \<longleftrightarrow>
      list_all (\<lambda>s. \<exists>why. sg_merge s base left right = Unavailable why) ss"
    by (simp add: pipeline_merge_def run_strategies_None list_all_iff)
qed (simp add: pipeline_merge_def run_strategies_attempts)

text \<open>The trivial strategy takes one side whole, which is always within the proposal.\<close>

lemma trivial_upholds:
  assumes "sg_merge trivial_merge base left right = Resolved text"
  shows "safety_check base left right text = Upholds"
  using assms by (auto simp: trivial_merge_def upholds_iff reverted_lines_def split: if_splits)

section \<open>The scan\<close>

lemma settle_findings_spec:
  "settle_findings relocated survives fs report surviving = (report', surviving') \<Longrightarrow>
   \<exists>new. sc_findings report' = sc_findings report @ new \<and>
     sc_paths_all_relocated report' + length new = sc_paths_all_relocated report + length fs \<and>
     sc_merges_scanned report' = sc_merges_scanned report \<and> sc_paths_scanned report' = sc_paths_scanned report \<and>
     sc_lines_relocated report' = sc_lines_relocated report \<and>
     (\<forall>f' \<in> set new. (fi_reverted f' \<noteq> [] \<or> fi_injected f' \<noteq> []) \<and>
        (\<exists>f \<in> set fs. fi_merge f' = fi_merge f \<and> fi_path f' = fi_path f \<and>
           set (fi_reverted f') = set (fi_reverted f) - relocated \<and> set (fi_injected f') = set (fi_injected f) - relocated))"
proof (induction fs arbitrary: report surviving)
  case Nil
  then show ?case by simp
next
  case (Cons f fs)
  define f' where "f' = f\<lparr>fi_reverted := filter (\<lambda>l. l \<notin> relocated) (fi_reverted f),
    fi_injected := filter (\<lambda>l. l \<notin> relocated) (fi_injected f)\<rparr>"
  have sets: "set (fi_reverted f') = set (fi_reverted f) - relocated" "set (fi_injected f') = set (fi_injected f) - relocated"
    "fi_merge f' = fi_merge f" "fi_path f' = fi_path f"
    by (auto simp: f'_def)
  show ?case
  proof (cases "fi_reverted f' = [] \<and> fi_injected f' = []")
    case True
    then have "settle_findings relocated survives fs
        (report\<lparr>sc_paths_all_relocated := sc_paths_all_relocated report + 1\<rparr>) surviving = (report', surviving')"
      using Cons.prems by (simp add: f'_def Let_def)
    from Cons.IH [OF this] show ?thesis by auto
  next
    case False
    define outlives where "outlives = filter (\<lambda>l. l \<in> survives) (fi_reverted f')"
    define report1 where "report1 = report\<lparr>sc_findings_all_surviving := sc_findings_all_surviving report +
        (if fi_injected f' = [] \<and> length outlives = length (fi_reverted f') then 1 else 0),
        sc_findings := sc_findings report @ [f']\<rparr>"
    have "settle_findings relocated survives (f # fs) report surviving =
        settle_findings relocated survives fs report1 (surviving \<union> set outlives)"
      unfolding settle_findings.simps Let_def f'_def [symmetric] if_not_P [OF False] report1_def outlives_def ..
    from Cons.IH [OF this [symmetric, THEN trans, OF Cons.prems]] obtain new where
      "sc_findings report' = sc_findings report1 @ new"
      "sc_paths_all_relocated report' + length new = sc_paths_all_relocated report1 + length fs"
      "sc_merges_scanned report' = sc_merges_scanned report1" "sc_paths_scanned report' = sc_paths_scanned report1"
      "sc_lines_relocated report' = sc_lines_relocated report1"
      "\<forall>f' \<in> set new. (fi_reverted f' \<noteq> [] \<or> fi_injected f' \<noteq> []) \<and>
        (\<exists>f \<in> set fs. fi_merge f' = fi_merge f \<and> fi_path f' = fi_path f \<and>
           set (fi_reverted f') = set (fi_reverted f) - relocated \<and> set (fi_injected f') = set (fi_injected f) - relocated)"
      by blast
    then show ?thesis
      using False sets by (intro exI [of _ "f' # new"]) (auto simp: report1_def)
  qed
qed

text \<open>
  C36: the scan of a merge accounts for every path. Each path whose merge violates the invariant either
  becomes a finding or is counted as relocated; a finding is never empty and names one of the
  paths, and no line is reported as reverted in one path and injected in another of the same merge.
\<close>

theorem scan_merge_accounts:
  "\<exists>new. sc_findings (scan_merge merge paths report) = sc_findings report @ new \<and>
    sc_merges_scanned (scan_merge merge paths report) = sc_merges_scanned report + 1 \<and>
    sc_paths_scanned (scan_merge merge paths report) = sc_paths_scanned report + length paths \<and>
    sc_paths_all_relocated (scan_merge merge paths report) + length new =
      sc_paths_all_relocated report +
      length (filter (\<lambda>(_, b). safety_check (bl_base b) (bl_target b) (bl_proposed b) (bl_result b) \<noteq> Upholds) paths) \<and>
    list_all (\<lambda>f. fi_merge f = merge \<and> fi_path f \<in> fst ` set paths \<and> (fi_reverted f, fi_injected f) \<noteq> ([], []) \<and>
       list_all (\<lambda>l. is_evidence l \<and> list_all (\<lambda>g. l \<notin> set (fi_injected g)) new) (fi_reverted f)) new"
proof -
  define raw where "raw = List.map_filter (raw_finding merge) paths"
  define relocated where "relocated = \<Union> (set (map (set \<circ> fi_reverted) raw)) \<inter> \<Union> (set (map (set \<circ> fi_injected) raw))"
  define survives where "survives = set (filter is_evidence (concat (map (\<lambda>(_, b). str_lines (bl_result b)) paths)))"
  define report1 where "report1 = report\<lparr>sc_merges_scanned := sc_merges_scanned report + 1,
      sc_paths_scanned := sc_paths_scanned report + length paths,
      sc_lines_relocated := sc_lines_relocated report + card relocated\<rparr>"
  obtain report2 surviving where s: "settle_findings relocated survives raw report1 {} = (report2, surviving)"
    by (cases "settle_findings relocated survives raw report1 {}")
  have scan: "scan_merge merge paths report =
      report2\<lparr>sc_lines_surviving_elsewhere := sc_lines_surviving_elsewhere report2 + card surviving\<rparr>"
    unfolding scan_merge_def raw_def [symmetric] Let_def relocated_def [symmetric] survives_def [symmetric]
      report1_def [symmetric] s by simp
  have raw_len: "length raw =
      length (filter (\<lambda>(_, b). safety_check (bl_base b) (bl_target b) (bl_proposed b) (bl_result b) \<noteq> Upholds) paths)"
    unfolding raw_def by (induction paths) (auto simp: map_filter_simps raw_finding_def split: safety_verdict.splits)
  have raw_mem: "fi_merge f = merge \<and> fi_path f \<in> fst ` set paths \<and> (\<forall>l \<in> set (fi_reverted f). is_evidence l)"
    if f: "f \<in> set raw" for f
  proof -
    obtain path b where pb: "(path, b) \<in> set paths" "raw_finding merge (path, b) = Some f"
      using f by (auto simp: raw_def map_filter_def)
    have "fi_merge f = merge \<and> fi_path f = path \<and> (\<forall>l \<in> set (fi_reverted f). is_evidence l)"
      using pb(2) by (auto simp: raw_finding_def split: safety_verdict.splits)
    moreover have "path \<in> fst ` set paths" using pb(1) by force
    ultimately show ?thesis by simp
  qed
  obtain new where counts: "sc_findings report2 = sc_findings report1 @ new"
      "sc_paths_all_relocated report2 + length new = sc_paths_all_relocated report1 + length raw"
      "sc_merges_scanned report2 = sc_merges_scanned report1" "sc_paths_scanned report2 = sc_paths_scanned report1"
    and new: "\<forall>f' \<in> set new. (fi_reverted f' \<noteq> [] \<or> fi_injected f' \<noteq> []) \<and>
        (\<exists>f \<in> set raw. fi_merge f' = fi_merge f \<and> fi_path f' = fi_path f \<and>
           set (fi_reverted f') = set (fi_reverted f) - relocated \<and> set (fi_injected f') = set (fi_injected f) - relocated)"
    using settle_findings_spec [OF s] by (elim exE conjE) (rule that)
  have disjoint: "l \<notin> set (fi_injected g)" if fg: "f \<in> set new" "g \<in> set new" "l \<in> set (fi_reverted f)" for f g l
  proof
    assume l: "l \<in> set (fi_injected g)"
    obtain f0 where f0: "f0 \<in> set raw" "set (fi_reverted f) = set (fi_reverted f0) - relocated" using new fg(1) by blast
    obtain g0 where g0: "g0 \<in> set raw" "set (fi_injected g) = set (fi_injected g0) - relocated" using new fg(2) by blast
    have "l \<in> set (fi_reverted f0)" "l \<in> set (fi_injected g0)" "l \<notin> relocated"
      using fg(3) l unfolding f0(2) g0(2) by simp_all
    moreover have "l \<in> relocated" using calculation(1,2) f0(1) g0(1) by (auto simp: relocated_def)
    ultimately show False by simp
  qed
  have mem: "fi_merge f = merge \<and> fi_path f \<in> fst ` set paths \<and> (fi_reverted f \<noteq> [] \<or> fi_injected f \<noteq> []) \<and>
      (\<forall>l \<in> set (fi_reverted f). is_evidence l)" if f: "f \<in> set new" for f
  proof -
    obtain g where "g \<in> set raw" "fi_merge f = fi_merge g" "fi_path f = fi_path g"
        "set (fi_reverted f) = set (fi_reverted g) - relocated" "fi_reverted f \<noteq> [] \<or> fi_injected f \<noteq> []"
      using new f by blast
    then show ?thesis using raw_mem [of g] by auto
  qed
  have fields: "sc_findings (scan_merge merge paths report) = sc_findings report @ new"
    "sc_merges_scanned (scan_merge merge paths report) = sc_merges_scanned report + 1"
    "sc_paths_scanned (scan_merge merge paths report) = sc_paths_scanned report + length paths"
    "sc_paths_all_relocated (scan_merge merge paths report) + length new = sc_paths_all_relocated report + length raw"
    using counts unfolding scan report1_def by simp_all
  have lines: "list_all (\<lambda>f. fi_merge f = merge \<and> fi_path f \<in> fst ` set paths \<and> (fi_reverted f, fi_injected f) \<noteq> ([], []) \<and>
       list_all (\<lambda>l. is_evidence l \<and> list_all (\<lambda>g. l \<notin> set (fi_injected g)) new) (fi_reverted f)) new"
    unfolding list_all_iff prod.inject de_Morgan_conj using mem disjoint by blast
  show ?thesis
    by (rule exI [of _ new], intro conjI fields(1-3) lines) (use fields(4) raw_len in simp)
qed

text \<open>
  C39: a path whose only difference is blank lines is counted as relocated. When every line of a violation
  is white space, the scan reports no finding and counts the path in \<open>paths_all_relocated\<close>, though
  no line was relocated.
\<close>

theorem blank_violation_counted_relocated:
  assumes "safety_check (bl_base b) (bl_target b) (bl_proposed b) (bl_result b) = Violation v"
    and "\<forall>l \<in> set (vi_reverted v) \<union> set (vi_injected v). \<not> is_evidence l"
  shows "scan_merge merge [(path, b)] scan_new =
    scan_new\<lparr>sc_merges_scanned := 1, sc_paths_scanned := 1, sc_paths_all_relocated := 1\<rparr>"
proof -
  have f: "filter is_evidence (vi_reverted v) = []" "filter is_evidence (vi_injected v) = []"
    using assms(2) by (auto simp: filter_empty_conv)
  then have "List.map_filter (raw_finding merge) [(path, b)] =
      [\<lparr>fi_merge = merge, fi_path = path, fi_reverted = [], fi_injected = []\<rparr>]"
    using assms(1) by (simp add: map_filter_simps raw_finding_def)
  then show ?thesis by (simp add: scan_merge_def scan_new_def Let_def)
qed

lemma blank_violation_counted_relocated_witness:
  "sc_paths_all_relocated (scan_merge ''m''
     [(''p'', \<lparr>bl_base = ''a'', bl_target = ''a'', bl_proposed = ''a'', bl_result = ''a'' @ [line_feed, CHR '' '']\<rparr>)] scan_new) = 1"
proof -
  let ?b = "\<lparr>bl_base = ''a'', bl_target = ''a'', bl_proposed = ''a'', bl_result = ''a'' @ [line_feed, CHR '' '']\<rparr>"
  have lines: "str_lines ''a'' = [''a'']" "str_lines (''a'' @ [line_feed, CHR '' '']) = [''a'', '' '']"
    by (simp_all add: str_lines.simps line_feed_def strip_cr_def)
  have "{l. l = '' ''} = {'' ''}" by auto
  then have v: "safety_check (bl_base ?b) (bl_target ?b) (bl_proposed ?b) (bl_result ?b) =
      Violation \<lparr>vi_reverted = [], vi_injected = ['' '']\<rparr>"
    using lines by (simp add: safety_check_bags count_single)
  have "\<not> is_evidence '' ''" by (simp add: is_evidence_def blank.simps white_space_def is_prefix_def)
  then show ?thesis using blank_violation_counted_relocated [OF v] by (simp add: scan_new_def)
qed

end
