(* ===== verification/Queue.thy ===== *)
theory Queue
  imports Merge Sequencer
begin

text \<open>
  \<open>crates/choir-queue/src\<close>: the speculative merge queue. A train of queued changes is merged, each onto
  the state the changes ahead of it would leave, CI answers for every member, the green prefix
  lands, a failure is evicted and the rest is tested again. The speculator, the executor, the landing
  and the sequencer behind the check reports are trait objects: one record of functions over a
  world \<open>'e\<close> they share. A panic is \<open>None\<close>.
\<close>

section \<open>Changes and verdicts\<close>

definition default_window :: nat where
  "default_window = 20"

record change =
  ch_id :: nat
  ch_workspace :: string
  ch_base :: string
  ch_proposed :: string
  ch_depends :: "nat list"

datatype rejection =
    RejConflict
  | RejCiFailure
  | RejSafety string violation
  | RejDependency nat
  | RejLanded

datatype spec_step =
    Advanced string
  | StepConflict
  | StepUnsafe string violation
  | StepUnavailable string

datatype ci_verdict =
    CiPassed
  | CiFailed "int option"
  | CiErrored string string
  | CiTimedOut

fun evicts :: "ci_verdict \<Rightarrow> bool" where
  "evicts (CiFailed _) = True"
| "evicts _ = False"

fun as_check_status :: "ci_verdict \<Rightarrow> check_status" where
  "as_check_status CiPassed = Passed"
| "as_check_status (CiFailed _) = Failed"
| "as_check_status (CiErrored _ _) = Errored"
| "as_check_status CiTimedOut = Errored"

fun is_conclusive :: "ci_verdict \<Rightarrow> bool" where
  "is_conclusive CiPassed = True"
| "is_conclusive (CiFailed _) = True"
| "is_conclusive _ = False"

definition show_int :: "int \<Rightarrow> string" where
  "show_int z = (if z < 0 then CHR ''-'' # show_nat (nat (- z)) else show_nat (nat z))"

fun show_verdict :: "ci_verdict \<Rightarrow> string" where
  "show_verdict CiPassed = ''passed''"
| "show_verdict (CiFailed (Some c)) = ''failed (exit '' @ show_int c @ '')''"
| "show_verdict (CiFailed None) = ''failed (killed by signal)''"
| "show_verdict (CiErrored provider detail) = provider @ '': '' @ detail"
| "show_verdict CiTimedOut = ''timed out''"

datatype executor_error = ExecUnavailable string | ExecProtocol string

fun show_executor_error :: "executor_error \<Rightarrow> string" where
  "show_executor_error (ExecUnavailable m) = ''executor unavailable: '' @ m"
| "show_executor_error (ExecProtocol m) = ''executor protocol error: '' @ m"

section \<open>Jobs\<close>

record job =
  jb_subject :: content_hash
  jb_label :: string
  jb_command :: "string list"
  jb_environment :: "(string, string) btmap"
  jb_directory :: "string option"
  jb_deadline :: nat
  jb_may_write_cache :: bool

definition default_deadline :: nat where
  "default_deadline = 600 * 10 ^ 9"

definition new_job :: "content_hash \<Rightarrow> string list \<Rightarrow> job" where
  "new_job subject command =
     \<lparr>jb_subject = subject, jb_label = [], jb_command = command, jb_environment = bt_empty, jb_directory = None,
      jb_deadline = default_deadline, jb_may_write_cache = False\<rparr>"

record job_template =
  jt_command :: "string list"
  jt_environment :: "(string, string) btmap"
  jt_deadline :: "nat option"
  jt_may_write_cache :: bool

definition job_for :: "job_template \<Rightarrow> change \<Rightarrow> content_hash \<Rightarrow> job" where
  "job_for t c subject =
     (let job = (new_job subject (jt_command t))\<lparr>jb_label := show_nat (ch_id c), jb_environment := jt_environment t,
                  jb_may_write_cache := jt_may_write_cache t\<rparr>
      in case jt_deadline t of None \<Rightarrow> job | Some d \<Rightarrow> job\<lparr>jb_deadline := d\<rparr>)"

text \<open>The preimage of the cache key: counts and length-prefixed fields; a length is a \<open>u64\<close>, little endian.\<close>

definition push_len :: "nat \<Rightarrow> bytes" where
  "push_len n = map (\<lambda>i. of_nat (n div 256 ^ i)) [0..<8]"

definition string_bytes :: "string \<Rightarrow> bytes" where
  "string_bytes s = map of_char s"

definition push_field :: "bytes \<Rightarrow> bytes" where
  "push_field field = push_len (length field) @ field"

definition cache_preimage :: "job \<Rightarrow> bytes" where
  "cache_preimage j =
     push_field (string_bytes (to_hex (jb_subject j))) @
     push_len (length (jb_command j)) @
     concat (map (push_field \<circ> string_bytes) (jb_command j)) @
     push_len (bt_size (jb_environment j)) @
     concat (map (\<lambda>(k, v). push_field (string_bytes k) @ push_field (string_bytes v)) (bt_items (jb_environment j))) @
     (case jb_directory j of None \<Rightarrow> push_len 0 | Some dir \<Rightarrow> push_len 1 @ push_field (string_bytes dir))"

definition cache_key :: "(bytes \<Rightarrow> bytes) \<Rightarrow> job \<Rightarrow> content_hash" where
  "cache_key b3 j = blake3 b3 (cache_preimage j)"

section \<open>The queue\<close>

record check_reporter =
  rp_channel :: string
  rp_name :: string
  rp_target_ref :: "string option"
  rp_seal :: "(string \<Rightarrow> view_op \<Rightarrow> bytes \<times> witness option) option"

record 'e queue_env =
  qe_name :: string
  qe_step :: "'e \<Rightarrow> string \<Rightarrow> string \<Rightarrow> string \<Rightarrow> (spec_step \<times> 'e) option"
  qe_identity :: "change \<Rightarrow> string"
  qe_subject :: "string \<Rightarrow> content_hash"
  qe_run :: "'e \<Rightarrow> job list \<Rightarrow> (executor_error + ci_verdict list) \<times> 'e"
  qe_land :: "'e \<Rightarrow> change \<Rightarrow> content_hash \<Rightarrow> (string + unit) \<times> 'e"
  qe_submit :: "'e \<Rightarrow> string \<Rightarrow> bytes \<Rightarrow> witness option \<Rightarrow> (string + unit) \<times> 'e"
  qe_op_json :: "view_op \<Rightarrow> bytes"
  qe_recall :: "string \<Rightarrow> string \<Rightarrow> string \<Rightarrow> string option"

record 'e merge_queue =
  mq_world :: 'e
  mq_base :: string
  mq_window :: nat
  mq_max_window :: nat
  mq_queue :: "change list"
  mq_landed :: "string set"
  mq_journal :: "event list"
  mq_template :: job_template
  mq_reporter :: "check_reporter option"

record queue_report =
  qr_merged :: "nat list"
  qr_rejected :: "(nat \<times> rejection) list"
  qr_window_trace :: "nat list"
  qr_ci_runs :: nat
  qr_merge_invocations :: nat
  qr_replayed :: "nat list"
  qr_provider_error :: "string option"
  qr_unreported_checks :: "string list"

definition default_template :: job_template where
  "default_template = \<lparr>jt_command = [], jt_environment = bt_empty, jt_deadline = None, jt_may_write_cache = False\<rparr>"

definition new_queue :: "'e \<Rightarrow> string \<Rightarrow> 'e merge_queue" where
  "new_queue world base =
     \<lparr>mq_world = world, mq_base = base, mq_window = default_window, mq_max_window = default_window, mq_queue = [],
      mq_landed = {}, mq_journal = [], mq_template = default_template, mq_reporter = None\<rparr>"

definition submit_change :: "'e merge_queue \<Rightarrow> change \<Rightarrow> 'e merge_queue" where
  "submit_change q c = q\<lparr>mq_queue := mq_queue q @ [c]\<rparr>"

definition mark_landed :: "'e merge_queue \<Rightarrow> string \<Rightarrow> 'e merge_queue" where
  "mark_landed q identity = q\<lparr>mq_landed := insert identity (mq_landed q)\<rparr>"

definition resize :: "'e merge_queue \<Rightarrow> nat \<Rightarrow> string \<Rightarrow> 'e merge_queue" where
  "resize q to cause =
     (let before = mq_window q; after = min to (mq_max_window q) in
      q\<lparr>mq_window := after,
        mq_journal := (if before \<noteq> after then mq_journal q @ [WindowResize before after cause] else mq_journal q)\<rparr>)"

definition set_max_window :: "'e merge_queue \<Rightarrow> nat \<Rightarrow> 'e merge_queue option" where
  "set_max_window q n =
     (if n = 0 then None
      else (let q' = q\<lparr>mq_max_window := n\<rparr> in
            Some (if mq_window q' > n then resize q' n ''max window lowered'' else q')))"

section \<open>Building the train\<close>

record 'e building =
  bd_queue :: "'e merge_queue"
  bd_speculative :: string
  bd_train :: "(change \<times> string) list"
  bd_rejects :: "(nat \<times> rejection) list"
  bd_replayed :: "nat list"
  bd_invocations :: nat
  bd_error :: "string option"

fun build_train :: "'e queue_env \<Rightarrow> nat \<Rightarrow> 'e building \<Rightarrow> 'e building option" where
  "build_train env 0 b = Some b"
| "build_train env (Suc n) b =
     (let q = bd_queue b in
      case mq_queue q of
        [] \<Rightarrow> None
      | c # rest \<Rightarrow>
          (let b0 = b\<lparr>bd_queue := q\<lparr>mq_queue := rest\<rparr>\<rparr> in
           if qe_identity env c \<in> mq_landed q
           then build_train env n (b0\<lparr>bd_rejects := bd_rejects b @ [(ch_id c, RejLanded)]\<rparr>)
           else case qe_recall env (ch_base c) (bd_speculative b) (ch_proposed c) of
             Some remembered \<Rightarrow>
               build_train env n
                 (b0\<lparr>bd_speculative := remembered, bd_replayed := bd_replayed b @ [ch_id c],
                     bd_train := bd_train b @ [(c, remembered)]\<rparr>)
           | None \<Rightarrow>
               (case qe_step env (mq_world q) (ch_base c) (bd_speculative b) (ch_proposed c) of
                  None \<Rightarrow> None
                | Some (out, world) \<Rightarrow>
                    (let q1 = q\<lparr>mq_queue := rest, mq_world := world\<rparr>;
                         b1 = b\<lparr>bd_queue := q1, bd_invocations := bd_invocations b + 1\<rparr>
                     in case out of
                          Advanced state \<Rightarrow>
                            build_train env n (b1\<lparr>bd_speculative := state, bd_train := bd_train b @ [(c, state)]\<rparr>)
                        | StepConflict \<Rightarrow> build_train env n (b1\<lparr>bd_rejects := bd_rejects b @ [(ch_id c, RejConflict)]\<rparr>)
                        | StepUnsafe name v \<Rightarrow>
                            build_train env n (b1\<lparr>bd_rejects := bd_rejects b @ [(ch_id c, RejSafety name v)]\<rparr>)
                        | StepUnavailable why \<Rightarrow>
                            Some (b1\<lparr>bd_queue := q1\<lparr>mq_queue := c # rest\<rparr>,
                                     bd_error := Some (''speculator `'' @ qe_name env @ ''`: '' @ why)\<rparr>)))))"

section \<open>Landing\<close>

text \<open>\<open>land_prefix\<close>: what is left of the prefix, and the refusal that stopped it.\<close>

fun land_prefix ::
  "'e queue_env \<Rightarrow> 'e merge_queue \<Rightarrow> (change \<times> string) list \<Rightarrow> nat list \<Rightarrow> string \<Rightarrow>
   'e merge_queue \<times> (change \<times> string) list \<times> nat list \<times> string option" where
  "land_prefix env q [] merged cause = (q, [], merged, None)"
| "land_prefix env q ((c, state) # prefix) merged cause =
     (case qe_land env (mq_world q) c (qe_subject env state) of
        (Inl why, world) \<Rightarrow>
          (q\<lparr>mq_world := world\<rparr>, (c, state) # prefix, merged, Some (''landing refused: '' @ why))
      | (Inr _, world) \<Rightarrow>
          land_prefix env
            (resize (q\<lparr>mq_world := world, mq_base := state,
                       mq_landed := insert (qe_identity env c) (mq_landed q)\<rparr>) (mq_window q + 1) cause)
            prefix (merged @ [ch_id c]) cause)"

definition requeue :: "'e merge_queue \<Rightarrow> (change \<times> string) list \<Rightarrow> 'e merge_queue" where
  "requeue q train = q\<lparr>mq_queue := map fst train @ mq_queue q\<rparr>"

section \<open>Ejection\<close>

text \<open>The fixpoint of \<open>drain\<close>: the failing change and everything that transitively depends on it.\<close>

definition dependents :: "change list \<Rightarrow> nat set \<Rightarrow> nat list" where
  "dependents candidates ejected =
     map ch_id (filter (\<lambda>c. ch_id c \<notin> ejected \<and> list_ex (\<lambda>d. d \<in> ejected) (ch_depends c)) candidates)"

function eject :: "change list \<Rightarrow> nat set \<Rightarrow> nat set" where
  "eject candidates ejected =
     (let found = dependents candidates ejected in
      if found = [] then ejected else eject candidates (ejected \<union> set found))"
  by pat_completeness auto
termination
proof (relation "measure (\<lambda>(cs, ejected). card (ch_id ` set cs - ejected))")
  fix candidates :: "change list" and ejected found
  assume f: "found = dependents candidates ejected" "found \<noteq> []"
  then have new: "hd found \<in> set found" by simp
  then have "hd found \<in> ch_id ` set candidates - ejected"
    unfolding f(1) by (auto simp: dependents_def)
  with new have "ch_id ` set candidates - (ejected \<union> set found) \<subset> ch_id ` set candidates - ejected" by blast
  then show "((candidates, ejected \<union> set found), candidates, ejected) \<in>
      measure (\<lambda>(cs, ejected). card (ch_id ` set cs - ejected))"
    by (simp add: psubset_card_mono)
qed simp

declare eject.simps [simp del]

section \<open>Check reports\<close>

definition record_check ::
  "'e queue_env \<Rightarrow> 'e \<Rightarrow> check_reporter \<Rightarrow> job \<Rightarrow> check_status \<Rightarrow> string \<Rightarrow> (string + unit) \<times> 'e" where
  "record_check env world rp j status evidence =
     (let vop = new_view_op (RecordCheck (jb_subject j) (rp_name rp) status evidence (rp_channel rp) (rp_target_ref rp));
          (payload, sig) = (case rp_seal rp of Some seal \<Rightarrow> seal (rp_channel rp) vop | None \<Rightarrow> (qe_op_json env vop, None))
      in qe_submit env world (rp_channel rp) payload sig)"

fun record_checks ::
  "'e queue_env \<Rightarrow> check_reporter \<Rightarrow> 'e \<Rightarrow> (job \<times> check_status \<times> string) list \<Rightarrow> string list \<Rightarrow> 'e \<times> string list" where
  "record_checks env rp world [] unreported = (world, unreported)"
| "record_checks env rp world ((j, status, evidence) # rest) unreported =
     (case record_check env world rp j status evidence of
        (Inl why, world') \<Rightarrow> record_checks env rp world' rest (unreported @ [why])
      | (Inr _, world') \<Rightarrow> record_checks env rp world' rest unreported)"

section \<open>One round\<close>

text \<open>What CI answered: the verdicts, or why there are none.\<close>

definition ci_answers :: "nat \<Rightarrow> executor_error + ci_verdict list \<Rightarrow> ci_verdict list \<times> string option" where
  "ci_answers jobs result =
     (case result of
        Inr vs \<Rightarrow>
          if length vs = jobs then (vs, None)
          else ([], Some (''executor returned '' @ show_nat (length vs) @ '' verdicts for '' @ show_nat jobs @ '' jobs''))
      | Inl e \<Rightarrow> ([], Some (show_executor_error e)))"

definition check_reports :: "job list \<Rightarrow> ci_verdict list \<Rightarrow> string option \<Rightarrow> (job \<times> check_status \<times> string) list" where
  "check_reports jobs verdicts provider_error =
     (case provider_error of
        Some why \<Rightarrow> map (\<lambda>j. (j, Errored, why)) jobs
      | None \<Rightarrow> zip jobs (map (\<lambda>v. (as_check_status v, show_verdict v)) verdicts))"

fun first_not_passed :: "ci_verdict list \<Rightarrow> nat option" where
  "first_not_passed [] = None"
| "first_not_passed (v # vs) = (if v = CiPassed then map_option Suc (first_not_passed vs) else Some 0)"

text \<open>The failure of the first member of \<open>train\<close>, everything before it landed.\<close>

definition settle_failure ::
  "'e merge_queue \<Rightarrow> queue_report \<Rightarrow> (change \<times> string) list \<Rightarrow> 'e merge_queue \<times> queue_report" where
  "settle_failure q r train =
     (let failed = fst (hd train);
          rest = tl train;
          r1 = r\<lparr>qr_rejected := qr_rejected r @ [(ch_id failed, RejCiFailure)]\<rparr>;
          ejected = eject (map fst rest @ mq_queue q) {ch_id failed};
          blame = map (\<lambda>c. (ch_id c, RejDependency (ch_id failed)))
      in if card ejected > 1
         then (let kept = filter (\<lambda>c. ch_id c \<notin> ejected);
                   out = filter (\<lambda>c. ch_id c \<in> ejected)
               in (q\<lparr>mq_queue := kept (kept (map fst rest) @ mq_queue q)\<rparr>,
                   r1\<lparr>qr_rejected := qr_rejected r1 @ blame (out (rev (map fst rest))) @
                                     blame (out (kept (map fst rest) @ mq_queue q))\<rparr>))
         else (requeue (resize q (max (mq_window q div 2) 1) ''combined build failed'') rest, r1))"

definition trace_window :: "'e merge_queue \<times> queue_report \<Rightarrow> 'e merge_queue \<times> queue_report" where
  "trace_window s = (case s of (q, r) \<Rightarrow> (q, r\<lparr>qr_window_trace := qr_window_trace r @ [mq_window q]\<rparr>))"

text \<open>The verdicts are in: land what is green, then stop or settle the failure.\<close>

definition act_on_verdicts ::
  "'e queue_env \<Rightarrow> 'e merge_queue \<Rightarrow> queue_report \<Rightarrow> (change \<times> string) list \<Rightarrow> ci_verdict list \<Rightarrow>
   bool \<times> 'e merge_queue \<times> queue_report" where
  "act_on_verdicts env q r train verdicts =
     (case first_not_passed verdicts of
        None \<Rightarrow>
          (case land_prefix env q train (qr_merged r) ''train landed clean'' of
             (q1, left, merged, refusal) \<Rightarrow>
               (let r1 = r\<lparr>qr_merged := merged\<rparr> in
                case refusal of
                  Some why \<Rightarrow> (False, requeue q1 left, r1\<lparr>qr_provider_error := Some why\<rparr>)
                | None \<Rightarrow> (True, trace_window (q1, r1))))
      | Some i \<Rightarrow>
          (case land_prefix env q (take i train) (qr_merged r) ''green prefix landed'' of
             (q1, left, merged, refusal) \<Rightarrow>
               (let r1 = r\<lparr>qr_merged := merged\<rparr>;
                    void = requeue (requeue q1 (drop i train)) left
                in if \<not> evicts (verdicts ! i)
                   then (False, void,
                         r1\<lparr>qr_provider_error :=
                              Some (case refusal of Some why \<Rightarrow> why | None \<Rightarrow> show_verdict (verdicts ! i))\<rparr>)
                   else case refusal of
                          Some why \<Rightarrow> (False, void, r1\<lparr>qr_provider_error := Some why\<rparr>)
                        | None \<Rightarrow> (True, trace_window (settle_failure q1 r1 (drop i train))))))"

definition round_building :: "'e merge_queue \<Rightarrow> 'e building" where
  "round_building q =
     \<lparr>bd_queue = q, bd_speculative = mq_base q, bd_train = [], bd_rejects = [], bd_replayed = [], bd_invocations = 0,
      bd_error = None\<rparr>"

text \<open>One pass of the loop of \<open>drain\<close>; the flag says whether it goes on.\<close>

definition drain_round ::
  "'e queue_env \<Rightarrow> 'e merge_queue \<Rightarrow> queue_report \<Rightarrow> (bool \<times> 'e merge_queue \<times> queue_report) option" where
  "drain_round env q r =
     (case build_train env (min (mq_window q) (length (mq_queue q))) (round_building q) of
        None \<Rightarrow> None
      | Some b \<Rightarrow>
          (let r1 = r\<lparr>qr_rejected := qr_rejected r @ bd_rejects b, qr_replayed := qr_replayed r @ bd_replayed b,
                      qr_merge_invocations := qr_merge_invocations r + bd_invocations b\<rparr>;
               q1 = bd_queue b;
               train = bd_train b
           in Some (case bd_error b of
                Some why \<Rightarrow> (False, requeue q1 train, r1\<lparr>qr_provider_error := Some why\<rparr>)
              | None \<Rightarrow>
                  (let jobs = map (\<lambda>(c, state). job_for (mq_template q1) c (qe_subject env state)) train in
                   case qe_run env (mq_world q1) jobs of
                     (result, world) \<Rightarrow>
                       (case ci_answers (length jobs) result of
                          (verdicts, fault) \<Rightarrow>
                            (case (case mq_reporter q1 of
                                     None \<Rightarrow> (world, [])
                                   | Some rp \<Rightarrow> record_checks env rp world (check_reports jobs verdicts fault) []) of
                               (world', unreported) \<Rightarrow>
                                 (let q2 = q1\<lparr>mq_world := world'\<rparr>;
                                      r2 = r1\<lparr>qr_ci_runs := qr_ci_runs r1 + length jobs,
                                              qr_unreported_checks := qr_unreported_checks r1 @ unreported\<rparr>
                                  in case fault of
                                       Some why \<Rightarrow> (False, requeue q2 train, r2\<lparr>qr_provider_error := Some why\<rparr>)
                                     | None \<Rightarrow> act_on_verdicts env q2 r2 train verdicts)))))))"

text \<open>The loop: it need not end for a window of 0, which is the value \<open>None\<close>.\<close>

partial_function (option) drain_loop ::
  "'e queue_env \<Rightarrow> 'e merge_queue \<Rightarrow> queue_report \<Rightarrow> ('e merge_queue \<times> queue_report) option" where
  "drain_loop env q r =
     (if mq_queue q = [] then Some (q, r)
      else Option.bind (drain_round env q r)
             (\<lambda>(more, q', r'). if more then drain_loop env q' r' else Some (q', r')))"

definition new_report :: queue_report where
  "new_report = \<lparr>qr_merged = [], qr_rejected = [], qr_window_trace = [], qr_ci_runs = 0, qr_merge_invocations = 0,
     qr_replayed = [], qr_provider_error = None, qr_unreported_checks = []\<rparr>"

text \<open>\<open>drain\<close>: the queue it leaves, the report, and the final state the report carries.\<close>

definition drain_queue ::
  "'e queue_env \<Rightarrow> 'e merge_queue \<Rightarrow> ('e merge_queue \<times> queue_report \<times> string) option" where
  "drain_queue env q = map_option (\<lambda>(q', r). (q', r, mq_base q')) (drain_loop env q new_report)"

section \<open>The text speculator and the workspace landing\<close>

definition text_step :: "strategy list \<Rightarrow> string \<Rightarrow> string \<Rightarrow> string \<Rightarrow> spec_step option" where
  "text_step ss base onto proposed =
     (case pipeline_merge ss base onto proposed of
        None \<Rightarrow> None
      | Some resolution \<Rightarrow>
          (case pr_outcome resolution of
             Resolved state \<Rightarrow>
               (case safety_check base onto proposed state of
                  Upholds \<Rightarrow> Some (Advanced state)
                | Violation v \<Rightarrow> Some (StepUnsafe (pr_strategy resolution) v))
           | MergeConflict _ \<Rightarrow> Some StepConflict
           | Unavailable _ \<Rightarrow> None))"

definition text_subject :: "(bytes \<Rightarrow> bytes) \<Rightarrow> string \<Rightarrow> content_hash" where
  "text_subject b3 state = blake3 b3 (string_bytes state)"

definition change_identity ::
  "(bytes \<Rightarrow> bytes) \<Rightarrow> (string \<Rightarrow> string \<Rightarrow> diff_line list list) \<Rightarrow> change \<Rightarrow> string" where
  "change_identity b3 create_patch c =
     to_hex (blake3 b3 (string_bytes (normalized_diff create_patch (ch_base c) (ch_proposed c))))"

definition workspace_landing ::
  "(view_op \<Rightarrow> bytes) \<Rightarrow> ('e \<Rightarrow> string \<Rightarrow> bytes \<Rightarrow> witness option \<Rightarrow> (string + unit) \<times> 'e) \<Rightarrow>
   'e \<Rightarrow> change \<Rightarrow> content_hash \<Rightarrow> (string + unit) \<times> 'e" where
  "workspace_landing op_json submit world c commit =
     submit world (ch_workspace c) (op_json (new_view_op (SetWorkspaceHead (ch_workspace c) commit None))) None"

text \<open>The in-tree fake executor.\<close>

definition synthetic_run :: "(job \<Rightarrow> ci_verdict) \<Rightarrow> 'e \<Rightarrow> job list \<Rightarrow> (executor_error + ci_verdict list) \<times> 'e" where
  "synthetic_run answer world jobs = (Inr (map answer jobs), world)"

definition failing_labels :: "string list \<Rightarrow> job \<Rightarrow> ci_verdict" where
  "failing_labels labels j = (if jb_label j \<in> set labels then CiFailed (Some 1) else CiPassed)"

end
