(* ===== verification/Queue_Run.thy ===== *)
theory Queue_Run
  imports Queue "HOL-Library.Sublist"
begin

text \<open>
  What a drain of the merge queue does, whatever the speculator, the executor and the landing answer:
  every change that lands was merged onto the state landed before it, passed CI on exactly that
  state and was taken by the log; every change is landed, rejected or still queued; the order of
  submission is kept; the window stays in its bounds; the loop ends.
\<close>

section \<open>Justified landings\<close>

definition stepped :: "'e queue_env \<Rightarrow> change \<Rightarrow> string \<Rightarrow> string \<Rightarrow> bool" where
  "stepped env c base state \<longleftrightarrow>
     qe_recall env (ch_base c) base (ch_proposed c) = Some state \<or>
     (\<exists>w w'. qe_step env w (ch_base c) base (ch_proposed c) = Some (Advanced state, w'))"

definition answered :: "'e queue_env \<Rightarrow> job \<Rightarrow> ci_verdict \<Rightarrow> bool" where
  "answered env j v \<longleftrightarrow>
     (\<exists>w w' jobs vs i. qe_run env w jobs = (Inr vs, w') \<and> length vs = length jobs \<and> i < length jobs \<and>
        jobs ! i = j \<and> vs ! i = v)"

definition logged :: "'e queue_env \<Rightarrow> change \<Rightarrow> string \<Rightarrow> bool" where
  "logged env c state \<longleftrightarrow> (\<exists>w w'. qe_land env w c (qe_subject env state) = (Inr (), w'))"

fun spec_chain :: "'e queue_env \<Rightarrow> string \<Rightarrow> (change \<times> string) list \<Rightarrow> bool" where
  "spec_chain env base [] = True"
| "spec_chain env base ((c, state) # train) = (stepped env c base state \<and> spec_chain env state train)"

text \<open>One at a time: each change onto the state the change before it left.\<close>

fun landing_chain :: "'e queue_env \<Rightarrow> job_template \<Rightarrow> string \<Rightarrow> (change \<times> string) list \<Rightarrow> bool" where
  "landing_chain env t base [] = True"
| "landing_chain env t base ((c, state) # landings) =
     (stepped env c base state \<and> answered env (job_for t c (qe_subject env state)) CiPassed \<and>
      logged env c state \<and> landing_chain env t state landings)"

definition final_state :: "string \<Rightarrow> (change \<times> string) list \<Rightarrow> string" where
  "final_state base landings = (if landings = [] then base else snd (last landings))"

lemma final_state_Cons [simp]: "final_state base ((c, s) # ls) = final_state s ls"
  by (simp add: final_state_def)

lemma final_state_append: "final_state base (xs @ ys) = final_state (final_state base xs) ys"
  by (simp add: final_state_def)

lemma spec_chain_append:
  "spec_chain env base (xs @ ys) \<longleftrightarrow> spec_chain env base xs \<and> spec_chain env (final_state base xs) ys"
  by (induction env base xs rule: spec_chain.induct) (auto simp: final_state_def)

lemma landing_chain_append:
  "landing_chain env t base (xs @ ys) \<longleftrightarrow>
     landing_chain env t base xs \<and> landing_chain env t (final_state base xs) ys"
  by (induction env t base xs rule: landing_chain.induct) (auto simp: final_state_def)

lemma landing_chainI:
  "spec_chain env base ls \<Longrightarrow>
   \<forall>(c, s) \<in> set ls. answered env (job_for t c (qe_subject env s)) CiPassed \<and> logged env c s \<Longrightarrow>
   landing_chain env t base ls"
  by (induction env base ls rule: spec_chain.induct) auto

abbreviation ids :: "change list \<Rightarrow> nat list" where
  "ids \<equiv> map ch_id"

abbreviation train_ids :: "(change \<times> string) list \<Rightarrow> nat list" where
  "train_ids \<equiv> map (ch_id \<circ> fst)"

section \<open>The train\<close>

definition same_settings :: "'e merge_queue \<Rightarrow> 'e merge_queue \<Rightarrow> bool" where
  "same_settings q q' \<longleftrightarrow>
     mq_max_window q' = mq_max_window q \<and> mq_template q' = mq_template q \<and> mq_reporter q' = mq_reporter q"

lemma same_settings_simps [simp]:
  "same_settings q q" "same_settings q (q'\<lparr>mq_queue := cs\<rparr>) = same_settings q q'"
  "same_settings q (q'\<lparr>mq_world := w\<rparr>) = same_settings q q'"
  "same_settings q (resize q' n cause) = same_settings q q'" "same_settings q (requeue q' train) = same_settings q q'"
  by (simp_all add: same_settings_def resize_def requeue_def Let_def)

lemma resize_simps [simp]:
  "mq_queue (resize q n cause) = mq_queue q" "mq_base (resize q n cause) = mq_base q"
  "mq_landed (resize q n cause) = mq_landed q" "mq_window (resize q n cause) = min n (mq_max_window q)"
  "mq_max_window (resize q n cause) = mq_max_window q" "mq_template (resize q n cause) = mq_template q"
  "mq_reporter (resize q n cause) = mq_reporter q"
  by (simp_all add: resize_def Let_def)

lemma requeue_simps [simp]:
  "mq_queue (requeue q train) = map fst train @ mq_queue q" "mq_base (requeue q train) = mq_base q"
  "mq_landed (requeue q train) = mq_landed q" "mq_window (requeue q train) = mq_window q"
  "mq_max_window (requeue q train) = mq_max_window q" "mq_template (requeue q train) = mq_template q"
  by (simp_all add: requeue_def)

definition declares :: "change set \<Rightarrow> (nat \<times> nat) set" where
  "declares cs = {(d, ch_id c) | d c. c \<in> cs \<and> d \<in> set (ch_depends c)}"

text \<open>
  What each rejection says of the change \<open>i\<close>: among \<open>cs\<close>, given what has landed and which changes CI
  failed.
\<close>

fun blamed :: "'e queue_env \<Rightarrow> job_template \<Rightarrow> change set \<Rightarrow> string set \<Rightarrow> nat set \<Rightarrow> nat \<Rightarrow> rejection \<Rightarrow> bool" where
  "blamed env t cs landed failed i RejConflict =
     (\<exists>c \<in> cs. ch_id c = i \<and> (\<exists>w onto w'. qe_step env w (ch_base c) onto (ch_proposed c) = Some (StepConflict, w')))"
| "blamed env t cs landed failed i (RejSafety name v) =
     (\<exists>c \<in> cs. ch_id c = i \<and> (\<exists>w onto w'. qe_step env w (ch_base c) onto (ch_proposed c) = Some (StepUnsafe name v, w')))"
| "blamed env t cs landed failed i RejLanded = (\<exists>c \<in> cs. ch_id c = i \<and> qe_identity env c \<in> landed)"
| "blamed env t cs landed failed i RejCiFailure =
     (i \<in> failed \<and>
      (\<exists>c \<in> cs. ch_id c = i \<and> (\<exists>state code. answered env (job_for t c (qe_subject env state)) (CiFailed code))))"
| "blamed env t cs landed failed i (RejDependency f) =
     (f \<in> failed \<and> (f, i) \<in> (declares cs)\<^sup>*)"

lemma blamed_mono:
  assumes "blamed env t cs landed failed i reason" "cs \<subseteq> cs'" "landed \<subseteq> landed'" "failed \<subseteq> failed'"
  shows "blamed env t cs' landed' failed' i reason"
proof (cases reason)
  case (RejDependency f)
  have "(declares cs)\<^sup>* \<subseteq> (declares cs')\<^sup>*"
    using assms(2) by (intro rtrancl_mono) (auto simp: declares_def)
  then show ?thesis using assms RejDependency by auto
qed (use assms in auto)

definition all_blamed ::
  "'e queue_env \<Rightarrow> job_template \<Rightarrow> change set \<Rightarrow> string set \<Rightarrow> nat set \<Rightarrow> (nat \<times> rejection) list \<Rightarrow> bool" where
  "all_blamed env t cs landed failed rejects \<longleftrightarrow>
     (\<forall>(i, reason) \<in> set rejects. blamed env t cs landed failed i reason)"

lemma all_blamed_simps [simp]:
  "all_blamed env t cs landed failed []"
  "all_blamed env t cs landed failed (x # xs) \<longleftrightarrow>
     blamed env t cs landed failed (fst x) (snd x) \<and> all_blamed env t cs landed failed xs"
  "all_blamed env t cs landed failed (xs @ ys) \<longleftrightarrow>
     all_blamed env t cs landed failed xs \<and> all_blamed env t cs landed failed ys"
  by (auto simp: all_blamed_def)

lemma all_blamed_mono:
  "all_blamed env t cs landed failed rejects \<Longrightarrow> cs \<subseteq> cs' \<Longrightarrow> landed \<subseteq> landed' \<Longrightarrow> failed \<subseteq> failed' \<Longrightarrow>
   all_blamed env t cs' landed' failed' rejects"
  by (auto simp: all_blamed_def intro: blamed_mono)

lemma subseq_elem: "subseq xs ys \<Longrightarrow> x \<in> set xs \<Longrightarrow> x \<in> set ys"
  by (induction rule: list_emb.induct) auto

lemma build_train_spec:
  assumes "build_train env n b = Some b'"
  shows "\<exists>taken train rejects. mq_queue (bd_queue b) = taken @ mq_queue (bd_queue b') \<and>
    bd_train b' = bd_train b @ train \<and> bd_rejects b' = bd_rejects b @ rejects \<and>
    mset (ids taken) = mset (train_ids train) + mset (map fst rejects) \<and> subseq (map fst train) taken \<and>
    spec_chain env (bd_speculative b) train \<and> (\<forall>t. all_blamed env t (set taken) (mq_landed (bd_queue b)) {} rejects) \<and>
    (\<forall>(c, s) \<in> set train. qe_identity env c \<notin> mq_landed (bd_queue b)) \<and>
    (bd_error b' = bd_error b \<longrightarrow> length taken = n \<or> bd_error b \<noteq> None) \<and>
    same_settings (bd_queue b) (bd_queue b') \<and> mq_base (bd_queue b') = mq_base (bd_queue b) \<and>
    mq_window (bd_queue b') = mq_window (bd_queue b) \<and> mq_landed (bd_queue b') = mq_landed (bd_queue b)"
  using assms
proof (induction n arbitrary: b)
  case 0
  then show ?case by (intro exI [of _ "[]"]) simp
next
  case (Suc n)
  obtain c rest where q: "mq_queue (bd_queue b) = c # rest" using Suc.prems by (cases "mq_queue (bd_queue b)") auto
  have go: ?case
    if b1: "build_train env n b1 = Some b'" and t: "bd_train b1 = bd_train b @ tr" "bd_rejects b1 = bd_rejects b @ rj"
      and m: "tr = [(c, s)] \<and> rj = [] \<and> stepped env c (bd_speculative b) s \<and> qe_identity env c \<notin> mq_landed (bd_queue b) \<and>
            bd_speculative b1 = s \<or>
          tr = [] \<and> (\<exists>reason. rj = [(ch_id c, reason)] \<and> (\<forall>t. blamed env t {c} (mq_landed (bd_queue b)) {} (ch_id c) reason)) \<and> bd_speculative b1 = bd_speculative b"
      and k: "mq_queue (bd_queue b1) = rest" "bd_error b1 = bd_error b" "same_settings (bd_queue b) (bd_queue b1)"
        "mq_base (bd_queue b1) = mq_base (bd_queue b)" "mq_window (bd_queue b1) = mq_window (bd_queue b)"
        "mq_landed (bd_queue b1) = mq_landed (bd_queue b)"
    for b1 tr rj s
  proof -
    obtain taken train rejects where ih: "rest = taken @ mq_queue (bd_queue b')"
      "bd_train b' = bd_train b1 @ train" "bd_rejects b' = bd_rejects b1 @ rejects"
      "mset (ids taken) = mset (train_ids train) + mset (map fst rejects)" "subseq (map fst train) taken"
      "spec_chain env (bd_speculative b1) train" "\<forall>t. all_blamed env t (set taken) (mq_landed (bd_queue b)) {} rejects"
      "\<forall>(c, s) \<in> set train. qe_identity env c \<notin> mq_landed (bd_queue b)"
      "bd_error b' = bd_error b \<longrightarrow> length taken = n \<or> bd_error b \<noteq> None"
      "same_settings (bd_queue b1) (bd_queue b')" "mq_base (bd_queue b') = mq_base (bd_queue b)"
      "mq_window (bd_queue b') = mq_window (bd_queue b)" "mq_landed (bd_queue b') = mq_landed (bd_queue b)"
      using Suc.IH [OF b1] unfolding k by blast
    from m show ?thesis
    proof
      assume "tr = [(c, s)] \<and> rj = [] \<and> stepped env c (bd_speculative b) s \<and> qe_identity env c \<notin> mq_landed (bd_queue b) \<and>
            bd_speculative b1 = s"
      then show ?thesis
        using ih t k q by (intro exI [of _ "c # taken"] exI [of _ "(c, s) # train"] exI [of _ rejects])
          (auto simp: same_settings_def comp_def intro: all_blamed_mono)
    next
      assume "tr = [] \<and> (\<exists>reason. rj = [(ch_id c, reason)] \<and> (\<forall>t. blamed env t {c} (mq_landed (bd_queue b)) {} (ch_id c) reason)) \<and> bd_speculative b1 = bd_speculative b"
      then obtain reason where "tr = []" "rj = [(ch_id c, reason)]" "(\<forall>t. blamed env t {c} (mq_landed (bd_queue b)) {} (ch_id c) reason)"
          "bd_speculative b1 = bd_speculative b" by blast
      then show ?thesis
        using ih t k q by (intro exI [of _ "c # taken"] exI [of _ train] exI [of _ "(ch_id c, reason) # rejects"])
          (auto simp: same_settings_def comp_def intro: list_emb_Cons blamed_mono all_blamed_mono)
    qed
  qed
  show ?case
  proof (cases "qe_identity env c \<in> mq_landed (bd_queue b)")
    case True
    have "build_train env n (b\<lparr>bd_queue := (bd_queue b)\<lparr>mq_queue := rest\<rparr>,
        bd_rejects := bd_rejects b @ [(ch_id c, RejLanded)]\<rparr>) = Some b'"
      using Suc.prems q True by (simp add: Let_def)
    then show ?thesis by (rule go [where tr = "[]" and rj = "[(ch_id c, RejLanded)]" and s = "[]"]) (use True in \<open>simp_all add: same_settings_def\<close>)
  next
    case fresh: False
    show ?thesis
    proof (cases "qe_recall env (ch_base c) (bd_speculative b) (ch_proposed c)")
      case (Some remembered)
      have "build_train env n (b\<lparr>bd_queue := (bd_queue b)\<lparr>mq_queue := rest\<rparr>, bd_speculative := remembered,
          bd_replayed := bd_replayed b @ [ch_id c], bd_train := bd_train b @ [(c, remembered)]\<rparr>) = Some b'"
        using Suc.prems q fresh Some by (simp add: Let_def)
      then show ?thesis
        by (rule go [where rj = "[]" and tr = "[(c, remembered)]" and s = remembered]) (use fresh Some in \<open>simp_all add: same_settings_def stepped_def\<close>)
    next
      case None
      obtain out w where s: "qe_step env (mq_world (bd_queue b)) (ch_base c) (bd_speculative b) (ch_proposed c) = Some (out, w)"
        using Suc.prems q fresh None by (auto simp: Let_def split: option.splits)
      define b1 where "b1 = b\<lparr>bd_queue := (bd_queue b)\<lparr>mq_queue := rest, mq_world := w\<rparr>,
          bd_invocations := bd_invocations b + 1\<rparr>"
      show ?thesis
      proof (cases out)
        case (Advanced state)
        have "build_train env n (b1\<lparr>bd_speculative := state, bd_train := bd_train b @ [(c, state)]\<rparr>) = Some b'"
          using Suc.prems q fresh None s Advanced by (simp add: Let_def b1_def)
        then show ?thesis
          by (rule go [where rj = "[]" and tr = "[(c, state)]" and s = state])
            (use fresh s Advanced in \<open>auto simp add: same_settings_def stepped_def b1_def\<close>)
      next
        case StepConflict
        have "build_train env n (b1\<lparr>bd_rejects := bd_rejects b @ [(ch_id c, RejConflict)]\<rparr>) = Some b'"
          using Suc.prems q fresh None s StepConflict by (simp add: Let_def b1_def)
        then show ?thesis by (rule go [where tr = "[]" and rj = "[(ch_id c, RejConflict)]" and s = "[]"]) (use s StepConflict in \<open>auto simp: same_settings_def b1_def\<close>)
      next
        case (StepUnsafe name v)
        have "build_train env n (b1\<lparr>bd_rejects := bd_rejects b @ [(ch_id c, RejSafety name v)]\<rparr>) = Some b'"
          using Suc.prems q fresh None s StepUnsafe by (simp add: Let_def b1_def)
        then show ?thesis by (rule go [where tr = "[]" and rj = "[(ch_id c, RejSafety name v)]" and s = "[]"]) (use s StepUnsafe in \<open>auto simp: same_settings_def b1_def\<close>)
      next
        case (StepUnavailable why)
        then show ?thesis
          using Suc.prems q fresh None s by (intro exI [of _ "[]"]) (auto simp: Let_def same_settings_def dest: sym)
      qed
    qed
  qed
qed

section \<open>Landing and ejecting\<close>

definition window_ok :: "'e merge_queue \<Rightarrow> bool" where
  "window_ok q \<longleftrightarrow> 1 \<le> mq_window q \<and> mq_window q \<le> mq_max_window q"

lemma window_ok_simps [simp]:
  "window_ok (q\<lparr>mq_queue := cs\<rparr>) = window_ok q" "window_ok (q\<lparr>mq_world := w\<rparr>) = window_ok q"
  "window_ok (requeue q train) = window_ok q"
  by (simp_all add: window_ok_def requeue_def)

lemma window_ok_resize: "window_ok q \<Longrightarrow> 1 \<le> n \<Longrightarrow> window_ok (resize q n cause)"
  by (simp add: window_ok_def)

definition identities :: "'e queue_env \<Rightarrow> (change \<times> string) list \<Rightarrow> string set" where
  "identities env train = qe_identity env ` fst ` set train"

lemma identities_simps [simp]:
  "identities env [] = {}" "identities env (x # xs) = insert (qe_identity env (fst x)) (identities env xs)"
  "identities env (xs @ ys) = identities env xs \<union> identities env ys"
  by (auto simp: identities_def)

lemma land_prefix_spec:
  assumes "land_prefix env q ls merged cause = (q', left, merged', refusal)"
  shows "\<exists>took. ls = took @ left \<and> merged' = merged @ train_ids took \<and>
    mq_base q' = final_state (mq_base q) took \<and> (\<forall>(c, s) \<in> set took. logged env c s) \<and>
    mq_landed q' = mq_landed q \<union> identities env took \<and> (refusal = None \<longleftrightarrow> left = []) \<and>
    mq_queue q' = mq_queue q \<and> same_settings q q' \<and> (window_ok q \<longrightarrow> window_ok q')"
  using assms
proof (induction ls arbitrary: q merged)
  case Nil
  then show ?case by (simp add: final_state_def)
next
  case (Cons x prefix)
  obtain c state where x: "x = (c, state)" by fastforce
  obtain answer world where land: "qe_land env (mq_world q) c (qe_subject env state) = (answer, world)" by fastforce
  show ?case
  proof (cases answer)
    case (Inl why)
    then show ?thesis using Cons.prems land x by (intro exI [of _ "[]"]) (auto simp: final_state_def)
  next
    case (Inr u)
    define q1 where "q1 = resize (q\<lparr>mq_world := world, mq_base := state,
        mq_landed := insert (qe_identity env c) (mq_landed q)\<rparr>) (mq_window q + 1) cause"
    have "land_prefix env q1 prefix (merged @ [ch_id c]) cause = (q', left, merged', refusal)"
      using Cons.prems land x Inr by (simp add: q1_def)
    from Cons.IH [OF this] obtain took where took: "prefix = took @ left"
      "merged' = (merged @ [ch_id c]) @ train_ids took" "mq_base q' = final_state (mq_base q1) took"
      "\<forall>(c, s) \<in> set took. logged env c s" "mq_landed q' = mq_landed q1 \<union> identities env took"
      "refusal = None \<longleftrightarrow> left = []" "mq_queue q' = mq_queue q1" "same_settings q1 q'"
      "window_ok q1 \<longrightarrow> window_ok q'"
      by blast
    have "logged env c state" using land Inr by (auto simp: logged_def)
    moreover have "window_ok q \<Longrightarrow> window_ok q1" by (simp add: q1_def window_ok_def)
    moreover have "same_settings q q'" using took(8) by (simp add: q1_def same_settings_def)
    ultimately show ?thesis
      using took x by (intro exI [of _ "(c, state) # took"]) (auto simp: q1_def)
  qed
qed

lemma set_dependents:
  "set (dependents cs ejected) = {ch_id c | c. c \<in> set cs \<and> ch_id c \<notin> ejected \<and> (\<exists>d \<in> set (ch_depends c). d \<in> ejected)}"
  by (auto simp: dependents_def list_ex_iff)

lemma eject_closure: "eject cs ejected = (declares (set cs))\<^sup>* `` ejected"
proof (induction cs ejected rule: eject.induct)
  case (1 cs ejected)
  let ?R = "(declares (set cs))\<^sup>*"
  show ?case
  proof (cases "dependents cs ejected = []")
    case True
    then have none: "set (dependents cs ejected) = {}" by simp
    have "y \<in> ejected" if reach: "(x, y) \<in> ?R" and x: "x \<in> ejected" for x y
      using reach
    proof (induction rule: rtrancl_induct)
      case (step y z)
      then show ?case using none by (auto simp: set_dependents declares_def)
    qed (rule x)
    then have "?R `` ejected = ejected" by blast
    with True show ?thesis by (simp add: eject.simps)
  next
    case False
    then have "eject cs ejected = ?R `` (ejected \<union> set (dependents cs ejected))"
      using 1 [OF refl] by (simp add: eject.simps [of cs ejected] Let_def)
    moreover have "set (dependents cs ejected) \<subseteq> declares (set cs) `` ejected"
    proof
      fix i
      assume "i \<in> set (dependents cs ejected)"
      then obtain c d where "c \<in> set cs" "i = ch_id c" "d \<in> set (ch_depends c)" "d \<in> ejected"
        by (auto simp: set_dependents)
      then show "i \<in> declares (set cs) `` ejected" by (auto simp: declares_def)
    qed
    then have "?R `` set (dependents cs ejected) \<subseteq> ?R `` (declares (set cs) `` ejected)" by (rule Image_mono [OF order_refl])
    then have "?R `` set (dependents cs ejected) \<subseteq> ?R `` ejected"
      by (rule order_trans) (auto intro: converse_rtrancl_into_rtrancl)
    ultimately show ?thesis by (simp add: Image_Un Un_absorb2)
  qed
qed

section \<open>What a round does\<close>

text \<open>
  From \<open>(q, r)\<close> to \<open>(q', r')\<close>: some landings, each onto the state before it; some rejections, each with
  its reason; the rest still queued, in order.
\<close>

definition advances ::
  "'e queue_env \<Rightarrow> 'e merge_queue \<Rightarrow> queue_report \<Rightarrow> 'e merge_queue \<Rightarrow> queue_report \<Rightarrow>
   (change \<times> string) list \<Rightarrow> (nat \<times> rejection) list \<Rightarrow> bool" where
  "advances env q r q' r' landings rejects \<longleftrightarrow>
     landing_chain env (mq_template q) (mq_base q) landings \<and>
     mq_base q' = final_state (mq_base q) landings \<and>
     qr_merged r' = qr_merged r @ train_ids landings \<and>
     qr_rejected r' = qr_rejected r @ rejects \<and>
     mset (ids (mq_queue q)) = mset (train_ids landings) + mset (map fst rejects) + mset (ids (mq_queue q')) \<and>
     subseq (map fst landings @ mq_queue q') (mq_queue q) \<and>
     mq_landed q' = mq_landed q \<union> identities env landings \<and>
     identities env landings \<inter> mq_landed q = {} \<and>
     all_blamed env (mq_template q) (set (mq_queue q)) (mq_landed q') {i. (i, RejCiFailure) \<in> set rejects} rejects \<and>
     same_settings q q'"

lemma advances_refl: "advances env q r q r [] []"
  by (simp add: advances_def final_state_def)

lemma advancesD:
  assumes "advances env q r q' r' ls rs"
  shows "landing_chain env (mq_template q) (mq_base q) ls" "mq_base q' = final_state (mq_base q) ls"
    "qr_merged r' = qr_merged r @ train_ids ls" "qr_rejected r' = qr_rejected r @ rs"
    "mset (ids (mq_queue q)) = mset (train_ids ls) + mset (map fst rs) + mset (ids (mq_queue q'))"
    "subseq (map fst ls @ mq_queue q') (mq_queue q)" "mq_landed q' = mq_landed q \<union> identities env ls"
    "identities env ls \<inter> mq_landed q = {}"
    "all_blamed env (mq_template q) (set (mq_queue q)) (mq_landed q') {i. (i, RejCiFailure) \<in> set rs} rs"
    "same_settings q q'"
  using assms unfolding advances_def by blast+

lemma advances_trans:
  assumes adv: "advances env q r q1 r1 ls rs" "advances env q1 r1 q2 r2 ls' rs'"
  shows "advances env q r q2 r2 (ls @ ls') (rs @ rs')"
proof -
  note a = advancesD [OF adv(1)] and b = advancesD [OF adv(2)]
  have t: "mq_template q1 = mq_template q" and settings: "same_settings q q2"
    using a(10) b(10) by (simp_all add: same_settings_def)
  have "subseq (map fst ls @ map fst ls' @ mq_queue q2) (map fst ls @ mq_queue q1)"
    using b(6) by (simp add: subseq_append')
  then have sub: "subseq (map fst (ls @ ls') @ mq_queue q2) (mq_queue q)"
    using subseq_order.order_trans [OF _ a(6)] by simp
  have less: "set (mq_queue q1) \<subseteq> set (mq_queue q)"
    using subseq_elem [OF a(6)] by auto
  let ?blamed = "all_blamed env (mq_template q) (set (mq_queue q)) (mq_landed q2) {i. (i, RejCiFailure) \<in> set (rs @ rs')}"
  have "?blamed rs" using a(9) by (rule all_blamed_mono) (use b(7) in auto)
  moreover have "?blamed rs'" using b(9) [unfolded t] by (rule all_blamed_mono) (use less in auto)
  moreover have "landing_chain env (mq_template q) (mq_base q) (ls @ ls')" "mq_base q2 = final_state (mq_base q) (ls @ ls')"
    using a(1,2) b(1,2) t by (simp_all add: landing_chain_append final_state_append)
  moreover have "mset (ids (mq_queue q)) = mset (train_ids (ls @ ls')) + mset (map fst (rs @ rs')) + mset (ids (mq_queue q2))"
    using a(5) b(5) by simp
  moreover have "mq_landed q2 = mq_landed q \<union> identities env (ls @ ls')" using a(7) b(7) by (simp add: Un_assoc)
  moreover have "identities env (ls @ ls') \<inter> mq_landed q = {}" using a(7,8) b(8) by auto
  ultimately show ?thesis using sub settings a(3,4) b(3,4) by (simp add: advances_def)
qed

lemma advances_irrelevant [simp]:
  "advances env (q\<lparr>mq_world := w\<rparr>) r q' r' ls rs = advances env q r q' r' ls rs"
  "advances env q r (q'\<lparr>mq_world := w\<rparr>) r' ls rs = advances env q r q' r' ls rs"
  "advances env q r q' (r'\<lparr>qr_provider_error := e\<rparr>) ls rs = advances env q r q' r' ls rs"
  "advances env q r q' (r'\<lparr>qr_window_trace := tr\<rparr>) ls rs = advances env q r q' r' ls rs"
  "advances env q r q' (r'\<lparr>qr_ci_runs := n, qr_unreported_checks := u\<rparr>) ls rs = advances env q r q' r' ls rs"
  by (simp_all add: advances_def same_settings_def)

lemma advances_length:
  "advances env q r q' r' ls rs \<Longrightarrow> length (mq_queue q) = length ls + length rs + length (mq_queue q')"
  using arg_cong [OF advancesD(5), of env q r q' r' ls rs size] by simp

lemma land_advances:
  assumes "land_prefix env q green (qr_merged r) cause = (q1, left, merged, refusal)" "train = green @ rest"
    and chain: "spec_chain env (mq_base q) train" and new: "identities env train \<inter> mq_landed q = {}"
    and passed: "\<forall>(c, s) \<in> set green. answered env (job_for (mq_template q) c (qe_subject env s)) CiPassed"
  shows "\<exists>took. green = took @ left \<and> (refusal = None \<longleftrightarrow> left = []) \<and> (window_ok q \<longrightarrow> window_ok q1) \<and>
    mq_max_window q1 = mq_max_window q \<and>
    advances env (requeue q train) r (requeue (requeue q1 rest) left) (r\<lparr>qr_merged := merged\<rparr>) took []"
proof -
  obtain took where l: "green = took @ left" "merged = qr_merged r @ train_ids took"
    "mq_base q1 = final_state (mq_base q) took" "\<forall>(c, s) \<in> set took. logged env c s"
    "mq_landed q1 = mq_landed q \<union> identities env took" "refusal = None \<longleftrightarrow> left = []"
    "mq_queue q1 = mq_queue q" "same_settings q q1" "window_ok q \<longrightarrow> window_ok q1"
    using land_prefix_spec [OF assms(1)] by blast
  have "landing_chain env (mq_template q) (mq_base q) took"
    using chain passed l(1,4) assms(2) by (intro landing_chainI) (auto simp: spec_chain_append)
  moreover have "identities env took \<inter> mq_landed q = {}" using new l(1) assms(2) by auto
  ultimately have "advances env (requeue q train) r (requeue (requeue q1 rest) left) (r\<lparr>qr_merged := merged\<rparr>) took []"
    using l(1-3,5,7,8) assms(2) by (simp add: advances_def same_settings_def requeue_def comp_def)
  then show ?thesis using l(1,6,8,9) by (auto simp: same_settings_def)
qed

lemma mset_out_kept:
  "mset (map f xs) = mset (map f (filter P (rev xs))) + mset (map f (filter (\<lambda>x. \<not> P x) xs))"
  "mset (map f xs) = mset (map f (filter P xs)) + mset (map f (filter (\<lambda>x. \<not> P x) xs))"
  by (induction xs) simp_all

lemma settle_failure_spec:
  assumes settle: "settle_failure q r ((c, s) # rest) = (q', r')"
    and failed: "answered env (job_for (mq_template q) c (qe_subject env s)) (CiFailed code)"
  shows "\<exists>rs. advances env (requeue q ((c, s) # rest)) r q' r' [] rs \<and> rs \<noteq> [] \<and> (window_ok q \<longrightarrow> window_ok q') \<and>
    mq_max_window q' = mq_max_window q \<and>
    qr_window_trace r' = qr_window_trace r \<and> qr_provider_error r' = qr_provider_error r"
proof -
  define members where "members = map fst rest @ mq_queue q"
  define gone where "gone = (\<lambda>d :: change. ch_id d \<in> eject members {ch_id c})"
  define ds where "ds = (if card (eject members {ch_id c}) > 1
      then filter gone (rev (map fst rest)) @ filter gone (mq_queue q) else [])"
  define rs where "rs = (ch_id c, RejCiFailure) # map (\<lambda>x. (ch_id x, RejDependency (ch_id c))) ds"
  have r': "qr_rejected r' = qr_rejected r @ rs" "qr_merged r' = qr_merged r"
      "qr_window_trace r' = qr_window_trace r" "qr_provider_error r' = qr_provider_error r"
    using settle by (auto simp: settle_failure_def Let_def ds_def rs_def gone_def members_def split: if_splits)
  have q': "mq_queue q' = (if card (eject members {ch_id c}) > 1 then filter (\<lambda>d. \<not> gone d) members else members)"
      "mq_base q' = mq_base q" "mq_landed q' = mq_landed q" "same_settings q q'" "window_ok q \<longrightarrow> window_ok q'"
    using settle by (auto simp: settle_failure_def Let_def gone_def members_def window_ok_def split: if_splits)
  have "mset (ids members) = mset (ids ds) + mset (ids (mq_queue q'))"
  proof (cases "card (eject members {ch_id c}) > 1")
    case True
    then show ?thesis
      using mset_out_kept(1) [of ch_id "map fst rest" gone] mset_out_kept(2) [of ch_id "mq_queue q" gone]
      by (simp add: q' ds_def del: mset_filter) (simp add: members_def multiset.map_comp del: mset_filter)
  qed (simp add: q' ds_def)
  then have split: "mset (ids (c # members)) = mset (map fst rs) + mset (ids (mq_queue q'))"
    by (simp add: rs_def comp_def)
  have "subseq (mq_queue q') (c # members)" by (simp add: q' list_emb_Cons)
  moreover have "all_blamed env t (set (c # members)) landed {i. (i, RejCiFailure) \<in> set rs} rs" if "t = mq_template q" for t landed
  proof -
    have "(ch_id c, ch_id d) \<in> (declares (set (c # members)))\<^sup>*" if d: "d \<in> set ds" for d
    proof -
      have "(ch_id c, ch_id d) \<in> (declares (set members))\<^sup>*"
        using d unfolding ds_def gone_def eject_closure by (auto split: if_splits)
      moreover have "declares (set members) \<subseteq> declares (set (c # members))" by (auto simp: declares_def)
      ultimately show ?thesis using rtrancl_mono by blast
    qed
    then show ?thesis using failed that by (auto simp: all_blamed_def rs_def)
  qed
  ultimately have "advances env (requeue q ((c, s) # rest)) r q' r' [] rs"
    using split q'(2-4) r'(1,2) by (simp add: advances_def final_state_def members_def same_settings_def requeue_def)
  then show ?thesis using q'(4,5) r' by (intro exI [of _ rs]) (simp add: rs_def same_settings_def)
qed

lemma first_not_passed_spec:
  "first_not_passed vs = None \<Longrightarrow> j < length vs \<Longrightarrow> vs ! j = CiPassed"
  "first_not_passed vs = Some i \<Longrightarrow> i < length vs \<and> vs ! i \<noteq> CiPassed \<and> (\<forall>j < i. vs ! j = CiPassed)"
proof (induction vs arbitrary: i j)
  case (Cons v vs)
  { case 1 then show ?case using Cons.IH(1) by (cases j) (auto split: if_splits) }
  { case 2 then show ?case using Cons.IH(2) by (auto split: if_splits simp: less_Suc_eq_0_disj) }
qed simp_all

definition traced :: "'e merge_queue \<Rightarrow> queue_report \<Rightarrow> queue_report \<Rightarrow> bool" where
  "traced q r r' \<longleftrightarrow>
     (\<exists>tr. qr_window_trace r' = qr_window_trace r @ tr \<and> (\<forall>w \<in> set tr. 1 \<le> w \<and> w \<le> mq_max_window q))"

lemma traced_same: "qr_window_trace r' = qr_window_trace r \<Longrightarrow> traced q r r'"
  by (simp add: traced_def)

lemma traced_trans: "traced q r r' \<Longrightarrow> traced q r' r'' \<Longrightarrow> traced q r r''"
  unfolding traced_def by fastforce

lemma act_on_verdicts_spec:
  assumes act: "act_on_verdicts env q r train verdicts = (continue, q', r')"
    and chain: "spec_chain env (mq_base q) train" and new: "identities env train \<inter> mq_landed q = {}"
    and len: "length verdicts = length train"
    and ans: "\<And>i. i < length train \<Longrightarrow>
      answered env (job_for (mq_template q) (fst (train ! i)) (qe_subject env (snd (train ! i)))) (verdicts ! i)"
  shows "\<exists>ls rs. advances env (requeue q train) r q' r' ls rs \<and> (continue \<longrightarrow> train \<noteq> [] \<longrightarrow> ls \<noteq> [] \<or> rs \<noteq> []) \<and>
    (window_ok q \<longrightarrow> window_ok q' \<and> traced q r r') \<and>
    (qr_provider_error r' = (if continue then qr_provider_error r else qr_provider_error r') \<and>
     (\<not> continue \<longrightarrow> qr_provider_error r' \<noteq> None))"
proof (cases "first_not_passed verdicts")
  case None
  obtain q1 left merged refusal where
    land: "land_prefix env q train (qr_merged r) ''train landed clean'' = (q1, left, merged, refusal)"
    by (metis prod_cases4)
  have passed: "\<forall>(c, s) \<in> set train. answered env (job_for (mq_template q) c (qe_subject env s)) CiPassed"
    using ans first_not_passed_spec(1) [OF None] len by (fastforce simp: in_set_conv_nth)
  obtain took where took: "train = took @ left" "refusal = None \<longleftrightarrow> left = []" "window_ok q \<longrightarrow> window_ok q1"
    "mq_max_window q1 = mq_max_window q"
    "advances env (requeue q train) r (requeue (requeue q1 []) left) (r\<lparr>qr_merged := merged\<rparr>) took []"
    using land_advances [OF land append_Nil2 [symmetric] chain new passed] by blast
  show ?thesis
  proof (cases refusal)
    case refused: (Some why)
    then have "continue = False" "q' = requeue q1 left" "r' = r\<lparr>qr_merged := merged, qr_provider_error := Some why\<rparr>"
      using act None land by (auto simp: act_on_verdicts_def)
    then show ?thesis
      using took by (intro exI [of _ took] exI [of _ "[]"]) (simp add: requeue_def traced_def)
  next
    case clean: None
    then have res: "continue = True" "q' = q1" "r' = r\<lparr>qr_merged := merged, qr_window_trace := qr_window_trace r @ [mq_window q1]\<rparr>"
      using act None land by (auto simp: act_on_verdicts_def trace_window_def)
    have "requeue (requeue q1 []) left = q1" using clean took(2) by (simp add: requeue_def)
    then show ?thesis
      using took clean res by (intro exI [of _ took] exI [of _ "[]"]) (auto simp: traced_def window_ok_def)
  qed
next
  case (Some i)
  then have i: "i < length train" "verdicts ! i \<noteq> CiPassed" "\<And>j. j < i \<Longrightarrow> verdicts ! j = CiPassed"
    using first_not_passed_spec(2) [OF Some] len by auto
  obtain q1 left merged refusal where
    land: "land_prefix env q (take i train) (qr_merged r) ''green prefix landed'' = (q1, left, merged, refusal)"
    by (metis prod_cases4)
  have passed: "\<forall>(c, s) \<in> set (take i train). answered env (job_for (mq_template q) c (qe_subject env s)) CiPassed"
  proof safe
    fix c s
    assume "(c, s) \<in> set (take i train)"
    then obtain j where "j < i" "train ! j = (c, s)" by (auto simp: in_set_conv_nth)
    then show "answered env (job_for (mq_template q) c (qe_subject env s)) CiPassed"
      using ans [of j] i by simp
  qed
  obtain took where took: "take i train = took @ left" "refusal = None \<longleftrightarrow> left = []" "window_ok q \<longrightarrow> window_ok q1"
    "mq_max_window q1 = mq_max_window q"
    "advances env (requeue q train) r (requeue (requeue q1 (drop i train)) left) (r\<lparr>qr_merged := merged\<rparr>) took []"
    using land_advances [OF land append_take_drop_id [symmetric] chain new passed] by blast
  show ?thesis
  proof (cases "evicts (verdicts ! i) \<and> refusal = None")
    case False
    then have "\<exists>why. continue = False \<and> q' = requeue (requeue q1 (drop i train)) left \<and>
        r' = r\<lparr>qr_merged := merged, qr_provider_error := Some why\<rparr>"
      using act Some land by (auto simp: act_on_verdicts_def Let_def split: if_splits option.splits)
    then show ?thesis
      using took by (intro exI [of _ took] exI [of _ "[]"]) (auto simp: traced_def)
  next
    case True
    obtain c s where cs: "train ! i = (c, s)" by fastforce
    then have drop: "drop i train = (c, s) # drop (Suc i) train" using i(1) by (metis Cons_nth_drop_Suc)
    obtain code where code: "verdicts ! i = CiFailed code" using True by (cases "verdicts ! i") auto
    obtain q2 r2 where settle: "settle_failure q1 (r\<lparr>qr_merged := merged\<rparr>) ((c, s) # drop (Suc i) train) = (q2, r2)"
      by fastforce
    have res: "continue = True" "q' = q2" "r' = r2\<lparr>qr_window_trace := qr_window_trace r2 @ [mq_window q2]\<rparr>"
      using act Some land True settle drop by (auto simp: act_on_verdicts_def Let_def trace_window_def)
    have "same_settings q q1" using advancesD(10) [OF took(5)] by (simp add: same_settings_def requeue_def)
    then have "answered env (job_for (mq_template q1) c (qe_subject env s)) (CiFailed code)"
      using ans [OF i(1)] cs code by (simp add: same_settings_def)
    from settle_failure_spec [OF settle this] obtain rs where rs:
      "advances env (requeue q1 ((c, s) # drop (Suc i) train)) (r\<lparr>qr_merged := merged\<rparr>) q2 r2 [] rs" "rs \<noteq> []"
      "window_ok q1 \<longrightarrow> window_ok q2" "mq_max_window q2 = mq_max_window q1" "qr_window_trace r2 = qr_window_trace r"
      "qr_provider_error r2 = qr_provider_error r"
      by auto
    have "requeue (requeue q1 (drop i train)) left = requeue q1 ((c, s) # drop (Suc i) train)"
      using True took(2) drop by (simp add: requeue_def)
    from advances_trans [OF took(5) [unfolded this] rs(1)] show ?thesis
      using res rs took(3,4) by (intro exI [of _ took] exI [of _ rs]) (auto simp: traced_def window_ok_def)
  qed
qed

lemma ci_answers_spec:
  assumes "ci_answers (length jobs) result = (vs, None)" "qe_run env w jobs = (result, w')" "i < length jobs"
  shows "length vs = length jobs" "answered env (jobs ! i) (vs ! i)"
proof -
  have "result = Inr vs" "length vs = length jobs"
    using assms(1) by (auto simp: ci_answers_def split: sum.splits if_splits)
  then show "length vs = length jobs" "answered env (jobs ! i) (vs ! i)"
    using assms(2,3) unfolding answered_def by blast+
qed

lemma identities_new:
  "\<forall>(c, s) \<in> set train. qe_identity env c \<notin> landed \<Longrightarrow> identities env train \<inter> landed = {}"
  by (auto simp: identities_def)

lemma build_advances:
  assumes "build_train env (min (mq_window q) (length (mq_queue q))) (round_building q) = Some b"
  shows "advances env q r (requeue (bd_queue b) (bd_train b))
      (r\<lparr>qr_rejected := qr_rejected r @ bd_rejects b, qr_replayed := rp, qr_merge_invocations := n\<rparr>) [] (bd_rejects b)"
    "spec_chain env (mq_base (bd_queue b)) (bd_train b)" "identities env (bd_train b) \<inter> mq_landed (bd_queue b) = {}"
    "bd_error b = None \<Longrightarrow> mq_queue q \<noteq> [] \<Longrightarrow> 1 \<le> mq_window q \<Longrightarrow> bd_train b \<noteq> [] \<or> bd_rejects b \<noteq> []"
    "same_settings q (bd_queue b)" "mq_window (bd_queue b) = mq_window q"
proof -
  have start: "bd_queue (round_building q) = q" "bd_speculative (round_building q) = mq_base q"
    "bd_train (round_building q) = []" "bd_rejects (round_building q) = []" "bd_error (round_building q) = None"
    by (simp_all add: round_building_def)
  obtain taken train rejects where raw: "mq_queue q = taken @ mq_queue (bd_queue b)"
    "bd_train b = train" "bd_rejects b = rejects"
    "mset (ids taken) = mset (train_ids (train)) + mset (map fst (rejects))"
    "subseq (map fst (train)) taken" "spec_chain env (mq_base q) (train)"
    "\<forall>t. all_blamed env t (set taken) (mq_landed q) {} (rejects)"
    "\<forall>(c, s) \<in> set (train). qe_identity env c \<notin> mq_landed q"
    "bd_error b = None \<longrightarrow> length taken = min (mq_window q) (length (mq_queue q)) \<or> None \<noteq> (None :: string option)"
    "same_settings q (bd_queue b)" "mq_base (bd_queue b) = mq_base q" "mq_window (bd_queue b) = mq_window q"
    "mq_landed (bd_queue b) = mq_landed q"
    using build_train_spec [OF assms, unfolded start append_Nil] by (elim exE conjE) (rule that; assumption)
  note t = raw(1,4-) [folded raw(2,3)]
  have "all_blamed env (mq_template q) (set (mq_queue q)) (mq_landed q) {i. (i, RejCiFailure) \<in> set (bd_rejects b)} (bd_rejects b)"
    using t(5) [rule_format] by (rule all_blamed_mono) (use t(1) in auto)
  moreover have "subseq (map fst (bd_train b) @ mq_queue (bd_queue b)) (mq_queue q)" using t(1,3) by simp
  moreover have "mset (ids (mq_queue q)) = mset (map fst (bd_rejects b)) + mset (ids (map fst (bd_train b) @ mq_queue (bd_queue b)))"
    using t(1,2) by (simp add: multiset.map_comp)
  ultimately show "advances env q r (requeue (bd_queue b) (bd_train b))
      (r\<lparr>qr_rejected := qr_rejected r @ bd_rejects b, qr_replayed := rp, qr_merge_invocations := n\<rparr>) [] (bd_rejects b)"
    using t(8-11) by (simp add: advances_def final_state_def)
  show "spec_chain env (mq_base (bd_queue b)) (bd_train b)" using t by simp
  show "identities env (bd_train b) \<inter> mq_landed (bd_queue b) = {}" using identities_new [OF t(6)] t(11) by simp
  show "same_settings q (bd_queue b)" "mq_window (bd_queue b) = mq_window q" by fact+
  show "bd_train b \<noteq> [] \<or> bd_rejects b \<noteq> []" if "bd_error b = None" "mq_queue q \<noteq> []" "1 \<le> mq_window q"
    using t(2,7) that by (cases "mq_queue q") auto
qed

definition round_outcome ::
  "'e queue_env \<Rightarrow> 'e merge_queue \<Rightarrow> queue_report \<Rightarrow> bool \<Rightarrow> 'e merge_queue \<Rightarrow> queue_report \<Rightarrow> bool" where
  "round_outcome env q r continue q' r' \<longleftrightarrow>
     (\<exists>ls rs. advances env q r q' r' ls rs \<and>
        (continue \<and> mq_queue q \<noteq> [] \<and> 1 \<le> mq_window q \<longrightarrow> ls \<noteq> [] \<or> rs \<noteq> [])) \<and>
     (window_ok q \<longrightarrow> window_ok q' \<and> traced q r r') \<and>
     (continue \<longrightarrow> qr_provider_error r' = qr_provider_error r) \<and>
     (\<not> continue \<longrightarrow> qr_provider_error r' \<noteq> None)"

lemma drain_round_spec:
  assumes round: "drain_round env q r = Some (continue, q', r')"
  shows "round_outcome env q r continue q' r'"
proof -
  obtain b where b: "build_train env (min (mq_window q) (length (mq_queue q))) (round_building q) = Some b"
    using round by (auto simp: drain_round_def split: option.splits)
  define r1 where "r1 = r\<lparr>qr_rejected := qr_rejected r @ bd_rejects b, qr_replayed := qr_replayed r @ bd_replayed b,
      qr_merge_invocations := qr_merge_invocations r + bd_invocations b\<rparr>"
  note built = build_advances [OF b]
  have adv: "advances env q r (requeue (bd_queue b) (bd_train b)) r1 [] (bd_rejects b)"
    unfolding r1_def by (rule built(1))
  have window: "window_ok (bd_queue b) = window_ok q" "mq_max_window (bd_queue b) = mq_max_window q"
    using built(5,6) by (auto simp: window_ok_def same_settings_def)
  have trace: "qr_window_trace r1 = qr_window_trace r" "qr_provider_error r1 = qr_provider_error r"
    by (simp_all add: r1_def)
  define jobs where "jobs = map (\<lambda>(c, state). job_for (mq_template (bd_queue b)) c (qe_subject env state)) (bd_train b)"
  obtain result w where run: "qe_run env (mq_world (bd_queue b)) jobs = (result, w)" by fastforce
  obtain vs fault where ci: "ci_answers (length jobs) result = (vs, fault)" by fastforce
  obtain w' unreported where rec: "(case mq_reporter (bd_queue b) of None \<Rightarrow> (w, [])
      | Some rp \<Rightarrow> record_checks env rp w (check_reports jobs vs fault) []) = (w', unreported)" by fastforce
  define q2 where "q2 = (bd_queue b)\<lparr>mq_world := w'\<rparr>"
  define r2 where "r2 = r1\<lparr>qr_ci_runs := qr_ci_runs r1 + length jobs,
      qr_unreported_checks := qr_unreported_checks r1 @ unreported\<rparr>"
  have requeued: "requeue q2 train = (requeue (bd_queue b) train)\<lparr>mq_world := w'\<rparr>" for train
    by (simp add: q2_def requeue_def)
  have adv2: "advances env q r (requeue q2 (bd_train b)) r2 [] (bd_rejects b)"
    using adv unfolding requeued r2_def by simp
  show ?thesis
  proof (cases "bd_error b")
    case (Some why)
    then have "continue = False" "q' = requeue (bd_queue b) (bd_train b)" "r' = r1\<lparr>qr_provider_error := Some why\<rparr>"
      using round b by (auto simp: drain_round_def Let_def r1_def)
    then show ?thesis
      using adv window trace unfolding round_outcome_def
      by (intro conjI exI [of _ "[]"] exI [of _ "bd_rejects b"]) (simp_all add: traced_def)
  next
    case clean: None
    show ?thesis
  proof (cases fault)
    case (Some why)
    then have "continue = False" "q' = requeue q2 (bd_train b)" "r' = r2\<lparr>qr_provider_error := Some why\<rparr>"
      using round b clean run [unfolded jobs_def] ci [unfolded jobs_def] rec [unfolded jobs_def] Some
      by (auto simp: drain_round_def Let_def r1_def r2_def q2_def jobs_def)
    then show ?thesis
      using adv2 window trace unfolding round_outcome_def
      by (intro conjI exI [of _ "[]"] exI [of _ "bd_rejects b"]) (simp_all add: traced_def r2_def q2_def)
  next
    case None
    note False = clean None
    then have act: "act_on_verdicts env q2 r2 (bd_train b) vs = (continue, q', r')"
      using round b run [unfolded jobs_def] ci [unfolded jobs_def] rec [unfolded jobs_def None]
      by (simp add: drain_round_def Let_def jobs_def r1_def r2_def q2_def)
    have jobs: "length jobs = length (bd_train b)"
      "\<And>i. i < length jobs \<Longrightarrow>
         jobs ! i = job_for (mq_template q2) (fst (bd_train b ! i)) (qe_subject env (snd (bd_train b ! i)))"
      by (simp_all add: jobs_def q2_def split_def)
    have len: "length vs = length (bd_train b)"
      using False ci jobs(1) by (auto simp: ci_answers_def split: sum.splits if_splits)
    have ans: "answered env (job_for (mq_template q2) (fst (bd_train b ! i)) (qe_subject env (snd (bd_train b ! i)))) (vs ! i)"
      if "i < length (bd_train b)" for i
      using ci_answers_spec(2) [of jobs result vs env, OF _ run] ci False jobs that by auto
    have chain: "spec_chain env (mq_base q2) (bd_train b)" and new: "identities env (bd_train b) \<inter> mq_landed q2 = {}"
      using built(2,3) by (simp_all add: q2_def)
    from act_on_verdicts_spec [OF act chain new len ans] obtain ls rs where out:
      "advances env (requeue q2 (bd_train b)) r2 q' r' ls rs"
      "continue \<longrightarrow> bd_train b \<noteq> [] \<longrightarrow> ls \<noteq> [] \<or> rs \<noteq> []"
      "window_ok q2 \<longrightarrow> window_ok q' \<and> traced q2 r2 r'"
      "qr_provider_error r' = (if continue then qr_provider_error r2 else qr_provider_error r')"
      "\<not> continue \<longrightarrow> qr_provider_error r' \<noteq> None"
      by blast
    have same: "qr_window_trace r2 = qr_window_trace r" "qr_provider_error r2 = qr_provider_error r"
      "window_ok q2 = window_ok q" "mq_max_window q2 = mq_max_window q"
      using trace window by (simp_all add: r2_def q2_def)
    have "continue \<and> mq_queue q \<noteq> [] \<and> 1 \<le> mq_window q \<longrightarrow> ls \<noteq> [] \<or> bd_rejects b @ rs \<noteq> []"
      using out(2) built(4) False by auto
    moreover have "advances env q r q' r' ls (bd_rejects b @ rs)" using advances_trans [OF adv2 out(1)] by simp
    ultimately show ?thesis
      using out(3-5) same unfolding round_outcome_def traced_def by (intro conjI) (blast, simp, metis, simp)
  qed
  qed
qed

section \<open>The drain\<close>

definition drained :: "'e queue_env \<Rightarrow> 'e merge_queue \<Rightarrow> queue_report \<Rightarrow> 'e merge_queue \<Rightarrow> queue_report \<Rightarrow> bool" where
  "drained env q r q' r' \<longleftrightarrow>
     (\<exists>ls rs. advances env q r q' r' ls rs) \<and> (window_ok q \<longrightarrow> window_ok q' \<and> traced q r r') \<and>
     (mq_queue q' = [] \<and> qr_provider_error r' = qr_provider_error r \<or> qr_provider_error r' \<noteq> None)"

lemma drained_trans:
  assumes "advances env q r q1 r1 ls rs" "window_ok q \<longrightarrow> window_ok q1 \<and> traced q r r1"
    "qr_provider_error r1 = qr_provider_error r" "drained env q1 r1 q' r'"
  shows "drained env q r q' r'"
proof -
  have "mq_max_window q1 = mq_max_window q" using advancesD(10) [OF assms(1)] by (simp add: same_settings_def)
  then have "traced q r1 r'" if "traced q1 r1 r'" using that by (simp add: traced_def)
  then have "window_ok q \<longrightarrow> window_ok q' \<and> traced q r r'"
    using assms(2,4) traced_trans unfolding drained_def by blast
  moreover have "\<exists>ls rs. advances env q r q' r' ls rs"
    using assms(4) advances_trans [OF assms(1)] unfolding drained_def by blast
  ultimately show ?thesis using assms(3,4) unfolding drained_def by auto
qed

lemma drain_loop_result: "drain_loop env q r = Some y \<Longrightarrow> drained env q r (fst y) (snd y)"
proof (induction rule: drain_loop.raw_induct [rotated, consumes 1, case_names step])
  case (step loop env q r y)
  show ?case
  proof (cases "mq_queue q = []")
    case True
    then have "y = (q, r)" using step(2) by simp
    moreover have "\<exists>ls rs. advances env q r q r ls rs" using advances_refl by blast
    ultimately show ?thesis using True by (auto simp: drained_def traced_def)
  next
    case False
    then obtain continue q1 r1 where round: "drain_round env q r = Some (continue, q1, r1)"
      using step(2) by (cases "drain_round env q r") auto
    note out = drain_round_spec [OF round, unfolded round_outcome_def]
    then obtain ls rs where adv: "advances env q r q1 r1 ls rs" by blast
    show ?thesis
    proof (cases continue)
      case True
      then have "drained env q1 r1 (fst y) (snd y)" using step round False by simp
      then show ?thesis using drained_trans [OF adv] out True by blast
    next
      case False': False
      then have "y = (q1, r1)" using step(2) round False by auto
      then show ?thesis using out False' unfolding drained_def by auto
    qed
  qed
qed

lemma drain_queue_result:
  assumes "drain_queue env q = Some (q', r, final)"
  shows "drained env q new_report q' r" "final = mq_base q'"
  using assms drain_loop_result [of env q new_report "(q', r)"] by (auto simp: drain_queue_def)

lemma build_train_total:
  assumes "\<And>w b onto p. qe_step env w b onto p \<noteq> None"
  shows "n \<le> length (mq_queue (bd_queue b)) \<Longrightarrow> build_train env n b \<noteq> None"
proof (induction n arbitrary: b)
  case (Suc n)
  then obtain c rest where q: "mq_queue (bd_queue b) = c # rest" by (cases "mq_queue (bd_queue b)") auto
  obtain out w where s: "qe_step env (mq_world (bd_queue b)) (ch_base c) (bd_speculative b) (ch_proposed c) = Some (out, w)"
    using assms by (metis not_Some_eq surj_pair)
  show ?case using Suc q s by (simp add: Let_def split: option.split spec_step.split)
qed simp

lemma drain_loop_ends:
  assumes total: "\<And>w b onto p. qe_step env w b onto p \<noteq> None"
  shows "window_ok q \<Longrightarrow> \<exists>q' r'. drain_loop env q r = Some (q', r')"
proof (induction "length (mq_queue q)" arbitrary: q r rule: less_induct)
  case less
  show ?case
  proof (cases "mq_queue q = []")
    case True
    then show ?thesis by (simp add: drain_loop.simps)
  next
    case False
    have "build_train env (min (mq_window q) (length (mq_queue q))) (round_building q) \<noteq> None"
      by (rule build_train_total [OF total]) (simp add: round_building_def)
    then have "drain_round env q r \<noteq> None" by (auto simp: drain_round_def Let_def simp del: not_None_eq)
    then obtain continue q1 r1 where round: "drain_round env q r = Some (continue, q1, r1)"
      by (metis not_Some_eq surj_pair)
    note out = drain_round_spec [OF round, unfolded round_outcome_def]
    show ?thesis
    proof (cases continue)
      case True
      then obtain ls rs where "advances env q r q1 r1 ls rs" "ls \<noteq> [] \<or> rs \<noteq> []"
        using out False less.prems unfolding window_ok_def by blast
      then have "length (mq_queue q1) < length (mq_queue q)" by (auto dest: advances_length)
      then have "\<exists>q' r'. drain_loop env q1 r1 = Some (q', r')" using less out by blast
      then show ?thesis using False round True by (simp add: drain_loop.simps [of env q])
    next
      case False': False
      then show ?thesis using False round by (simp add: drain_loop.simps [of env q])
    qed
  qed
qed

end
