(* ===== verification/Queue_Drain.thy ===== *)
theory Queue_Drain
  imports Queue_Run
begin

text \<open>
  What \<open>MergeQueue::drain\<close> promises, over any speculator, executor and landing: the theorems of
  \<open>Queue_Run\<close> read off the final report. Then what the train does with two changes that depend on each
  other's fate, and the preimage of the executor's cache key.
\<close>

section \<open>The promises of a drain\<close>

text \<open>
  C1: Whatever CI, the speculator and the log answer, a drain lands its changes exactly as if one at
  a time: each onto the state the landing before it left, after CI passed exactly that state and the
  log took it, in the order of submission, and the report's final state is what the last one left.
\<close>

theorem drain_lands_one_at_a_time:
  assumes "drain_queue env q = Some (q', r, final)"
  shows "\<exists>landings. qr_merged r = train_ids landings \<and> landing_chain env (mq_template q) (mq_base q) landings \<and>
    final = final_state (mq_base q) landings \<and> mq_base q' = final \<and>
    subseq (map fst landings @ mq_queue q') (mq_queue q) \<and> mq_landed q' = mq_landed q \<union> identities env landings"
proof -
  obtain ls rs where adv: "advances env q new_report q' r ls rs"
    using drain_queue_result(1) [OF assms] unfolding drained_def by blast
  show ?thesis
    using advancesD(1,2,3,6,7) [OF adv] drain_queue_result(2) [OF assms]
    by (intro exI [of _ ls]) (simp add: new_report_def)
qed

text \<open>
  C2: No change is lost or answered twice: what was queued is what the report merged, what it rejected
  and what is queued still; and nothing is left queued unless the report says why the drain stopped.
\<close>

theorem drain_accounts_for_every_change:
  assumes "drain_queue env q = Some (q', r, final)"
  shows "mset (ids (mq_queue q)) = mset (qr_merged r) + mset (map fst (qr_rejected r)) + mset (ids (mq_queue q')) \<and>
    (qr_provider_error r = None \<longrightarrow> mq_queue q' = [])"
proof -
  have d: "drained env q new_report q' r" by (rule drain_queue_result(1) [OF assms])
  then obtain ls rs where adv: "advances env q new_report q' r ls rs" unfolding drained_def by blast
  have "qr_merged r = train_ids ls" "qr_rejected r = rs"
    using advancesD(3,4) [OF adv] by (simp_all add: new_report_def)
  then show ?thesis using advancesD(5) [OF adv] d unfolding drained_def by auto
qed

text \<open>
  C13: Every rejection has the cause it names. Only a CI verdict about the change's content evicts it as
  failed, so a fault of the provider rejects nobody; a dependency ejection is on a change that CI
  failed and that the rejected one declares, directly or through others; \<open>AlreadyLanded\<close> is a change
  whose identity has landed.
\<close>

theorem rejections_have_their_cause:
  assumes "drain_queue env q = Some (q', r, final)" "(i, reason) \<in> set (qr_rejected r)"
  shows "blamed env (mq_template q) (set (mq_queue q)) (mq_landed q')
    {f. (f, RejCiFailure) \<in> set (qr_rejected r)} i reason"
proof -
  obtain ls rs where adv: "advances env q new_report q' r ls rs"
    using drain_queue_result(1) [OF assms(1)] unfolding drained_def by blast
  have "qr_rejected r = rs" using advancesD(4) [OF adv] by (simp add: new_report_def)
  then show ?thesis using advancesD(9) [OF adv] assms(2) unfolding all_blamed_def by auto
qed

text \<open>
  C18: The speculation window never leaves its bounds: in every entry of the trace, and after the drain,
  it is at least one and at most the maximum, which a drain does not change.
\<close>

theorem window_stays_in_bounds:
  assumes "drain_queue env q = Some (q', r, final)" "window_ok q"
  shows "window_ok q' \<and> mq_max_window q' = mq_max_window q \<and>
    (\<forall>w \<in> set (qr_window_trace r). 1 \<le> w \<and> w \<le> mq_max_window q)"
proof -
  have d: "drained env q new_report q' r" by (rule drain_queue_result(1) [OF assms(1)])
  then obtain ls rs where "advances env q new_report q' r ls rs" unfolding drained_def by blast
  from advancesD(10) [OF this] d assms(2) show ?thesis
    unfolding drained_def traced_def same_settings_def by (auto simp: new_report_def)
qed

section \<open>Speculators that always answer\<close>

text \<open>The contract of \<open>Speculator::step\<close>: it returns.\<close>

locale total_speculator =
  fixes env :: "'e queue_env"
  assumes step_answers: "qe_step env w base onto proposed \<noteq> None"
begin

lemma drain_answers:
  assumes "window_ok q"
  shows "\<exists>q' r. drain_queue env q = Some (q', r, mq_base q') \<and> (mq_queue q' = [] \<or> qr_provider_error r \<noteq> None)"
proof -
  obtain q' r where loop: "drain_loop env q new_report = Some (q', r)"
    using drain_loop_ends [OF step_answers assms] by blast
  then have "drain_queue env q = Some (q', r, mq_base q')" by (simp add: drain_queue_def)
  with drain_queue_result(1) [OF this] show ?thesis unfolding drained_def by blast
qed

end

definition text_stepper ::
  "strategy list \<Rightarrow> 'e \<Rightarrow> string \<Rightarrow> string \<Rightarrow> string \<Rightarrow> (spec_step \<times> 'e) option" where
  "text_stepper ss world base onto proposed = map_option (\<lambda>s. (s, world)) (text_step ss base onto proposed)"

lemma default_pipeline_answers: "\<exists>p. pipeline_merge (default_v1 diffy) base left right = Some p \<and> (\<forall>e. pr_outcome p \<noteq> Unavailable e)"
  by (auto simp: pipeline_merge_def default_v1_def trivial_merge_def line_merge_def split: sum.split)

lemma text_stepper_answers: "text_stepper (default_v1 diffy) world base onto proposed \<noteq> None"
  using default_pipeline_answers [of diffy base onto proposed]
  by (auto simp: text_stepper_def text_step_def simp del: not_None_eq split: merge_outcome.split safety_verdict.split)

interpretation default_text: total_speculator "env\<lparr>qe_step := text_stepper (default_v1 diffy)\<rparr>" for env :: "'e queue_env" and diffy
  by unfold_locales (simp add: text_stepper_answers)

text \<open>
  C14: With the text speculator over the default pipeline a drain ends, for any executor, landing and
  log: the train is never empty of progress while the window is at least one. It ends with an empty
  queue or with the reason it stopped.
\<close>

theorem drain_ends:
  assumes "window_ok q"
  shows "\<exists>q' r. drain_queue (env\<lparr>qe_step := text_stepper (default_v1 diffy)\<rparr>) q = Some (q', r, mq_base q') \<and>
    (mq_queue q' = [] \<or> qr_provider_error r \<noteq> None)"
  by (rule default_text.drain_answers [OF assms])

section \<open>A failure\<close>

text \<open>
  C15: A CI failure ejects exactly the closure of the declared dependencies on it: when something
  waiting depends on it, directly or through others, those changes and no others are rejected with it
  and the window stays; when nothing does, everything behind it is queued again and the window is
  halved, not below one.
\<close>

theorem failure_ejects_closure:
  fixes rest :: "(change \<times> string) list"
  assumes "settle_failure q r ((c, s) # rest) = (q', r')"
  defines "waiting \<equiv> map fst rest @ mq_queue q"
  defines "doomed \<equiv> (declares (set waiting))\<^sup>* `` {ch_id c}"
  shows "if doomed = {ch_id c}
    then mq_queue q' = waiting \<and> qr_rejected r' = qr_rejected r @ [(ch_id c, RejCiFailure)] \<and>
         mq_window q' = min (max (mq_window q div 2) 1) (mq_max_window q)
    else mq_queue q' = filter (\<lambda>d. ch_id d \<notin> doomed) waiting \<and> mq_window q' = mq_window q \<and>
         set (qr_rejected r') = set (qr_rejected r) \<union> {(ch_id c, RejCiFailure)} \<union>
           (\<lambda>d. (ch_id d, RejDependency (ch_id c))) ` {d \<in> set waiting. ch_id d \<in> doomed}"
proof -
  have doomed: "eject waiting {ch_id c} = doomed" by (simp add: eject_closure doomed_def)
  have finite: "finite doomed"
  proof -
    have "doomed \<subseteq> insert (ch_id c) (ch_id ` set waiting)"
      unfolding doomed_def by (auto elim: rtrancl.cases simp: declares_def)
    then show ?thesis by (rule finite_subset) simp
  qed
  moreover have "ch_id c \<in> doomed" by (auto simp: doomed_def)
  ultimately have card: "card doomed > 1 \<longleftrightarrow> doomed \<noteq> {ch_id c}"
    using psubset_card_mono [of doomed "{ch_id c}"] by auto
  have res: "settle_failure q r ((c, s) # rest) =
      (if doomed \<noteq> {ch_id c}
       then (q\<lparr>mq_queue := filter (\<lambda>d. ch_id d \<notin> doomed) (filter (\<lambda>d. ch_id d \<notin> doomed) (map fst rest) @ mq_queue q)\<rparr>,
             r\<lparr>qr_rejected := (qr_rejected r @ [(ch_id c, RejCiFailure)]) @
               map (\<lambda>d. (ch_id d, RejDependency (ch_id c))) (filter (\<lambda>d. ch_id d \<in> doomed) (rev (map fst rest))) @
               map (\<lambda>d. (ch_id d, RejDependency (ch_id c)))
                 (filter (\<lambda>d. ch_id d \<in> doomed) (filter (\<lambda>d. ch_id d \<notin> doomed) (map fst rest) @ mq_queue q))\<rparr>)
       else (requeue (resize q (max (mq_window q div 2) 1) ''combined build failed'') rest,
             r\<lparr>qr_rejected := qr_rejected r @ [(ch_id c, RejCiFailure)]\<rparr>))"
    unfolding settle_failure_def Let_def by (simp add: doomed card [simplified] flip: waiting_def)
  show ?thesis
  proof (cases "doomed = {ch_id c}")
    case True
    then show ?thesis using assms(1) res by (auto simp: waiting_def)
  next
    case False
    have fin: "q' = fst (settle_failure q r ((c, s) # rest))" "r' = snd (settle_failure q r ((c, s) # rest))"
      using assms(1) by simp_all
    have "mq_queue q' = filter (\<lambda>d. ch_id d \<notin> doomed) waiting" "mq_window q' = mq_window q"
      unfolding fin res by (simp_all add: False waiting_def)
    moreover have "set (qr_rejected r') = set (qr_rejected r) \<union> {(ch_id c, RejCiFailure)} \<union>
        (\<lambda>d. (ch_id d, RejDependency (ch_id c))) ` {d \<in> set waiting. ch_id d \<in> doomed}"
      unfolding fin res by (auto simp: False waiting_def)
    ultimately show ?thesis using False by simp
  qed
qed

section \<open>An instance\<close>

text \<open>The text speculator, an executor that answers per job and a log that takes every landing.\<close>

definition text_env ::
  "strategy list \<Rightarrow> (change \<Rightarrow> string) \<Rightarrow> (string \<Rightarrow> content_hash) \<Rightarrow> (job \<Rightarrow> ci_verdict) \<Rightarrow> unit queue_env" where
  "text_env ss ident subject answer =
     \<lparr>qe_name = ''text'', qe_step = text_stepper ss, qe_identity = ident, qe_subject = subject,
      qe_run = synthetic_run answer, qe_land = (\<lambda>world c state. (Inr (), world)),
      qe_submit = (\<lambda>world channel payload sig. (Inr (), world)), qe_op_json = (\<lambda>vop. []),
      qe_recall = (\<lambda>base left right. None)\<rparr>"

definition queue_of :: "string \<Rightarrow> change list \<Rightarrow> unit merge_queue" where
  "queue_of base cs = foldl submit_change (new_queue () base) cs"

lemma text_env_simps [simp]:
  "qe_step (text_env ss ident subject answer) = text_stepper ss" "qe_identity (text_env ss ident subject answer) = ident"
  "qe_subject (text_env ss ident subject answer) = subject" "qe_run (text_env ss ident subject answer) = synthetic_run answer"
  "qe_land (text_env ss ident subject answer) = (\<lambda>world c state. (Inr (), world))"
  "qe_recall (text_env ss ident subject answer) = (\<lambda>base left right. None)"
  by (simp_all add: text_env_def)

lemma trivial_steps:
  "text_stepper [trivial_merge] w base base x = Some (Advanced x, w)"
  "text_stepper [trivial_merge] w base x x = Some (Advanced x, w)"
  "base \<noteq> x \<Longrightarrow> base \<noteq> y \<Longrightarrow> x \<noteq> y \<Longrightarrow> text_stepper [trivial_merge] w base x y = Some (StepConflict, w)"
  using trivial_upholds [of base base x x] trivial_upholds [of base x x x]
  by (auto simp: text_stepper_def text_step_def pipeline_merge_def trivial_merge_def)

lemmas drain_eval = drain_queue_def drain_loop.simps drain_round_def round_building_def Let_def eval_nat_numeral
  ci_answers_def synthetic_run_def act_on_verdicts_def trace_window_def settle_failure_def requeue_def resize_def
  trivial_steps queue_of_def new_queue_def submit_change_def default_window_def new_report_def

text \<open>
  C37: The module promises a train tested \<open>exactly as if they had been tested one at a time\<close>. A change
  that conflicts with a train member is rejected even when that member then fails CI and never lands:
  one at a time the same change lands.
\<close>

theorem conflict_with_a_change_that_never_lands:
  fixes a b :: change and ident :: "change \<Rightarrow> string"
  assumes texts: "ch_base a = base" "ch_base b = base" "ch_proposed a = x" "ch_proposed b = y"
      "base \<noteq> x" "base \<noteq> y" "x \<noteq> y"
    and no_deps: "ch_depends a = []" "ch_depends b = []"
    and ci: "answer (job_for default_template a (subject x)) = CiFailed code"
      "answer (job_for default_template b (subject y)) = CiPassed"
  defines "env \<equiv> text_env [trivial_merge] ident subject answer"
  shows "(\<exists>q r. drain_queue env (queue_of base [a, b]) = Some (q, r, base) \<and> qr_merged r = [] \<and>
      qr_rejected r = [(ch_id b, RejConflict), (ch_id a, RejCiFailure)]) \<and>
    (\<exists>q r q' r'. drain_queue env (queue_of base [a]) = Some (q, r, base) \<and> qr_rejected r = [(ch_id a, RejCiFailure)] \<and>
      drain_queue env (submit_change q b) = Some (q', r', y) \<and> qr_merged r' = [ch_id b])"
  using assms(1-11) unfolding env_def
  by (simp add: drain_eval)

text \<open>
  C38: \<open>AlreadyLanded\<close> promises that a resubmitted change \<open>cannot land twice\<close>. The check reads what had
  landed when the train was built: an identical resubmission in the same train lands twice, and only
  one submitted after the drain is refused.
\<close>

theorem resubmission_in_the_train_lands_twice:
  fixes a b :: change and ident :: "change \<Rightarrow> string"
  assumes texts: "ch_base a = base" "ch_proposed a = x" "ch_base b = base" "ch_proposed b = x" "ident b = ident a"
    and ci: "\<And>c. answer (job_for default_template c (subject x)) = CiPassed"
  defines "env \<equiv> text_env [trivial_merge] ident subject answer"
  shows "(\<exists>q r. drain_queue env (queue_of base [a, b]) = Some (q, r, x) \<and> qr_merged r = [ch_id a, ch_id b]) \<and>
    (\<exists>q r q' r'. drain_queue env (queue_of base [a]) = Some (q, r, x) \<and> qr_merged r = [ch_id a] \<and>
      drain_queue env (submit_change q b) = Some (q', r', x) \<and> qr_merged r' = [] \<and>
      qr_rejected r' = [(ch_id b, RejLanded)])"
  using assms(1-6) unfolding env_def by (simp add: drain_eval)

section \<open>The cache key\<close>

lemma length_push_len [simp]: "length (push_len n) = 8"
  by (simp add: push_len_def)

lemma push_len_inj:
  assumes "m < 2 ^ 64" "n < 2 ^ 64" "push_len m = push_len n"
  shows "m = n"
proof -
  have digit: "m div 256 ^ i mod 256 = n div 256 ^ i mod 256" if "i < 8" for i :: nat
  proof -
    have "(of_nat (m div 256 ^ i) :: u8) = of_nat (n div 256 ^ i)"
      using arg_cong [OF assms(3), of "\<lambda>l. l ! i"] that by (simp add: push_len_def)
    then have "unat (of_nat (m div 256 ^ i) :: u8) = unat (of_nat (n div 256 ^ i) :: u8)" by simp
    then show ?thesis by (simp add: unat_of_nat)
  qed
  have "m mod 256 ^ k = n mod 256 ^ k" if "k \<le> 8" for k :: nat
    using that by (induction k) (simp_all add: mod_mult2_eq digit mult.commute [of 256])
  from this [of 8] show ?thesis using assms(1,2) by simp
qed

lemma of_char_u8_inj: "(of_char a :: u8) = of_char b \<longleftrightarrow> a = b"
proof
  assume "(of_char a :: u8) = of_char b"
  then have "(of_nat (of_char a) :: u8) = of_nat (of_char b)" by (simp add: of_nat_of_char)
  then have "unat (of_nat (of_char a) :: u8) = unat (of_nat (of_char b) :: u8)" by (rule arg_cong)
  then show "a = b" unfolding unat_of_nat by simp
qed simp

lemma string_bytes_inj [simp]: "string_bytes s = string_bytes t \<longleftrightarrow> s = t"
  unfolding string_bytes_def by (rule inj_map_eq_map) (simp add: inj_def of_char_u8_inj)

lemma length_string_bytes [simp]: "length (string_bytes s) = length s"
  by (simp add: string_bytes_def)

text \<open>Every length is a \<open>usize\<close>.\<close>

definition is_usize :: "nat \<Rightarrow> bool" where
  "is_usize n \<longleftrightarrow> n < 2 ^ 64"

lemma push_lenD:
  "push_len m @ xs = push_len n @ ys \<Longrightarrow> is_usize m \<Longrightarrow> is_usize n \<Longrightarrow> m = n \<and> xs = ys"
  using push_len_inj by (auto simp: is_usize_def)

lemma push_fieldD:
  assumes "push_field a @ xs = push_field b @ ys" "is_usize (length a)" "is_usize (length b)"
  shows "a = b \<and> xs = ys"
proof -
  have "length a = length b" using push_lenD assms by (auto simp: push_field_def)
  with assms(1) show ?thesis by (simp add: push_field_def)
qed

lemma push_stringsD:
  "length ss = length ts \<Longrightarrow> \<forall>s \<in> set ss \<union> set ts. is_usize (length s) \<Longrightarrow>
   concat (map (push_field \<circ> string_bytes) ss) @ xs = concat (map (push_field \<circ> string_bytes) ts) @ ys \<Longrightarrow>
     ss = ts \<and> xs = ys"
  by (induction ss ts rule: list_induct2) (auto dest!: push_fieldD)

definition push_pair :: "string \<times> string \<Rightarrow> bytes" where
  "push_pair p = push_field (string_bytes (fst p)) @ push_field (string_bytes (snd p))"

lemma push_pairsD:
  "length ps = length qs \<Longrightarrow> \<forall>p \<in> set ps \<union> set qs. is_usize (length (fst p)) \<and> is_usize (length (snd p)) \<Longrightarrow>
   concat (map push_pair ps) @ xs = concat (map push_pair qs) @ ys \<Longrightarrow> ps = qs \<and> xs = ys"
  by (induction ps qs rule: list_induct2) (auto simp: push_pair_def prod_eq_iff dest!: push_fieldD)

definition fits :: "job \<Rightarrow> bool" where
  "fits j \<longleftrightarrow> is_usize (length (to_hex (jb_subject j))) \<and> is_usize (length (jb_command j)) \<and>
     is_usize (bt_size (jb_environment j)) \<and> list_all (\<lambda>s. is_usize (length s)) (jb_command j) \<and>
     list_all (\<lambda>p. is_usize (length (fst p)) \<and> is_usize (length (snd p))) (bt_items (jb_environment j)) \<and>
     (case jb_directory j of None \<Rightarrow> True | Some dir \<Rightarrow> is_usize (length dir))"

definition directory_tail :: "string option \<Rightarrow> bytes" where
  "directory_tail d = (case d of None \<Rightarrow> push_len 0 | Some dir \<Rightarrow> push_len 1 @ push_field (string_bytes dir))"

lemma directory_tail_inj:
  assumes "directory_tail d = directory_tail e" "\<forall>dir. d = Some dir \<or> e = Some dir \<longrightarrow> is_usize (length dir)"
  shows "d = e"
proof -
  have bits: "is_usize 0" "is_usize 1" by (simp_all add: is_usize_def)
  have "push_len 0 = push_len 1 @ xs \<Longrightarrow> False" for xs
    using push_lenD [of 0 "[]" 1 xs] bits by simp
  moreover have "push_len 1 @ push_field (string_bytes x) = push_len 1 @ push_field (string_bytes y) \<Longrightarrow>
      is_usize (length x) \<Longrightarrow> is_usize (length y) \<Longrightarrow> x = y" for x y
    using push_fieldD [of "string_bytes x" "[]" "string_bytes y" "[]"] by simp
  ultimately show ?thesis
    using assms by (cases d; cases e) (auto simp: directory_tail_def dest: sym)
qed

text \<open>
  C20: The cache key's preimage is unambiguous: two jobs have the same one exactly when subject, command,
  environment and directory agree. No argument can pass for an environment entry or run into the
  next; the label, the deadline and the permission to write do not count.
\<close>

theorem cache_preimage_unambiguous:
  assumes "fits j" "fits k"
  shows "cache_preimage j = cache_preimage k \<longleftrightarrow>
    jb_subject j = jb_subject k \<and> jb_command j = jb_command k \<and> jb_environment j = jb_environment k \<and>
    jb_directory j = jb_directory k"
proof
  have pre: "cache_preimage i = push_field (string_bytes (to_hex (jb_subject i))) @ push_len (length (jb_command i)) @
      concat (map (push_field \<circ> string_bytes) (jb_command i)) @ push_len (bt_size (jb_environment i)) @
      concat (map push_pair (bt_items (jb_environment i))) @ directory_tail (jb_directory i)" for i
    by (simp add: cache_preimage_def push_pair_def split_def directory_tail_def cong: map_cong)
  assume eq: "cache_preimage j = cache_preimage k"
  note lens = assms [unfolded fits_def list_all_iff]
  note subject = push_fieldD [OF eq [unfolded pre], unfolded string_bytes_inj to_hex_inj length_string_bytes]
  have s: "jb_subject j = jb_subject k" using subject lens by blast
  note count = push_lenD [OF conjunct2 [OF subject]]
  have "length (jb_command j) = length (jb_command k)" using count lens by blast
  note command = push_stringsD [OF this _ conjunct2 [OF count]]
  have c: "jb_command j = jb_command k" using command lens by blast
  note size = push_lenD [OF conjunct2 [OF command]]
  have "bt_size (jb_environment j) = bt_size (jb_environment k)" using size lens by blast
  note items = push_pairsD [OF this [unfolded bt_size_def] _ conjunct2 [OF size]]
  have "bt_items (jb_environment j) = bt_items (jb_environment k)" using items lens by blast
  then have e: "jb_environment j = jb_environment k" by (intro bt_eqI) (simp add: bt_get_items)
  have "directory_tail (jb_directory j) = directory_tail (jb_directory k)" using items lens by blast
  then have "jb_directory j = jb_directory k" by (rule directory_tail_inj) (use lens in auto)
  with s c e show "jb_subject j = jb_subject k \<and> jb_command j = jb_command k \<and> jb_environment j = jb_environment k \<and>
    jb_directory j = jb_directory k" by blast
qed (simp add: cache_preimage_def)

section \<open>Instances\<close>

definition sample_change :: "nat \<Rightarrow> string \<Rightarrow> change" where
  "sample_change i text = \<lparr>ch_id = i, ch_workspace = ''w'', ch_base = ''a'', ch_proposed = text, ch_depends = []\<rparr>"

lemma sample_change_simps [simp]:
  "ch_id (sample_change i text) = i" "ch_base (sample_change i text) = ''a''"
  "ch_proposed (sample_change i text) = text" "ch_depends (sample_change i text) = []"
  by (simp_all add: sample_change_def)

abbreviation sample_env :: "unit queue_env" where
  "sample_env \<equiv> text_env [trivial_merge] ch_proposed (\<lambda>state. \<lparr>codec = 0x1e, digest = [0]\<rparr>) (\<lambda>j. CiPassed)"

abbreviation sample_queue :: "unit merge_queue" where
  "sample_queue \<equiv> queue_of ''a'' [sample_change 1 ''b'', sample_change 2 ''c'']"

lemma sample_drain:
  "\<exists>q r. drain_queue sample_env sample_queue = Some (q, r, ''b'') \<and> qr_merged r = [1] \<and>
     qr_rejected r = [(2, RejConflict)] \<and> qr_window_trace r = [20] \<and> mq_queue q = []"
  by (simp add: drain_eval)

lemma window_ok_new: "window_ok (new_queue world base)"
  by (simp add: window_ok_def new_queue_def default_window_def)

lemma window_ok_set_max: "window_ok q \<Longrightarrow> set_max_window q n = Some q' \<Longrightarrow> window_ok q'"
  by (auto simp: window_ok_def set_max_window_def resize_def Let_def split: if_splits)

lemma window_ok_sample: "window_ok sample_queue"
  by (simp add: queue_of_def submit_change_def window_ok_new)

lemma drain_lands_one_at_a_time_witness:
  "\<exists>q r landings. drain_queue sample_env sample_queue = Some (q, r, ''b'') \<and> train_ids landings = [1] \<and>
     landing_chain sample_env (mq_template sample_queue) ''a'' landings \<and> final_state ''a'' landings = ''b''"
proof -
  obtain q r where d: "drain_queue sample_env sample_queue = Some (q, r, ''b'')" "qr_merged r = [1]"
    using sample_drain by blast
  have base: "mq_base sample_queue = ''a''" by (simp add: queue_of_def submit_change_def new_queue_def)
  obtain landings where "qr_merged r = train_ids landings" "''b'' = final_state ''a'' landings"
      "landing_chain sample_env (mq_template sample_queue) ''a'' landings"
    using drain_lands_one_at_a_time [OF d(1), unfolded base] by blast
  with d show ?thesis by metis
qed

lemma drain_accounts_for_every_change_witness:
  "\<exists>q r. drain_queue sample_env sample_queue = Some (q, r, ''b'') \<and>
     mset (ids (mq_queue sample_queue)) = mset (qr_merged r) + mset (map fst (qr_rejected r)) + mset (ids (mq_queue q)) \<and>
     ids (mq_queue sample_queue) = [1, 2]"
proof -
  obtain q r where d: "drain_queue sample_env sample_queue = Some (q, r, ''b'')"
    using sample_drain by blast
  with drain_accounts_for_every_change [OF d] show ?thesis by (auto simp: queue_of_def submit_change_def new_queue_def)
qed

lemma rejections_have_their_cause_witness:
  "\<exists>q r. drain_queue sample_env sample_queue = Some (q, r, ''b'') \<and>
     blamed sample_env (mq_template sample_queue) (set (mq_queue sample_queue)) (mq_landed q)
       {f. (f, RejCiFailure) \<in> set (qr_rejected r)} 2 RejConflict"
proof -
  obtain q r where d: "drain_queue sample_env sample_queue = Some (q, r, ''b'')" "(2, RejConflict) \<in> set (qr_rejected r)"
    using sample_drain by auto
  show ?thesis using d(1) rejections_have_their_cause [OF d] by blast
qed

lemma window_stays_in_bounds_witness:
  "\<exists>q r. drain_queue sample_env sample_queue = Some (q, r, ''b'') \<and> qr_window_trace r = [20] \<and> window_ok q \<and>
     (\<forall>w \<in> set (qr_window_trace r). 1 \<le> w \<and> w \<le> mq_max_window sample_queue)"
proof -
  obtain q r where d: "drain_queue sample_env sample_queue = Some (q, r, ''b'')" "qr_window_trace r = [20]"
    using sample_drain by blast
  from window_stays_in_bounds [OF d(1) window_ok_sample] d show ?thesis by blast
qed

lemma drain_ends_witness:
  "\<exists>q r. drain_queue (sample_env\<lparr>qe_step := text_stepper (default_v1 (\<lambda>base left right. Inl left))\<rparr>) sample_queue
     = Some (q, r, mq_base q)"
  using drain_ends [OF window_ok_sample] by blast

lemma failure_ejects_closure_witness:
  "\<exists>q r. settle_failure (queue_of ''a'' [(sample_change 2 ''c'')\<lparr>ch_depends := [1]\<rparr>, sample_change 3 ''d'']) new_report
       [(sample_change 1 ''b'', ''b'')] = (q, r) \<and>
     mq_queue q = [sample_change 3 ''d''] \<and> (2, RejDependency 1) \<in> set (qr_rejected r)"
proof -
  define b where "b = (sample_change 2 ''c'')\<lparr>ch_depends := [1]\<rparr>"
  define queue where "queue = queue_of ''a'' [b, sample_change 3 ''d'']"
  obtain q r where s: "settle_failure queue new_report [(sample_change 1 ''b'', ''b'')] = (q, r)" by fastforce
  have waiting: "mq_queue queue = [b, sample_change 3 ''d'']"
    by (simp add: queue_def queue_of_def submit_change_def new_queue_def)
  have "declares {b, sample_change 3 ''d''} = {(1, 2)}"
    by (auto simp: declares_def b_def intro!: exI [of _ "(sample_change 2 ''c'')\<lparr>ch_depends := [Suc 0]\<rparr>"])
  moreover have "{(1 :: nat, 2)}\<^sup>* `` {1} = {1, 2}"
    by (auto simp: rtrancl_trancl_reflcl trancl_insert)
  ultimately have "(declares (set (map fst [] @ mq_queue queue)))\<^sup>* `` {ch_id (sample_change 1 ''b'')} = {1, 2}"
    by (simp add: waiting)
  then have "mq_queue q = [sample_change 3 ''d''] \<and> (2, RejDependency 1) \<in> set (qr_rejected r)"
    using failure_ejects_closure [OF s] by (simp add: waiting b_def) (auto simp: image_iff)
  with s show ?thesis unfolding queue_def b_def by blast
qed

lemma conflict_with_a_change_that_never_lands_witness:
  "\<exists>q r. drain_queue (text_env [trivial_merge] ch_proposed (\<lambda>state. \<lparr>codec = 0x1e, digest = [0]\<rparr>)
       (failing_labels [''1''])) sample_queue = Some (q, r, ''a'') \<and> qr_merged r = [] \<and>
     qr_rejected r = [(2, RejConflict), (1, RejCiFailure)]"
  using conflict_with_a_change_that_never_lands [of "sample_change 1 ''b''" "''a''" "sample_change 2 ''c''" "''b''" "''c''"
      "failing_labels [''1'']" "\<lambda>state. \<lparr>codec = 0x1e, digest = [0]\<rparr>" "Some 1" ch_proposed]
  by (simp add: failing_labels_def job_for_def default_template_def new_job_def Let_def show_nat.simps)

lemma resubmission_in_the_train_lands_twice_witness:
  "\<exists>q r. drain_queue sample_env (queue_of ''a'' [sample_change 1 ''b'', sample_change 2 ''b'']) = Some (q, r, ''b'') \<and>
     qr_merged r = [1, 2]"
  using resubmission_in_the_train_lands_twice [of "sample_change 1 ''b''" "''a''" "''b''" "sample_change 2 ''b''" ch_proposed
      "\<lambda>j. CiPassed" "\<lambda>state. \<lparr>codec = 0x1e, digest = [0]\<rparr>"]
  by simp

lemma cache_preimage_unambiguous_witness:
  "cache_preimage (new_job \<lparr>codec = 0x1e, digest = [0]\<rparr> [''ab'', ''c'']) \<noteq>
   cache_preimage (new_job \<lparr>codec = 0x1e, digest = [0]\<rparr> [''a'', ''bc''])"
proof -
  have "fits (new_job \<lparr>codec = 0x1e, digest = [0]\<rparr> args)" if "args = [''ab'', ''c''] \<or> args = [''a'', ''bc'']" for args
    using that by (auto simp: fits_def is_usize_def new_job_def bt_size_def to_hex_def hex_byte_def)
  from cache_preimage_unambiguous [OF this this] show ?thesis by (simp add: new_job_def)
qed

end
