(* ===== verification/Queue_Memory.thy ===== *)
theory Queue_Memory
  imports Queue Commits
begin

text \<open>
  \<open>crates/choir-queue/src/memory.rs\<close>: the resolutions already committed, keyed by the conflict they
  resolve. The store is the functions \<open>get\<close> and \<open>put\<close> of \<open>Chunk_Store\<close>; FastCDC, \<open>serde_json\<close> and
  the check for UTF-8 are parameters. A panic is \<open>None\<close>.
\<close>

section \<open>Definitions\<close>

record memory_externals = commit_externals +
  x_chunks :: "chunker_params \<Rightarrow> bytes \<Rightarrow> (nat \<times> nat) list"
  x_manifest_json :: "manifest \<Rightarrow> bytes"
  x_manifest_parse :: "bytes \<Rightarrow> string + manifest"
  x_tree_entry_json :: "tree_entry \<Rightarrow> bytes"
  x_utf8 :: "bytes \<Rightarrow> string option"

type_synonym resolution_memory = "(string, string) btmap"

definition conflict_key :: "('a) memory_externals_scheme \<Rightarrow> tree_entry \<Rightarrow> string" where
  "conflict_key X entry = to_hex (blake3 (x_blake3 X) (x_tree_entry_json X entry))"

definition memory_addr ::
  "('a) memory_externals_scheme \<Rightarrow> mem_store \<Rightarrow> string \<Rightarrow> ((store_error + content_hash) \<times> mem_store) option" where
  "memory_addr X s txt =
     put_blob (mem_put (x_blake3 X)) (x_chunks X) (x_manifest_json X) s (string_bytes txt) default_chunker_params"

definition memory_key :: "('a) memory_externals_scheme \<Rightarrow> string \<Rightarrow> string \<Rightarrow> string \<Rightarrow> string option" where
  "memory_key X base left right =
     (case memory_addr X mem_store_new base of
        Some (Inr b, s1) \<Rightarrow>
          (case memory_addr X s1 left of
             Some (Inr l, s2) \<Rightarrow>
               (case memory_addr X s2 right of
                  Some (Inr r, s3) \<Rightarrow> Some (conflict_key X (ConflictEntry (Some b) l r))
                | _ \<Rightarrow> None)
           | _ \<Rightarrow> None)
      | _ \<Rightarrow> None)"

text \<open>The file that replaced the conflict at \<open>path\<close>, if the store supplies it and it is text.\<close>

definition resolved_text ::
  "('a) memory_externals_scheme \<Rightarrow> ('s \<Rightarrow> content_hash \<Rightarrow> (store_error + bytes) option) \<Rightarrow> 's \<Rightarrow> commit \<Rightarrow>
   string \<Rightarrow> string option option" where
  "resolved_text X get s resolver path =
     (case bt_get (co_tree resolver) path of
        Some (FileEntry blob) \<Rightarrow>
          (case get_blob get (x_manifest_parse X) s blob of
             None \<Rightarrow> None
           | Some (Inl _) \<Rightarrow> Some None
           | Some (Inr bytes) \<Rightarrow> Some (x_utf8 X bytes))
      | _ \<Rightarrow> Some None)"

text \<open>The inner loop of \<open>from_log\<close>: the paths of the conflicted tree, against the tree that resolved it.\<close>

fun remember ::
  "('a) memory_externals_scheme \<Rightarrow> ('s \<Rightarrow> content_hash \<Rightarrow> (store_error + bytes) option) \<Rightarrow> 's \<Rightarrow> commit \<Rightarrow>
   resolution_memory \<Rightarrow> (string \<times> tree_entry) list \<Rightarrow> resolution_memory option" where
  "remember X get s resolver m [] = Some m"
| "remember X get s resolver m ((path, entry) # rest) =
     (if is_conflict entry
      then (case resolved_text X get s resolver path of
              None \<Rightarrow> None
            | Some None \<Rightarrow> remember X get s resolver m rest
            | Some (Some txt) \<Rightarrow> remember X get s resolver (bt_insert (conflict_key X entry) txt m) rest)
      else remember X get s resolver m rest)"

definition remember_entry ::
  "('a) memory_externals_scheme \<Rightarrow> ('s \<Rightarrow> content_hash \<Rightarrow> (store_error + bytes) option) \<Rightarrow> 's \<Rightarrow>
   resolution_memory \<Rightarrow> op_entry \<Rightarrow> resolution_memory option" where
  "remember_entry X get s m entry =
     (case from_payload X (e_payload entry) of
        Inl _ \<Rightarrow> Some m
      | Inr vop \<Rightarrow>
          (case named_commit (vo_kind vop) of
             None \<Rightarrow> Some m
           | Some i \<Rightarrow>
               (case commit_get X (get s) i of
                  None \<Rightarrow> None
                | Some (Inl _) \<Rightarrow> Some m
                | Some (Inr resolver) \<Rightarrow>
                    (case co_resolves resolver of
                       None \<Rightarrow> Some m
                     | Some tgt \<Rightarrow>
                         (case commit_get X (get s) tgt of
                            None \<Rightarrow> None
                          | Some (Inl _) \<Rightarrow> Some m
                          | Some (Inr conflicted) \<Rightarrow>
                              remember X get s resolver m (bt_items (co_tree conflicted)))))))"

fun remember_entries ::
  "('a) memory_externals_scheme \<Rightarrow> ('s \<Rightarrow> content_hash \<Rightarrow> (store_error + bytes) option) \<Rightarrow> 's \<Rightarrow>
   (nat \<Rightarrow> op_entry option) \<Rightarrow> resolution_memory \<Rightarrow> nat list \<Rightarrow> resolution_memory option" where
  "remember_entries X get s entry_at m [] = Some m"
| "remember_entries X get s entry_at m (i # is) =
     (case entry_at i of
        None \<Rightarrow> remember_entries X get s entry_at m is
      | Some entry \<Rightarrow>
          Option.bind (remember_entry X get s m entry) (\<lambda>m'. remember_entries X get s entry_at m' is))"

definition memory_from_log ::
  "('a) memory_externals_scheme \<Rightarrow> ('l \<Rightarrow> nat) \<Rightarrow> ('l \<Rightarrow> nat \<Rightarrow> op_entry option) \<Rightarrow> 'l \<Rightarrow>
   ('s \<Rightarrow> content_hash \<Rightarrow> (store_error + bytes) option) \<Rightarrow> 's \<Rightarrow> resolution_memory option" where
  "memory_from_log X len entry_at log get s = remember_entries X get s (entry_at log) bt_empty [0..<len log]"

definition recall ::
  "('a) memory_externals_scheme \<Rightarrow> resolution_memory \<Rightarrow> string \<Rightarrow> string \<Rightarrow> string \<Rightarrow> string option option" where
  "recall X m base left right = map_option (bt_get m) (memory_key X base left right)"

text \<open>The memory of a queue: the \<open>qe_recall\<close> of its environment.\<close>

definition with_memory ::
  "('a) memory_externals_scheme \<Rightarrow> resolution_memory \<Rightarrow> 'e queue_env \<Rightarrow> 'e queue_env" where
  "with_memory X m env =
     env\<lparr>qe_recall := (\<lambda>base left right. case recall X m base left right of None \<Rightarrow> None | Some txt \<Rightarrow> txt)\<rparr>"

lemma put_chunks_mem:
  "\<forall>(off, len) \<in> set cs. off + len \<le> length data \<Longrightarrow> \<exists>hs s'. put_chunks (mem_put b3) s data cs = Some (Inr hs, s')"
proof (induction cs arbitrary: s)
  case (Cons c cs)
  obtain off len where c: "c = (off, len)" by fastforce
  obtain h s1 where put: "mem_put b3 s (take len (drop off data)) = Some (Inr h, s1)"
    by (simp add: mem_put_def Let_def)
  obtain hs s' where "put_chunks (mem_put b3) s1 data cs = Some (Inr hs, s')" using Cons by fastforce
  then show ?case using Cons.prems c put by simp
qed simp

lemma memory_key_total:
  assumes "\<And>params data off len. (off, len) \<in> set (x_chunks X params data) \<Longrightarrow> off + len \<le> length data"
  shows "memory_key X base left right \<noteq> None"
proof -
  have addr: "\<exists>h s'. memory_addr X s t = Some (Inr h, s')" for s t
  proof -
    obtain hs s' where "put_chunks (mem_put (x_blake3 X)) s (string_bytes t)
        (x_chunks X default_chunker_params (string_bytes t)) = Some (Inr hs, s')"
      using put_chunks_mem [of "x_chunks X default_chunker_params (string_bytes t)" "string_bytes t"] assms by blast
    then show ?thesis by (simp add: memory_addr_def put_blob_def mem_put_def Let_def)
  qed
  obtain b s1 where "memory_addr X mem_store_new base = Some (Inr b, s1)" using addr by blast
  moreover obtain l s2 where "memory_addr X s1 left = Some (Inr l, s2)" using addr by blast
  moreover obtain r s3 where "memory_addr X s2 right = Some (Inr r, s3)" using addr by blast
  ultimately show ?thesis by (simp add: memory_key_def)
qed

section \<open>What is remembered was committed\<close>

definition committed_resolution ::
  "('a) memory_externals_scheme \<Rightarrow> ('s \<Rightarrow> content_hash \<Rightarrow> (store_error + bytes) option) \<Rightarrow> 's \<Rightarrow> op_entry \<Rightarrow>
   string \<Rightarrow> string \<Rightarrow> bool" where
  "committed_resolution X get s entry k txt \<longleftrightarrow>
     (\<exists>vop i resolver tgt conflicted path conflict.
        from_payload X (e_payload entry) = Inr vop \<and> named_commit (vo_kind vop) = Some i \<and>
        commit_get X (get s) i = Some (Inr resolver) \<and> co_resolves resolver = Some tgt \<and>
        commit_get X (get s) tgt = Some (Inr conflicted) \<and>
        bt_get (co_tree conflicted) path = Some conflict \<and> is_conflict conflict \<and> k = conflict_key X conflict \<and>
        resolved_text X get s resolver path = Some (Some txt))"

lemma remember_source:
  "remember X get s resolver m items = Some m' \<Longrightarrow> bt_get m' k = Some txt \<Longrightarrow>
   bt_get m k = Some txt \<or>
   (\<exists>path entry. (path, entry) \<in> set items \<and> is_conflict entry \<and> k = conflict_key X entry \<and>
      resolved_text X get s resolver path = Some (Some txt))"
proof (induction items arbitrary: m)
  case (Cons x rest)
  obtain path entry where x: "x = (path, entry)" by fastforce
  consider "remember X get s resolver m rest = Some m'"
    | t where "is_conflict entry" "resolved_text X get s resolver path = Some (Some t)"
        "remember X get s resolver (bt_insert (conflict_key X entry) t m) rest = Some m'"
    using Cons.prems(1) by (auto simp: x split: if_splits option.splits)
  then show ?case
  proof cases
    case 1
    then show ?thesis using Cons.IH [OF 1 Cons.prems(2)] by auto
  next
    case 2
    then show ?thesis
      using Cons.IH [OF 2(3) Cons.prems(2)] x by (cases "k = conflict_key X entry") auto
  qed
qed simp

lemma remember_entry_source:
  assumes "remember_entry X get s m entry = Some m'" "bt_get m' k = Some txt"
  shows "bt_get m k = Some txt \<or> committed_resolution X get s entry k txt"
proof (cases "m' = m")
  case False
  then obtain vop i resolver tgt conflicted where c: "from_payload X (e_payload entry) = Inr vop"
    "named_commit (vo_kind vop) = Some i" "commit_get X (get s) i = Some (Inr resolver)" "co_resolves resolver = Some tgt"
    "commit_get X (get s) tgt = Some (Inr conflicted)"
    "remember X get s resolver m (bt_items (co_tree conflicted)) = Some m'"
    using assms(1) by (auto simp: remember_entry_def split: sum.splits option.splits)
  from remember_source [OF c(6) assms(2)] c(1-5) show ?thesis
    unfolding committed_resolution_def bt_items_iff by blast
qed (use assms in simp)

lemma remember_entries_source:
  "remember_entries X get s entry_at m is = Some m' \<Longrightarrow> bt_get m' k = Some txt \<Longrightarrow>
   bt_get m k = Some txt \<or> (\<exists>i entry. i \<in> set is \<and> entry_at i = Some entry \<and> committed_resolution X get s entry k txt)"
proof (induction X get s entry_at m "is" rule: remember_entries.induct)
  case (2 X get s entry_at m i "is")
  show ?case
  proof (cases "entry_at i")
    case None
    then show ?thesis using 2 by auto
  next
    case (Some entry)
    then obtain m1 where m1: "remember_entry X get s m entry = Some m1" "remember_entries X get s entry_at m1 is = Some m'"
      using 2(3) by (auto simp: bind_eq_Some_conv)
    from 2(2) [OF Some m1 2(4)] remember_entry_source [OF m1(1)] Some show ?thesis by fastforce
  qed
qed auto

text \<open>
  C19: The resolution memory invents nothing: a text it recalls for a conflict is the content of the file
  that replaced this conflict in a commit of the log which links, by \<open>resolves\<close>, the commit that held
  the conflict.
\<close>

theorem recalled_resolution_was_committed:
  assumes "memory_from_log X len entry_at log get s = Some m" "recall X m base left right = Some (Some txt)"
  shows "\<exists>i entry k. i < len log \<and> entry_at log i = Some entry \<and> memory_key X base left right = Some k \<and>
    committed_resolution X get s entry k txt"
proof -
  obtain k where k: "memory_key X base left right = Some k" "bt_get m k = Some txt"
    using assms(2) by (auto simp: recall_def)
  from remember_entries_source [OF assms(1) [unfolded memory_from_log_def] k(2)] k(1) show ?thesis by auto
qed

section \<open>An instance\<close>

definition length_hash :: "nat \<Rightarrow> content_hash" where
  "length_hash n = blake3 (\<lambda>b. b) [of_nat n]"

definition conflicted_sample :: commit where
  "conflicted_sample =
     \<lparr>co_format_version = 1, co_parents = [],
      co_tree = bt_insert ''a'' (ConflictEntry (Some (length_hash 1)) (length_hash 2) (length_hash 3)) bt_empty,
      co_author = ''ana'', co_message = [], co_resolves = None\<rparr>"

definition resolver_sample :: commit where
  "resolver_sample =
     \<lparr>co_format_version = 1, co_parents = [], co_tree = bt_insert ''a'' (FileEntry (length_hash 0)) bt_empty,
      co_author = ''ana'', co_message = [], co_resolves = Some (length_hash 9)\<rparr>"

text \<open>An encoder that keeps the length of a text, and a log of one operation that names the resolver.\<close>

definition sample_memory_externals :: memory_externals where
  "sample_memory_externals =
     \<lparr>x_blake3 = \<lambda>b. b, x_entry_json = \<lambda>e. [], x_entry_parse = \<lambda>_. Inl ''entry'', x_signed_json = \<lambda>(_, b). b,
      x_op_json = \<lambda>_. [], x_op_parse = \<lambda>_. Inr (new_view_op (SetWorkspaceHead ''w'' (length_hash 8) None)),
      x_snapshot_json = \<lambda>s. [], x_commit_json = \<lambda>c. [],
      x_commit_parse = \<lambda>b. Inr (if b = [8] then resolver_sample else conflicted_sample), x_error_debug = \<lambda>_. ''error'',
      x_chunks = \<lambda>params d. [], x_manifest_json = \<lambda>mf. [of_nat (mf_len mf)],
      x_manifest_parse = \<lambda>b. Inr \<lparr>mf_format_version = 1, mf_params = default_chunker_params, mf_len = 0, mf_chunks = []\<rparr>,
      x_tree_entry_json = \<lambda>e. [7], x_utf8 = \<lambda>b. Some (map (char_of \<circ> unat) b)\<rparr>"

definition sample_entries :: "op_entry list" where
  "sample_entries =
     [\<lparr>e_format_version = 1, e_parent = None, e_seq = 0, e_channel = ''w'', e_payload = [], e_witnesses = [],
       e_author_sig = None\<rparr>]"

definition sample_get :: "unit \<Rightarrow> content_hash \<Rightarrow> (store_error + bytes) option" where
  "sample_get s h = Some (Inr (digest h))"

lemma sample_memory:
  "\<exists>m. memory_from_log sample_memory_externals length (\<lambda>l i. Some (l ! i)) sample_entries sample_get () = Some m \<and>
     recall sample_memory_externals m ''x'' ''xy'' ''xyz'' = Some (Some [])"
  by (simp add: memory_from_log_def sample_entries_def remember_entry_def from_payload_def sample_memory_externals_def
      new_view_op_def named_commit_def commit_get_def sample_get_def length_hash_def
      resolver_sample_def conflicted_sample_def resolved_text_def get_blob_def manifest_format_version_def isize_max_def
      recall_def memory_key_def memory_addr_def put_blob_def mem_put_def Let_def conflict_key_def blake3_def)

lemma recalled_resolution_was_committed_witness:
  "\<exists>m entry k. memory_from_log sample_memory_externals length (\<lambda>l i. Some (l ! i)) sample_entries sample_get () = Some m \<and>
     memory_key sample_memory_externals ''x'' ''xy'' ''xyz'' = Some k \<and>
     committed_resolution sample_memory_externals sample_get () entry k []"
proof -
  obtain m where m: "memory_from_log sample_memory_externals length (\<lambda>l i. Some (l ! i)) sample_entries sample_get () = Some m"
    "recall sample_memory_externals m ''x'' ''xy'' ''xyz'' = Some (Some [])"
    using sample_memory by blast
  from recalled_resolution_was_committed [OF m] m(1) show ?thesis by blast
qed

end
