(* ===== verification/Spec2Isabelle.thy ===== *)
theory Spec2Isabelle
  imports View_Gate View_Refs Commits Sequencer_Run Queue_Drain Queue_Memory
begin

text \<open>
  A model of the core of choir, a code-collaboration server built on a signed, append-only operation
  log: the content hash (\<open>crates/choir-hash\<close>), the operation log with its durable backend and its
  offline repair (\<open>crates/choir-oplog\<close>), the chunk store (\<open>crates/choir-store\<close>), the view, the state
  every log folds into (\<open>crates/choir-view\<close>), and the sequencer, the one writer of the log
  (\<open>crates/choir-sequencer\<close>), the merge strategies with their safety check (\<open>crates/choir-merge\<close>) and
  the speculative merge queue (\<open>crates/choir-queue\<close>).

  How the parts work together. A client's operation (\<open>ViewOp\<close>) is the payload of an entry
  (\<open>OpEntry\<close>) of the log. \<open>append_op\<close> materializes the log into a \<open>View\<close>, asks \<open>View::validate\<close> whether
  the operation applies, and appends an entry that names the hash of the entry before it as its
  parent; \<open>View::apply\<close> then folds the entry in. Everything the server answers is read from that
  fold: refs and workspaces, changes and their workspaces, reviews with their verdicts, slashes and
  approval weight, keys and the operators they are bound to, vouches, check results, attested
  snapshots of the refs. \<open>FileLog\<close> keeps the log in a file, one JSON line per entry, buffered in
  memory until a sync; \<open>open\<close> replays the file and repairs a torn tail. \<open>append_op_with_store\<close> also
  reads commits out of a chunk store and refuses a head that resolves a commit that has no conflict.
  In the server, the sequencer does the appending: clients take a quota slot and put a command in a
  channel, and the writer drains a batch, serves it round-robin over the actors, asks its policy about
  each submission, appends what is admitted, syncs the log once, and only then answers. A replica
  hands the same writer entries another log already ordered. The merge queue is a client of both: it
  merges a train of changes speculatively, each onto the state the ones ahead would leave, asks CI
  about every state, lands the green prefix through the sequencer, and ejects what failed.

  \<^item> \<open>Prelude\<close>: errors as sums, \<open>and_then\<close>, splitting, decimal printing, lemmas on lists and options.
  \<^item> \<open>BTree_Map\<close>: the ordered map of the standard library (\<open>BTreeMap\<close>) as a sorted association list
    with its lookup, insertion, removal and iteration lemmas. The view iterates its maps in key order,
    and its hashes and error texts depend on that order.
  \<^item> \<open>Content_Hash\<close>: \<open>choir-hash/src/lib.rs\<close>. A hash is its codec byte and its digest; \<open>to_hex\<close>,
    \<open>from_hex\<close> (with \<open>u8::from_str_radix\<close> written out), git object ids.
  \<^item> \<open>Op_Log\<close>: the wire types, hashes and signing hashes of \<open>choir-oplog/src/lib.rs\<close>, the locale
    \<open>op_log\<close> for the trait \<open>OpLog\<close>, and \<open>MemLog\<close>, which interprets it.
  \<^item> \<open>File_Log\<close>: \<open>FileLog\<close> and \<open>repair.rs\<close>, over a disk (bytes, how many are durable, room left,
    whether a sync fails, which calls of a repair fail) and a \<open>BufWriter\<close>. The invariant \<open>fl_inv\<close> ties the
    file, the buffer, the offsets and the pending queue to one list of entries; \<open>flog\<close> interprets \<open>op_log\<close>
    on it. The repair of a torn tail (\<open>quarantine_tail\<close>, \<open>cut_file\<close>) fails like the code's does and leaves
    what the calls before the failing one did. \<open>reopens\<close> is what is true of every \<open>open\<close> after any number
    of restarts, each a power cut at any byte and an attempt to open on a device in any condition;
    \<open>recoverable\<close> is the invariant of the disk under restarts.
  \<^item> \<open>Chunk_Store\<close>: the locale \<open>chunk_store\<close> for the trait \<open>ChunkStore\<close>, interpreted by the in-memory
    store and by the file store with its faults (\<open>None\<close> is a panic), and the chunked blobs over it.
  \<^item> \<open>View_Types\<close>: the data model of \<open>choir-view/src/lib.rs\<close>, with the payload encoding as a parameter.
  \<^item> \<open>Review\<close>: the arithmetic of reviews: who counts as an approver, slashes, weight, completion.
  \<^item> \<open>View_Validate\<close>, \<open>View_Apply\<close>: one definition per arm of \<open>View::validate\<close> and \<open>View::apply\<close>, with
    the error texts; an \<open>expect\<close> in an arm of \<open>apply\<close> is the value \<open>None\<close>; the queries of a view; the
    folds \<open>materialize\<close> and \<open>View::at\<close>; \<open>append_op\<close> over any log; \<open>reachable\<close>, the views of the fold.
  \<^item> \<open>View_Inv\<close>: the invariant of reachable views, component by component, and its preservation by each
    arm. \<open>View_Replay\<close>: appending against the log contract, in the locale \<open>failsafe_log\<close> (an \<open>op_log\<close>
    whose refused append changes nothing), interpreted on \<open>MemLog\<close>. \<open>View_History\<close>: what every
    later view keeps (\<open>later\<close>), changes and workspaces.
  \<^item> \<open>View_Identity\<close>: keys, operators and vouches. \<open>View_Gate\<close>: reviews along the history, and
    \<open>Submit\<close>. \<open>View_Refs\<close>: compare-and-swap on refs, snapshots, checks.
  \<^item> \<open>Commits\<close>: commits, the conflict report of a cone of paths, resolution links.
  \<^item> \<open>Durable_Log\<close>: the locale \<open>durable_log\<close>, an \<open>op_log\<close> with \<open>last\<close> and \<open>sync\<close> and what they promise
    about entries that were synced and appends that failed half way; interpreted on \<open>MemLog\<close> and on
    \<open>FileLog\<close>, where the records of safe entries are durable at the start of the file.
  \<^item> \<open>Fairness\<close>: \<open>fairness.rs\<close>, the per-actor quotas, and \<open>round_robin\<close> of \<open>choir-sequencer/src/lib.rs\<close>.
    \<open>quota_run\<close> is the use of the table; \<open>turn_before\<close> the order a batch should be served in.
  \<^item> \<open>Lag\<close>: \<open>lag.rs\<close>, the latency histograms and the ring of gate breaches.
  \<^item> \<open>Sequencer\<close>: commands, policy, journal events and one wake-up of the writer (\<open>wake\<close>): \<open>drain\<close>,
    \<open>serve\<close> over the turns, \<open>decide\<close> for one submission, \<open>replicate_batch\<close>, the durability \<open>barrier\<close>
    with its acknowledgements. \<open>Sequencer_Inv\<close>: what a wake-up does to any \<open>durable_log\<close>, against the
    account \<open>entries_of\<close>, \<open>acks_of\<close> of the outcomes. \<open>Sequencer_Run\<close>: the writer over \<open>FileLog\<close>, its
    reachable states \<open>file_writer\<close> with the commands that led there, of any content, and what its
    answers promise (\<open>kept\<close>).

  \<^item> \<open>Merge\<close>: the strategies and their pipeline, the safety check of a resolution as bags of lines, the
    content of a change, and the scan of a merge for silent reverts.
  \<^item> \<open>Queue\<close>: \<open>choir-queue/src/lib.rs\<close> with its seams: changes, jobs and verdicts, the train
    (\<open>build_train\<close>), landing (\<open>land_prefix\<close>), ejection (\<open>eject\<close>), one round of the drain (\<open>drain_round\<close>) and
    its loop, a \<open>partial_function\<close>. The trait objects are the record \<open>queue_env\<close> of functions over a
    world they share. \<open>Queue_Run\<close>: what a round does, as the relation \<open>advances\<close> with its landings
    (\<open>landing_chain\<close>) and rejections (\<open>blamed\<close>). \<open>Queue_Drain\<close>: what a whole drain promises, the locale
    \<open>total_speculator\<close>, interpreted on the default pipeline, and the cache key. \<open>Queue_Memory\<close>: the
    resolutions a log already holds.

  Records, fields and constructors carry the names of the source with a prefix for the record
  (\<open>rs_verdicts\<close> is \<open>ReviewState::verdicts\<close>); a definition carries the name of its function, with
  \<open>validate_\<close> or \<open>apply_\<close> for the arms of those two functions, and \<open>mem_\<close>, \<open>fl_\<close>, \<open>fs_\<close> for the
  implementations of a trait.

  What the lemmas show. The fold is total and deterministic: \<open>apply\<close> never reaches an \<open>expect\<close> that
  fails, a refused operation changes nothing, and every log \<open>append_op\<close> builds is a hash chain that
  replays, on \<open>FileLog\<close> as long as no append failed on the device. Prefixes of the log materialize to the same view for ever. Landing through \<open>Submit\<close> needs
  the review, the commit and the ref it names, and approvals of as many operators as it
  claims, each by a key that was live at its verdict. A slash or an archived outcome never grants
  anything back. What a sync acknowledged is still there after power cuts at any byte, and the
  reopened file materializes to the same view; \<open>open\<close> gives it or, while the device does not let the
  repair of the torn tail through, an I/O error, and never calls the log corrupt. \<open>open\<close> refuses as
  corrupt exactly the files \<open>verify\<close> finds damaged.
  An answer of the sequencer is a promise: the record of an acknowledged entry is durable, and the entry
  survives power cuts unless an entry of another format version was replicated, which nothing checks and
  \<open>open\<close> then refuses; every drained submission gets one answer and gives its slot back, a writer that failed appends
  nothing more, and a replicated batch is in the log exactly as its source had it. The quota table
  counts what is in flight, the round-robin order serves no actor's second operation before another's
  first, and a reported percentile is between the true one and twice it.
  A drain of the merge queue lands changes as if one at a time, accounts for every change, rejects only
  for the cause it names, keeps its window in bounds and ends; the safety check is the comparison of
  two bags of lines, and a line neither side touched survives a resolution it upholds.
  Theorems that describe a surprising behaviour of the code (a panic, an answer that differs from
  the documentation) are stated as such, next to the definition they are about.

  Bounds. Integers that only count (\<open>u64\<close> positions and lengths) are \<open>nat\<close>: no operation of the model
  adds more than one to them per entry of the log, so 2 to the 64 entries would be needed to wrap.
  Bytes are 8-bit words. Where the code depends on a bound, it is written out: the capacity of
  \<open>BufWriter\<close>, \<open>isize::MAX\<close> for the reservation of \<open>get_blob\<close>, the 256 commands of a batch, the 512
  operations of a quota, the 32 buckets of a histogram and the 256 breaches of the ring.
  Recursions over the file end by the length of what is left to read; no definition uses fuel. The
  loop of the merge queue ends because every round lands or rejects a change.

  Parameters. BLAKE3, \<open>serde_json\<close> of entries, operations, snapshots, manifests and commits, and the cut
  points of FastCDC are arguments (\<open>externals\<close>, \<open>view_externals\<close>, \<open>commit_externals\<close>,
  \<open>memory_externals\<close>, \<open>b3\<close>, \<open>cdc\<close>), as are the line merge and line diff of \<open>diffy\<close> and the process \<open>mergiraf\<close>. A
  theorem that needs them to round-trip says so in a hypothesis (\<open>serde_op\<close>, \<open>serde_entries\<close>, or
  the equation itself), and its witness instantiates them by functions for which it holds; a
  theorem about stored bytes assumes that no other bytes are held under the same hash, never that
  the hash is injective.

  Not modelled: I/O errors of opening and of reading the log file (those of writing, syncing and
  repairing it are), the threads and channels of the sequencer (a wake-up takes the commands it finds as a
  list) and the file of its journal, the git commands, processes and HTTP workers behind the traits of the
  merge queue and its offline measurements (\<open>git.rs\<close>, \<open>worktree.rs\<close>, \<open>local.rs\<close>, \<open>remote.rs\<close>, \<open>corpus.rs\<close>,
  \<open>differential.rs\<close>, \<open>conform.rs\<close>, \<open>envelope.rs\<close>) and the git half of the scan of merges, the node daemon (\<open>choir-node\<close>), signatures and keys on disk (\<open>choir-identity\<close>: the log
  stores signatures and never checks them), and the programs around them (\<open>choir-cli\<close>, \<open>choir-bridge\<close>,
  \<open>choir-actor\<close>, \<open>choir-fs\<close>, \<open>choir-demo\<close>, \<open>choir-spike\<close>, \<open>choir-guards\<close>), which are I/O around the
  parts above.
\<close>

end
